(* ===== verification/Prelude.thy ===== *)
theory Prelude
  imports Main "HOL-Library.Word" "HOL-Library.Multiset"
begin

text \<open>
  What the components share: faults and outcomes (undefined behaviour and blocking calls as
  values), C arrays behind pointers, C's remainder, mutex and condition variable objects, ring
  buffers read as lists, labelled transition systems with reachability, and the two interfaces the
  components are proved against: an inductive invariant and a first-in first-out queue.
\<close>

named_theorems state_simps \<open>unfolding of the small state transformers\<close>

section \<open>Outcomes\<close>

text \<open>
  A C operation either yields a value or does something the language or POSIX does not define.
  \<open>Indeterminate\<close> is the use of a variable that was never set, \<open>Bad_alloc\<close> the exception of \<open>new\<close>, \<open>Bad_free\<close> the
  \<open>free\<close> of what \<open>malloc\<close> has not returned.
  \<open>Would_block\<close> is the one entry that is not a fault: the call waits for a mutex somebody holds.
\<close>

datatype fault =
    Null_deref | Wild_pointer | Out_of_bounds | Div_by_zero | Bad_mutex | Bad_cond | Bad_join
  | Use_after_free | Indeterminate | Bad_alloc | Signed_overflow | Bad_free | Would_block

type_synonym 'a outcome = "fault + 'a"

primrec obind :: "'a outcome \<Rightarrow> ('a \<Rightarrow> 'b outcome) \<Rightarrow> 'b outcome" where
  "obind (Inl f) k = Inl f"
| "obind (Inr x) k = k x"

lemma obind_Inr_iff [simp]: "obind m k = Inr y \<longleftrightarrow> (\<exists>x. m = Inr x \<and> k x = Inr y)"
  by (cases m) auto

lemma obind_Inl_iff: "obind m k = Inl f \<longleftrightarrow> m = Inl f \<or> (\<exists>x. m = Inr x \<and> k x = Inl f)"
  by (cases m) auto

section \<open>Arrays behind pointers, and C's remainder\<close>

text \<open>
  A pointer to an array: null, indeterminate (what \<open>malloc\<close> leaves in a struct), or the block.
\<close>

datatype 'a arr = Null | Wild | Arr "'a list"

fun arr_read :: "'a arr \<Rightarrow> int \<Rightarrow> 'a outcome" where
  "arr_read Null i = Inl Null_deref"
| "arr_read Wild i = Inl Wild_pointer"
| "arr_read (Arr xs) i =
     (if 0 \<le> i \<and> i < int (length xs) then Inr (xs ! nat i) else Inl Out_of_bounds)"

fun arr_write :: "'a arr \<Rightarrow> int \<Rightarrow> 'a \<Rightarrow> 'a arr outcome" where
  "arr_write Null i x = Inl Null_deref"
| "arr_write Wild i x = Inl Wild_pointer"
| "arr_write (Arr xs) i x =
     (if 0 \<le> i \<and> i < int (length xs) then Inr (Arr (xs[nat i := x])) else Inl Out_of_bounds)"

text \<open>C's \<open>%\<close> truncates towards zero and is undefined for a zero divisor.\<close>

definition cmod :: "int \<Rightarrow> int \<Rightarrow> int outcome" where
  "cmod a b = (if b = 0 then Inl Div_by_zero else Inr (sgn a * (\<bar>a\<bar> mod \<bar>b\<bar>)))"

lemma cmod_nonneg [simp]: "0 \<le> a \<Longrightarrow> 0 < b \<Longrightarrow> cmod a b = Inr (a mod b)"
  by (cases "a = 0") (auto simp: cmod_def)

section \<open>Mutexes and condition variables\<close>

text \<open>
  A mutex object: not initialised, free, held by a thread, destroyed. Locking a held mutex waits;
  destroying a held one is refused (\<open>EBUSY\<close>) and leaves it held; anything done to an object that is
  not initialised or already destroyed is undefined.
\<close>

datatype mutex = M_raw | M_free | M_held nat | M_destroyed
datatype cond = C_raw | C_ok | C_destroyed

fun mutex_lock :: "nat \<Rightarrow> mutex \<Rightarrow> mutex outcome" where
  "mutex_lock t M_free = Inr (M_held t)"
| "mutex_lock t (M_held u) = Inl Would_block"
| "mutex_lock t _ = Inl Bad_mutex"

fun mutex_unlock :: "nat \<Rightarrow> mutex \<Rightarrow> mutex outcome" where
  "mutex_unlock t (M_held u) = (if u = t then Inr M_free else Inl Bad_mutex)"
| "mutex_unlock t _ = Inl Bad_mutex"

fun mutex_destroy :: "mutex \<Rightarrow> mutex outcome" where
  "mutex_destroy M_free = Inr M_destroyed"
| "mutex_destroy (M_held u) = Inr (M_held u)"
| "mutex_destroy _ = Inl Bad_mutex"

fun cond_destroy :: "cond \<Rightarrow> cond outcome" where
  "cond_destroy C_ok = Inr C_destroyed"
| "cond_destroy _ = Inl Bad_cond"

section \<open>Ring buffers read as lists\<close>

definition ring_list :: "'a list \<Rightarrow> nat \<Rightarrow> nat \<Rightarrow> 'a list" where
  "ring_list xs f n = map (\<lambda>k. xs ! ((f + k) mod length xs)) [0..<n]"

lemma length_ring_list [simp]: "length (ring_list xs f n) = n"
  by (simp add: ring_list_def)

lemma ring_list_0 [simp]: "ring_list xs f 0 = []"
  by (simp add: ring_list_def)

lemma mod_add_inj:
  assumes "(f + i) mod m = (f + j) mod m" "i < m" "j < (m::nat)"
  shows "i = j"
proof -
  have le: "a = b" if "(f + a) mod m = (f + b) mod m" "b < m" "a \<le> b" for a b
  proof -
    have "m dvd (f + b) - (f + a)"
      using that(1,3) mod_eq_dvd_iff_nat [of "f + a" "f + b" m] by (metis add_left_mono)
    then have "m dvd b - a" by simp
    moreover have "b - a < m" using that(2) by simp
    ultimately have "b - a = 0" by (metis gr0I nat_dvd_not_less)
    with that(3) show ?thesis by simp
  qed
  show ?thesis using le [of i j] le [of j i] assms by (cases "i \<le> j") auto
qed

lemma ring_list_snoc:
  assumes "n < length xs"
  shows "ring_list (xs[(f + n) mod length xs := x]) f (Suc n) = ring_list xs f n @ [x]"
proof -
  have "(f + n) mod length xs \<noteq> (f + k) mod length xs" if "k < n" for k
    using mod_add_inj [of f n "length xs" k] that assms by auto
  then have "ring_list (xs[(f + n) mod length xs := x]) f n = ring_list xs f n"
    by (simp add: ring_list_def)
  moreover have "(f + n) mod length xs < length xs" using assms by (intro mod_less_divisor) auto
  ultimately show ?thesis by (simp add: ring_list_def)
qed

lemma ring_list_Cons:
  "ring_list xs f (Suc n) = xs ! (f mod length xs) # ring_list xs ((f + 1) mod length xs) n"
  by (simp add: ring_list_def upt_conv_Cons map_Suc_upt [symmetric] mod_add_left_eq
        del: upt_Suc map_Suc_upt)

section \<open>Counting over a list\<close>

text \<open>How many entries have a property, and the sum of the multisets the entries carry.\<close>

definition cnt :: "('a \<Rightarrow> bool) \<Rightarrow> 'a list \<Rightarrow> int" where
  "cnt P cs = (\<Sum>c\<leftarrow>cs. of_bool (P c))"

lemma cnt_simps [simp]:
  "cnt P [] = 0" "cnt P (c # cs) = of_bool (P c) + cnt P cs" "cnt P (cs @ ds) = cnt P cs + cnt P ds"
  "cnt P (replicate n c) = int n * of_bool (P c)"
  by (simp_all add: cnt_def sum_list_replicate)

lemma cnt_update:
  "t < length cs \<Longrightarrow> cnt P (cs[t := c]) = cnt P cs + of_bool (P c) - of_bool (P (cs ! t))"
  by (induction cs arbitrary: t) (auto split: nat.splits)

lemma cnt_nonneg: "0 \<le> cnt P cs"
  by (induction cs) auto

lemma cnt_mono: "(\<And>c. P c \<Longrightarrow> Q c) \<Longrightarrow> cnt P cs \<le> cnt Q cs"
  by (induction cs) (auto simp: of_bool_def)

lemma cnt_length: "cnt P cs = int (length (filter P cs))"
  by (induction cs) auto

definition gather :: "('a \<Rightarrow> 'b multiset) \<Rightarrow> 'a list \<Rightarrow> 'b multiset" where
  "gather f cs = (\<Sum>c\<leftarrow>cs. f c)"

lemma gather_simps [simp]:
  "gather f [] = {#}" "gather f (c # cs) = f c + gather f cs" "gather f (cs @ ds) = gather f cs + gather f ds"
  by (simp_all add: gather_def)

lemma gather_replicate [simp]: "f c = {#} \<Longrightarrow> gather f (replicate n c) = {#}"
  by (induction n) auto

lemma gather_empty: "(\<And>c. c \<in> set cs \<Longrightarrow> f c = {#}) \<Longrightarrow> gather f cs = {#}"
  by (induction cs) auto

lemma gather_update:
  "t < length cs \<Longrightarrow> gather f (cs[t := c]) + f (cs ! t) = gather f cs + f c"
  by (induction cs arbitrary: t) (auto split: nat.splits simp: ac_simps)

section \<open>Labelled transition systems\<close>

text \<open>
  A component with several threads is a step relation between states, one label per step. The
  states it can get into are the least set that holds the initial ones and is closed under steps.
\<close>

inductive reach :: "('s \<Rightarrow> bool) \<Rightarrow> ('l \<Rightarrow> 's \<Rightarrow> 's \<Rightarrow> bool) \<Rightarrow> 's \<Rightarrow> bool"
  for init step where
  reach_init: "init s \<Longrightarrow> reach init step s"
| reach_step: "reach init step s \<Longrightarrow> step l s s' \<Longrightarrow> reach init step s'"

text \<open>
  A step function that can be run: \<open>None\<close> when the labelled step is not enabled (the thread is
  blocked, or is not at that point), else the outcome. It gives a step relation, and a schedule (a
  list of labels) can be run with it.
\<close>

definition fires :: "('l \<Rightarrow> 's \<Rightarrow> 's outcome option) \<Rightarrow> 'l \<Rightarrow> 's \<Rightarrow> 's \<Rightarrow> bool" where
  "fires f l s s' \<longleftrightarrow> f l s = Some (Inr s')"

fun run :: "('l \<Rightarrow> 's \<Rightarrow> 's outcome option) \<Rightarrow> 'l list \<Rightarrow> 's \<Rightarrow> 's option" where
  "run f [] s = Some s"
| "run f (l # ls) s = (case f l s of Some (Inr s') \<Rightarrow> run f ls s' | _ \<Rightarrow> None)"

lemma run_append: "run f (ls @ ms) s = Option.bind (run f ls s) (run f ms)"
  by (induction f ls s rule: run.induct) (auto split: option.splits sum.splits)

lemma run_reach:
  "run f ls s = Some s' \<Longrightarrow> reach init (fires f) s \<Longrightarrow> reach init (fires f) s'"
proof (induction f ls s rule: run.induct)
  case (2 f l ls s)
  then obtain u where u: "f l s = Some (Inr u)" "run f ls u = Some s'"
    by (auto split: option.splits sum.splits)
  then have "fires f l s u" by (simp add: fires_def)
  with "2.prems"(2) have "reach init (fires f) u" by (rule reach_step)
  with u "2.IH" show ?case by blast
qed simp

lemma reach_mono: "reach I step s \<Longrightarrow> (\<And>s. I s \<Longrightarrow> J s) \<Longrightarrow> reach J step s"
  by (induction rule: reach.induct) (auto intro: reach.intros)

text \<open>Two systems that run beside each other and share nothing.\<close>

definition side_by_side ::
  "('l \<Rightarrow> 's \<Rightarrow> 's outcome option) \<Rightarrow> ('m \<Rightarrow> 't \<Rightarrow> 't outcome option) \<Rightarrow> 'l + 'm \<Rightarrow> 's \<times> 't \<Rightarrow> ('s \<times> 't) outcome option" where
  "side_by_side f g = (\<lambda>l (s, t).
     (case l of
        Inl a \<Rightarrow> map_option (map_sum id (\<lambda>s'. (s', t))) (f a s)
      | Inr b \<Rightarrow> map_option (map_sum id (\<lambda>t'. (s, t'))) (g b t)))"

lemma side_by_side_fires:
  "fires (side_by_side f g) l (s, t) (s', t') \<longleftrightarrow>
     (case l of Inl a \<Rightarrow> fires f a s s' \<and> t' = t | Inr b \<Rightarrow> fires g b t t' \<and> s' = s)"
  by (auto simp: fires_def side_by_side_def split: sum.split) (auto simp: map_sum_def split: sum.splits)

lemma side_by_side_reach:
  assumes "reach init (fires (side_by_side f g)) u" "\<And>s t. init (s, t) \<Longrightarrow> I s \<and> J t"
  shows "reach I (fires f) (fst u) \<and> reach J (fires g) (snd u)"
  using assms(1)
proof (induction rule: reach.induct)
  case (reach_init u)
  with assms(2) show ?case by (cases u) (auto intro: reach.reach_init)
next
  case (reach_step u l u')
  then show ?case
    by (cases u; cases u'; cases l) (auto simp: side_by_side_fires intro: reach.reach_step)
qed

text \<open>The interface of an invariant proof: it holds at the start and every step keeps it.\<close>

locale inductive_invariant =
  fixes init :: "'s \<Rightarrow> bool" and step :: "'l \<Rightarrow> 's \<Rightarrow> 's \<Rightarrow> bool" and I :: "'s \<Rightarrow> bool"
  assumes inv_init: "init s \<Longrightarrow> I s"
    and inv_step: "I s \<Longrightarrow> step l s s' \<Longrightarrow> I s'"
begin

lemma inv_reach: "reach init step s \<Longrightarrow> I s"
  by (induction rule: reach.induct) (auto intro: inv_init inv_step)

end

text \<open>
  The interface of a refinement proof: under the invariant, a concrete step is an abstract step or
  leaves the abstract state alone.
\<close>

locale refinement = inductive_invariant init step I
  for init :: "'s \<Rightarrow> bool" and step :: "'l \<Rightarrow> 's \<Rightarrow> 's \<Rightarrow> bool" and I :: "'s \<Rightarrow> bool" +
  fixes abst :: "'s \<Rightarrow> 'a" and ainit :: "'a \<Rightarrow> bool" and astep :: "'m \<Rightarrow> 'a \<Rightarrow> 'a \<Rightarrow> bool"
  assumes sim_init: "init s \<Longrightarrow> ainit (abst s)"
    and sim_step: "I s \<Longrightarrow> step l s s' \<Longrightarrow> abst s' = abst s \<or> (\<exists>m. astep m (abst s) (abst s'))"
begin

lemma reach_abs: "reach init step s \<Longrightarrow> reach ainit astep (abst s)"
proof (induction rule: reach.induct)
  case (reach_init s)
  then show ?case by (intro reach.reach_init sim_init)
next
  case (reach_step s l s')
  from sim_step [OF inv_reach [OF reach_step.hyps(1)] reach_step.hyps(2)] reach_step.IH
  show ?case by (auto intro: reach.reach_step)
qed

end

section \<open>First-in first-out queues\<close>

text \<open>
  Putting a list of elements, and taking a number of them, with operations that may fault.
\<close>

fun puts :: "('q \<Rightarrow> 'a \<Rightarrow> 'q outcome) \<Rightarrow> 'a list \<Rightarrow> 'q \<Rightarrow> 'q outcome" where
  "puts put [] q = Inr q"
| "puts put (x # xs) q = obind (put q x) (puts put xs)"

fun takes :: "('q \<Rightarrow> ('a \<times> 'q) outcome) \<Rightarrow> nat \<Rightarrow> 'q \<Rightarrow> ('a list \<times> 'q) outcome" where
  "takes get 0 q = Inr ([], q)"
| "takes get (Suc n) q =
     obind (get q) (\<lambda>(x, q'). obind (takes get n q') (\<lambda>(xs, q''). Inr (x # xs, q'')))"

text \<open>
  What a client relies on: the elements in the queue are a list, \<open>put\<close> appends to it where there
  is room, \<open>get\<close> removes its head where there is one. Neither faults then.
\<close>

locale fifo =
  fixes wf :: "'q \<Rightarrow> bool" and contents :: "'q \<Rightarrow> 'a list" and room :: "'q \<Rightarrow> bool"
    and put :: "'q \<Rightarrow> 'a \<Rightarrow> 'q outcome" and get :: "'q \<Rightarrow> ('a \<times> 'q) outcome"
  assumes put_law: "wf q \<Longrightarrow> room q \<Longrightarrow>
      \<exists>q'. put q x = Inr q' \<and> wf q' \<and> contents q' = contents q @ [x]"
    and get_law: "wf q \<Longrightarrow> contents q = x # xs \<Longrightarrow>
      \<exists>q'. get q = Inr (x, q') \<and> wf q' \<and> contents q' = xs"
begin

lemma takes_law:
  "wf q \<Longrightarrow> contents q = xs @ ys \<Longrightarrow>
     \<exists>q'. takes get (length xs) q = Inr (xs, q') \<and> wf q' \<and> contents q' = ys"
proof (induction xs arbitrary: q)
  case (Cons x xs)
  then obtain u where u: "get q = Inr (x, u)" "wf u" "contents u = xs @ ys"
    using get_law [of q x "xs @ ys"] by auto
  from Cons.IH [OF u(2,3)] u(1) show ?case by auto
qed simp

end

text \<open>A bounded queue says in addition how much room there is.\<close>

locale bounded_fifo = fifo wf contents room put get
  for wf :: "'q \<Rightarrow> bool" and contents :: "'q \<Rightarrow> 'a list" and room :: "'q \<Rightarrow> bool"
    and put :: "'q \<Rightarrow> 'a \<Rightarrow> 'q outcome" and get :: "'q \<Rightarrow> ('a \<times> 'q) outcome" +
  fixes cap :: "'q \<Rightarrow> nat"
  assumes room_law: "wf q \<Longrightarrow> room q \<longleftrightarrow> length (contents q) < cap q"
    and cap_law: "wf q \<Longrightarrow> put q x = Inr q' \<Longrightarrow> cap q' = cap q"
begin

lemma puts_law:
  "wf q \<Longrightarrow> length (contents q) + length xs \<le> cap q \<Longrightarrow>
     \<exists>q'. puts put xs q = Inr q' \<and> wf q' \<and> contents q' = contents q @ xs \<and> cap q' = cap q"
proof (induction xs arbitrary: q)
  case (Cons x xs)
  then have "room q" by (simp add: room_law)
  with Cons.prems(1) obtain u where u: "put q x = Inr u" "wf u" "contents u = contents q @ [x]"
    using put_law by blast
  moreover from Cons.prems(1) u(1) have "cap u = cap q" by (rule cap_law)
  ultimately show ?case using Cons.IH [of u] Cons.prems by auto
qed simp

lemma puts_takes:
  assumes "wf q" "contents q = []" "length xs \<le> cap q"
  shows "\<exists>q'. obind (puts put xs q) (takes get (length xs)) = Inr (xs, q') \<and> wf q' \<and> contents q' = []"
proof -
  from assms puts_law [of q xs] obtain u where "puts put xs q = Inr u" "wf u" "contents u = xs @ []"
    by auto
  with takes_law [of u xs "[]"] show ?thesis by auto
qed

end

end
