(* ===== verification/Thread_Pool.thy ===== *)
theory Thread_Pool
  imports Prelude
begin

text \<open>
  The thread pool of socket/thread_Pool/main.cpp, one operation at a time: the structs, the pieces of
  \<open>threadpool_add\<close>, \<open>threadpool_thread\<close> and \<open>adjust_thread\<close> that run under the pool's lock, and
  \<open>threadpool_create\<close>, \<open>threadpool_free\<close>, \<open>is_thread_alive\<close> and \<open>threadpool_all_threadnum\<close>. The
  theory Pool_System puts them together into the threads that run concurrently. The task array is a
  ring buffer; its content read as a list is a bounded queue.
\<close>

section \<open>The structs\<close>

type_synonym ptr = nat

record threadpool_task_t =
  tfunction :: ptr
  targ :: ptr

text \<open>
  Thread ids are numbers, 0 for "no thread", as the code tests them. An \<open>int\<close> of the code is an
  \<open>int\<close> here: the invariant of Pool_Proofs keeps every counter between 0 and a parameter of
  \<open>threadpool_create\<close>, or at most 10, so none of them overflows.
\<close>

record threadpool_t =
  lock :: mutex
  thread_counter :: mutex
  queue_not_full :: cond
  queue_not_empty :: cond
  threads :: "nat arr"
  adjust_tid :: nat
  task_queue :: "threadpool_task_t arr"
  min_thr_num :: int
  max_thr_num :: int
  live_thr_num :: int
  busy_thr_num :: int
  wait_exit_thr_num :: int
  queue_front :: int
  queue_rear :: int
  queue_size :: int
  queue_max_size :: int
  shutdown :: bool

definition MIN_WAIT_TASK_NUM :: int where "MIN_WAIT_TASK_NUM = 10"
definition DEFAULT_THREAD_VARY :: int where "DEFAULT_THREAD_VARY = 10"

section \<open>threadpool_add\<close>

text \<open>The guard of the wait loop, and what is done under the lock once it fails and the pool is open.\<close>

definition add_guard :: "threadpool_t \<Rightarrow> bool" where
  "add_guard p \<longleftrightarrow> queue_size p = queue_max_size p \<and> \<not> shutdown p"

definition add_put :: "threadpool_t \<Rightarrow> threadpool_task_t \<Rightarrow> threadpool_t outcome" where
  "add_put p k =
     obind (arr_read (task_queue p) (queue_rear p)) (\<lambda>old.
     let old' = (if targ old \<noteq> 0 then old\<lparr>targ := 0\<rparr> else old);
         new = old'\<lparr>tfunction := tfunction k, targ := targ k\<rparr> in
     obind (arr_write (task_queue p) (queue_rear p) new) (\<lambda>q.
     obind (cmod (queue_rear p + 1) (queue_max_size p)) (\<lambda>r.
     Inr (p\<lparr>task_queue := q, queue_rear := r, queue_size := queue_size p + 1\<rparr>))))"

text \<open>
  The whole call when no other thread interferes: \<open>None\<close> when it waits for room, otherwise the
  value it returns (always 0) and the pool.
\<close>

definition threadpool_add ::
    "threadpool_t \<Rightarrow> threadpool_task_t \<Rightarrow> (int \<times> threadpool_t) outcome option" where
  "threadpool_add p k =
     (if add_guard p then None
      else if shutdown p then Some (Inr (0, p))
      else Some (obind (add_put p k) (\<lambda>p'. Inr (0, p'))))"

section \<open>threadpool_thread\<close>

text \<open>
  The guard of a worker's wait loop, what it does when it returns from the wait (the flag says that
  it ends), and how it takes the task at the front.
\<close>

definition worker_guard :: "threadpool_t \<Rightarrow> bool" where
  "worker_guard p \<longleftrightarrow> queue_size p = 0 \<and> \<not> shutdown p"

definition worker_woken :: "threadpool_t \<Rightarrow> bool \<times> threadpool_t" where
  "worker_woken p =
     (if wait_exit_thr_num p > 0
      then let p1 = p\<lparr>wait_exit_thr_num := wait_exit_thr_num p - 1\<rparr> in
           if live_thr_num p1 > min_thr_num p1
           then (True, p1\<lparr>live_thr_num := live_thr_num p1 - 1\<rparr>)
           else (False, p1)
      else (False, p))"

definition worker_take :: "threadpool_t \<Rightarrow> (threadpool_task_t \<times> threadpool_t) outcome" where
  "worker_take p =
     obind (arr_read (task_queue p) (queue_front p)) (\<lambda>k.
     obind (cmod (queue_front p + 1) (queue_max_size p)) (\<lambda>f.
     Inr (k, p\<lparr>queue_front := f, queue_size := queue_size p - 1\<rparr>)))"

section \<open>is_thread_alive and adjust_thread\<close>

text \<open>\<open>kill0 t\<close> is what \<open>pthread_kill(t, 0)\<close> returns.\<close>

definition ESRCH :: int where "ESRCH = 3"

definition is_thread_alive :: "(nat \<Rightarrow> int) \<Rightarrow> nat \<Rightarrow> int" where
  "is_thread_alive kill0 t = (if kill0 t = ESRCH then 0 else 1)"

definition should_grow :: "int \<Rightarrow> int \<Rightarrow> threadpool_t \<Rightarrow> bool" where
  "should_grow qsize live p \<longleftrightarrow> qsize \<ge> MIN_WAIT_TASK_NUM \<and> live < max_thr_num p"

definition should_shrink :: "int \<Rightarrow> int \<Rightarrow> threadpool_t \<Rightarrow> bool" where
  "should_shrink busy live p \<longleftrightarrow> busy * 2 < live \<and> live > min_thr_num p"

text \<open>
  The loop that creates threads. The \<open>k\<close>-th thread it creates has the id \<open>tid0 + k\<close>; the result is
  how many it created (\<open>add\<close>) and the pool. \<open>pthread_create\<close>'s return value is not looked at by the
  code: the model's succeed.
\<close>

function grow_loop ::
    "(nat \<Rightarrow> int) \<Rightarrow> nat \<Rightarrow> int \<Rightarrow> int \<Rightarrow> threadpool_t \<Rightarrow> (int \<times> threadpool_t) outcome" where
  "grow_loop kill0 tid0 i add p =
     (if i < max_thr_num p \<and> add < DEFAULT_THREAD_VARY \<and> live_thr_num p < max_thr_num p
      then obind (arr_read (threads p) i) (\<lambda>t.
           if t = 0 \<or> is_thread_alive kill0 t = 0
           then obind (arr_write (threads p) i (tid0 + nat add)) (\<lambda>ts.
                grow_loop kill0 tid0 (i + 1) (add + 1)
                  (p\<lparr>threads := ts, live_thr_num := live_thr_num p + 1\<rparr>))
           else grow_loop kill0 tid0 (i + 1) add p)
      else Inr (add, p))"
  by pat_completeness auto
termination
  by (relation "measure (\<lambda>(kill0, tid0, i, add, p). nat (max_thr_num p - i))") auto

declare grow_loop.simps [simp del]

definition adjust_grow :: "(nat \<Rightarrow> int) \<Rightarrow> nat \<Rightarrow> threadpool_t \<Rightarrow> (int \<times> threadpool_t) outcome" where
  "adjust_grow kill0 tid0 p = grow_loop kill0 tid0 0 0 p"

definition adjust_shrink :: "threadpool_t \<Rightarrow> threadpool_t" where
  "adjust_shrink p = p\<lparr>wait_exit_thr_num := DEFAULT_THREAD_VARY\<rparr>"

definition threadpool_all_threadnum :: "threadpool_t \<Rightarrow> int" where
  "threadpool_all_threadnum p = live_thr_num p"

section \<open>threadpool_free\<close>

text \<open>
  Freeing by thread \<open>t\<close>: the return value, and the pool, \<open>None\<close> once it is deleted. Deleting an
  indeterminate pointer is undefined. The mutexes are locked, not unlocked, before they are
  destroyed, as the code does it.
\<close>

definition free_queue :: "threadpool_t \<Rightarrow> threadpool_t outcome" where
  "free_queue p =
     (case task_queue p of
        Null \<Rightarrow> Inr p
      | Wild \<Rightarrow> Inl Wild_pointer
      | Arr _ \<Rightarrow> Inr (p\<lparr>task_queue := Null\<rparr>))"

text \<open>The calls on the mutexes and condition variables, once the thread array is deleted.\<close>

definition free_locks :: "nat \<Rightarrow> threadpool_t \<Rightarrow> threadpool_t outcome" where
  "free_locks t p =
     obind (mutex_lock t (lock p)) (\<lambda>l.
     obind (mutex_destroy l) (\<lambda>l.
     obind (mutex_lock t (thread_counter p)) (\<lambda>c.
     obind (mutex_destroy c) (\<lambda>c.
     obind (cond_destroy (queue_not_empty p)) (\<lambda>ne.
     obind (cond_destroy (queue_not_full p)) (\<lambda>nf.
     Inr (p\<lparr>lock := l, thread_counter := c, queue_not_empty := ne, queue_not_full := nf\<rparr>)))))))"

definition free_threads :: "nat \<Rightarrow> threadpool_t \<Rightarrow> threadpool_t outcome" where
  "free_threads t p =
     (case threads p of
        Null \<Rightarrow> Inr p
      | Wild \<Rightarrow> Inl Wild_pointer
      | Arr _ \<Rightarrow> free_locks t (p\<lparr>threads := Null\<rparr>))"

definition threadpool_free ::
    "nat \<Rightarrow> threadpool_t option \<Rightarrow> (int \<times> threadpool_t option) outcome" where
  "threadpool_free t po =
     (case po of
        None \<Rightarrow> Inr (-1, None)
      | Some p \<Rightarrow> obind (free_queue p) (\<lambda>p. obind (free_threads t p) (\<lambda>p. Inr (0, None))))"

section \<open>threadpool_create\<close>

text \<open>
  What the calls of \<open>threadpool_create\<close> return: the block \<open>malloc\<close> gives for the pool (its content is
  indeterminate), the blocks it gives for arrays of \<open>n\<close> elements, the four initialisation calls in
  order, and the id of each thread started. \<open>malloc_ok\<close> is the documented behaviour of \<open>malloc\<close>.
\<close>

record create_env =
  new_pool :: "threadpool_t option"
  new_threads :: "int \<Rightarrow> nat list option"
  new_queue :: "int \<Rightarrow> threadpool_task_t list option"
  init_ret :: "nat \<Rightarrow> int"
  new_tid :: "nat \<Rightarrow> nat"

definition malloc_ok :: "create_env \<Rightarrow> bool" where
  "malloc_ok e \<longleftrightarrow> (\<forall>n xs. new_threads e n = Some xs \<longrightarrow> int (length xs) = n) \<and>
     (\<forall>n xs. new_queue e n = Some xs \<longrightarrow> int (length xs) = n)"

definition init_locks :: "(nat \<Rightarrow> int) \<Rightarrow> threadpool_t \<Rightarrow> bool \<times> threadpool_t" where
  "init_locks ret p =
     (if ret 0 \<noteq> 0 then (False, p) else
      let p = p\<lparr>lock := M_free\<rparr> in
      if ret 1 \<noteq> 0 then (False, p) else
      let p = p\<lparr>thread_counter := M_free\<rparr> in
      if ret 2 \<noteq> 0 then (False, p) else
      let p = p\<lparr>queue_not_full := C_ok\<rparr> in
      if ret 3 \<noteq> 0 then (False, p) else
      (True, p\<lparr>queue_not_empty := C_ok\<rparr>))"

fun start_workers :: "(nat \<Rightarrow> nat) \<Rightarrow> nat \<Rightarrow> nat \<Rightarrow> nat arr \<Rightarrow> nat arr outcome" where
  "start_workers tid i 0 a = Inr a"
| "start_workers tid i (Suc m) a =
     obind (arr_write a (int i) (tid i)) (start_workers tid (Suc i) m)"

definition threadpool_create ::
    "create_env \<Rightarrow> nat \<Rightarrow> int \<Rightarrow> int \<Rightarrow> int \<Rightarrow> threadpool_t option outcome" where
  "threadpool_create e t mn mx qmx =
     (let fail = (\<lambda>po. obind (threadpool_free t po) (\<lambda>_. Inr None)) in
      case new_pool e of
        None \<Rightarrow> fail None
      | Some raw \<Rightarrow>
          let p = raw\<lparr>min_thr_num := mn, max_thr_num := mx, busy_thr_num := 0,
                     live_thr_num := mn, wait_exit_thr_num := 0, queue_size := 0,
                     queue_max_size := qmx, queue_front := 0, queue_rear := 0,
                     shutdown := False\<rparr> in
          case new_threads e mx of
            None \<Rightarrow> fail (Some (p\<lparr>threads := Null\<rparr>))
          | Some ts \<Rightarrow>
              let p = p\<lparr>threads := Arr (replicate (length ts) 0)\<rparr> in
              case new_queue e qmx of
                None \<Rightarrow> fail (Some (p\<lparr>task_queue := Null\<rparr>))
              | Some q \<Rightarrow>
                  let p = p\<lparr>task_queue := Arr q\<rparr> in
                  (case init_locks (init_ret e) p of
                     (False, p) \<Rightarrow> fail (Some p)
                   | (True, p) \<Rightarrow>
                       obind (start_workers (new_tid e) 0 (nat mn) (threads p)) (\<lambda>ts.
                       Inr (Some (p\<lparr>threads := ts, adjust_tid := new_tid e (nat mn)\<rparr>)))))"

section \<open>Well-formed pools\<close>

text \<open>The ring buffer part, the queued tasks as a list, and the thread counters.\<close>

definition ring_ok :: "threadpool_t \<Rightarrow> bool" where
  "ring_ok p \<longleftrightarrow>
     (case task_queue p of
        Arr q \<Rightarrow> int (length q) = queue_max_size p \<and> 0 < queue_max_size p
          \<and> 0 \<le> queue_front p \<and> queue_front p < queue_max_size p
          \<and> 0 \<le> queue_size p \<and> queue_size p \<le> queue_max_size p
          \<and> queue_rear p = (queue_front p + queue_size p) mod queue_max_size p
      | _ \<Rightarrow> False)"

definition pool_tasks :: "threadpool_t \<Rightarrow> threadpool_task_t list" where
  "pool_tasks p =
     (case task_queue p of Arr q \<Rightarrow> ring_list q (nat (queue_front p)) (nat (queue_size p)) | _ \<Rightarrow> [])"

definition thr_ok :: "threadpool_t \<Rightarrow> bool" where
  "thr_ok p \<longleftrightarrow>
     (case threads p of
        Arr ts \<Rightarrow> int (length ts) = max_thr_num p \<and> 0 \<le> min_thr_num p
          \<and> min_thr_num p \<le> live_thr_num p \<and> live_thr_num p \<le> max_thr_num p
          \<and> 0 \<le> wait_exit_thr_num p \<and> wait_exit_thr_num p \<le> DEFAULT_THREAD_VARY
      | _ \<Rightarrow> False)"

lemma ring_okE:
  assumes "ring_ok p"
  obtains q where "task_queue p = Arr q" "int (length q) = queue_max_size p"
    "0 < queue_max_size p" "0 \<le> queue_front p" "queue_front p < queue_max_size p"
    "0 \<le> queue_size p" "queue_size p \<le> queue_max_size p"
    "queue_rear p = (queue_front p + queue_size p) mod queue_max_size p"
  using assms by (auto simp: ring_ok_def split: arr.splits)

lemma length_pool_tasks: "ring_ok p \<Longrightarrow> int (length (pool_tasks p)) = queue_size p"
  by (auto simp: ring_ok_def pool_tasks_def split: arr.splits)

section \<open>The ring buffer is a bounded queue\<close>

lemma nat_ring_index:
  "0 \<le> f \<Longrightarrow> 0 \<le> s \<Longrightarrow> nat ((f + s) mod int n) = (nat f + nat s) mod n"
  by (simp add: nat_mod_distrib nat_add_distrib)

lemma task_copy [simp]:
  "(x :: threadpool_task_t)\<lparr>tfunction := tfunction k, targ := targ k\<rparr> = k"
  by (cases x; cases k) simp

text \<open>What putting and taking do to the fields of a well-formed ring.\<close>

lemma add_put_eq:
  assumes "ring_ok p" "task_queue p = Arr q"
  shows "add_put p k = Inr (p\<lparr>task_queue := Arr (q[nat (queue_rear p) := k]),
           queue_rear := (queue_rear p + 1) mod queue_max_size p, queue_size := queue_size p + 1\<rparr>)"
proof -
  have "0 \<le> queue_rear p \<and> queue_rear p < queue_max_size p"
    using assms(1) by (auto elim!: ring_okE)
  with assms show ?thesis
    by (auto simp: add_put_def ring_ok_def Let_def)
qed

lemma worker_take_eq:
  assumes "ring_ok p" "task_queue p = Arr q"
  shows "worker_take p = Inr (q ! nat (queue_front p),
           p\<lparr>queue_front := (queue_front p + 1) mod queue_max_size p, queue_size := queue_size p - 1\<rparr>)"
  using assms by (auto simp: worker_take_def ring_ok_def)

lemma add_put_ring:
  assumes "ring_ok p" "queue_size p < queue_max_size p" "add_put p k = Inr p'"
  shows "ring_ok p' \<and> pool_tasks p' = pool_tasks p @ [k]"
proof -
  from assms(1) obtain q where q: "task_queue p = Arr q" and w: "ring_ok p" by (auto elim: ring_okE)
  let ?f = "queue_front p" and ?n = "queue_size p" and ?m = "queue_max_size p"
  from w q have b: "int (length q) = ?m" "0 < ?m" "0 \<le> ?f" "?f < ?m" "0 \<le> ?n" "queue_rear p = (?f + ?n) mod ?m"
    by (auto elim: ring_okE)
  have idx: "nat (queue_rear p) = (nat ?f + nat ?n) mod length q"
    using b nat_ring_index [of ?f ?n "length q"] by simp
  have sz: "nat (?n + 1) = Suc (nat ?n)" using b by simp
  have "ring_list (q[nat (queue_rear p) := k]) (nat ?f) (Suc (nat ?n)) = ring_list q (nat ?f) (nat ?n) @ [k]"
    unfolding idx by (rule ring_list_snoc) (use b assms(2) in linarith)
  moreover have "(queue_rear p + 1) mod ?m = (?f + (?n + 1)) mod ?m"
    using b by (simp add: mod_add_left_eq add.assoc)
  ultimately show ?thesis
    using assms(2,3) b q sz add_put_eq [OF w q, of k]
    by (auto simp: ring_ok_def pool_tasks_def)
qed

lemma worker_take_ring:
  assumes "ring_ok p" "0 < queue_size p" "worker_take p = Inr (k, p')"
  shows "ring_ok p' \<and> pool_tasks p = k # pool_tasks p'"
proof -
  from assms(1) obtain q where q: "task_queue p = Arr q" and w: "ring_ok p" by (auto elim: ring_okE)
  let ?f = "queue_front p" and ?n = "queue_size p" and ?m = "queue_max_size p"
  from w q have b: "int (length q) = ?m" "0 < ?m" "0 \<le> ?f" "?f < ?m" "?n \<le> ?m" "queue_rear p = (?f + ?n) mod ?m"
    by (auto elim: ring_okE)
  have f: "nat ?f < length q" "nat ((?f + 1) mod ?m) = (nat ?f + 1) mod length q"
    using b nat_ring_index [of ?f 1 "length q"] by auto
  have sz: "nat ?n = Suc (nat (?n - 1))" using assms(2) by simp
  have "(((?f + 1) mod ?m) + (?n - 1)) mod ?m = (?f + ?n) mod ?m"
    by (simp add: mod_add_left_eq)
  then show ?thesis
    using assms(2,3) b q f worker_take_eq [OF w q] ring_list_Cons [of q "nat ?f" "nat (?n - 1)"]
    by (auto simp: ring_ok_def pool_tasks_def sz)
qed

lemma add_put_cap: "add_put p k = Inr p' \<Longrightarrow> queue_max_size p' = queue_max_size p"
  by (auto simp: add_put_def Let_def)

interpretation pool_queue: bounded_fifo ring_ok pool_tasks "\<lambda>p. queue_size p < queue_max_size p"
  add_put worker_take "\<lambda>p. nat (queue_max_size p)"
proof
  fix p k assume w: "ring_ok p" and room: "queue_size p < queue_max_size p"
  from w obtain q where "task_queue p = Arr q" by (rule ring_okE)
  with w obtain p' where "add_put p k = Inr p'" using add_put_eq by blast
  with add_put_ring [OF w room] show "\<exists>p'. add_put p k = Inr p' \<and> ring_ok p' \<and> pool_tasks p' = pool_tasks p @ [k]"
    by blast
next
  fix p k ks assume w: "ring_ok p" and c: "pool_tasks p = k # ks"
  from c length_pool_tasks [OF w] have pos: "0 < queue_size p" by simp
  from w obtain q where "task_queue p = Arr q" by (rule ring_okE)
  with w obtain k' p' where "worker_take p = Inr (k', p')" using worker_take_eq by blast
  with worker_take_ring [OF w pos] c
  show "\<exists>p'. worker_take p = Inr (k, p') \<and> ring_ok p' \<and> pool_tasks p' = ks" by auto
next
  fix p assume "ring_ok p"
  then show "queue_size p < queue_max_size p \<longleftrightarrow> length (pool_tasks p) < nat (queue_max_size p)"
    using length_pool_tasks [of p] by linarith
next
  fix p k p' assume "add_put p k = Inr p'"
  then show "nat (queue_max_size p') = nat (queue_max_size p)" by (simp add: add_put_cap)
qed

section \<open>Growing the pool\<close>

text \<open>One iteration of the loop: it stops, fills a usable slot, or passes over one in use.\<close>

definition usable_slot :: "(nat \<Rightarrow> int) \<Rightarrow> nat \<Rightarrow> bool" where
  "usable_slot kill0 t \<longleftrightarrow> t = 0 \<or> is_thread_alive kill0 t = 0"

definition usable_slots :: "(nat \<Rightarrow> int) \<Rightarrow> threadpool_t \<Rightarrow> int \<Rightarrow> int" where
  "usable_slots kill0 p i =
     (case threads p of Arr ts \<Rightarrow> int (length (filter (usable_slot kill0) (drop (nat i) ts))) | _ \<Rightarrow> 0)"

definition grow_on :: "int \<Rightarrow> int \<Rightarrow> threadpool_t \<Rightarrow> bool" where
  "grow_on i add p \<longleftrightarrow>
     i < max_thr_num p \<and> add < DEFAULT_THREAD_VARY \<and> live_thr_num p < max_thr_num p"

definition fill_slot :: "nat \<Rightarrow> int \<Rightarrow> threadpool_t \<Rightarrow> threadpool_t" where
  "fill_slot t i p =
     (case threads p of
        Arr ts \<Rightarrow> p\<lparr>threads := Arr (ts[nat i := t]), live_thr_num := live_thr_num p + 1\<rparr>
      | _ \<Rightarrow> p)"

lemma grow_loop_unfold:
  assumes "thr_ok p" "threads p = Arr ts" "0 \<le> i"
  shows "grow_loop kill0 tid0 i add p =
    (if \<not> grow_on i add p then Inr (add, p)
     else if usable_slot kill0 (ts ! nat i)
     then grow_loop kill0 tid0 (i + 1) (add + 1) (fill_slot (tid0 + nat add) i p)
     else grow_loop kill0 tid0 (i + 1) add p)"
  using assms
  by (subst grow_loop.simps) (auto simp: grow_on_def usable_slot_def thr_ok_def fill_slot_def)

lemma fill_slot_ok:
  assumes "thr_ok p" "0 \<le> i" "grow_on i add p"
  shows "thr_ok (fill_slot t i p)" and "max_thr_num (fill_slot t i p) = max_thr_num p"
    and "live_thr_num (fill_slot t i p) = live_thr_num p + 1"
    and "usable_slots kill0 (fill_slot t i p) (i + 1) = usable_slots kill0 p (i + 1)"
  using assms
  by (auto simp: thr_ok_def fill_slot_def grow_on_def usable_slots_def drop_update_cancel split: arr.splits)

lemma usable_slots_step:
  assumes "thr_ok p" "threads p = Arr ts" "0 \<le> i" "i < max_thr_num p"
  shows "usable_slots kill0 p i =
    (if usable_slot kill0 (ts ! nat i) then 1 else 0) + usable_slots kill0 p (i + 1)"
proof -
  have "int (length ts) = max_thr_num p" using assms(1,2) by (simp add: thr_ok_def)
  with assms(3,4) have "nat i < length ts" by linarith
  with assms(3) have "drop (nat i) ts = ts ! nat i # drop (nat (i + 1)) ts"
    by (simp add: Cons_nth_drop_Suc nat_add_distrib)
  with assms(2) show ?thesis by (simp add: usable_slots_def)
qed

lemma usable_slots_nonneg: "0 \<le> usable_slots kill0 p i"
  by (simp add: usable_slots_def split: arr.splits)

lemma usable_slots_end: "thr_ok p \<Longrightarrow> max_thr_num p \<le> i \<Longrightarrow> usable_slots kill0 p i = 0"
  by (auto simp: usable_slots_def thr_ok_def split: arr.splits)

text \<open>The loop always ends with a pool, and how many threads it creates.\<close>

lemma grow_loop_count:
  assumes "thr_ok p" "0 \<le> i" "add \<le> DEFAULT_THREAD_VARY"
  shows "\<exists>n p'. grow_loop kill0 tid0 i add p = Inr (n, p') \<and> thr_ok p'
    \<and> n = min DEFAULT_THREAD_VARY (add + min (max_thr_num p - live_thr_num p) (usable_slots kill0 p i))
    \<and> live_thr_num p' = live_thr_num p + (n - add)"
  using assms
proof (induction "nat (max_thr_num p - i)" arbitrary: i add p)
  case 0
  then have "\<not> grow_on i add p" "usable_slots kill0 p i = 0" by (auto simp: grow_on_def usable_slots_end)
  moreover obtain ts where "threads p = Arr ts" using 0(2) by (auto simp: thr_ok_def split: arr.splits)
  ultimately show ?case
    using 0 grow_loop_unfold [OF 0(2) _ 0(3)] by (auto simp: thr_ok_def)
next
  case (Suc m)
  obtain ts where ts: "threads p = Arr ts" using Suc.prems(1) by (auto simp: thr_ok_def split: arr.splits)
  note unf = grow_loop_unfold [OF Suc.prems(1) ts Suc.prems(2), of kill0 tid0 add]
  have m: "m = nat (max_thr_num p - (i + 1))" using Suc.hyps(2) by simp
  show ?case
  proof (cases "grow_on i add p")
    case False
    with Suc.hyps(2) have "DEFAULT_THREAD_VARY \<le> add \<or> max_thr_num p \<le> live_thr_num p"
      by (auto simp: grow_on_def)
    with False unf Suc.prems(1,3) usable_slots_nonneg [of kill0 p i] ts show ?thesis
      by (auto simp: thr_ok_def)
  next
    case True
    note st = usable_slots_step [OF Suc.prems(1) ts Suc.prems(2), of kill0] True [unfolded grow_on_def]
    show ?thesis
    proof (cases "usable_slot kill0 (ts ! nat i)")
      case free: True
      let ?p = "fill_slot (tid0 + nat add) i p"
      have "m = nat (max_thr_num ?p - (i + 1))" using m fill_slot_ok(2) [OF Suc.prems(1,2) True] by simp
      from Suc.hyps(1) [OF this fill_slot_ok(1) [OF Suc.prems(1,2) True], of "add + 1"] Suc.prems(2) st(2)
      obtain n p' where "grow_loop kill0 tid0 (i + 1) (add + 1) ?p = Inr (n, p')" "thr_ok p'"
        "n = min DEFAULT_THREAD_VARY (add + 1 + min (max_thr_num ?p - live_thr_num ?p) (usable_slots kill0 ?p (i + 1)))"
        "live_thr_num p' = live_thr_num ?p + (n - (add + 1))"
        by auto
      with unf True free st show ?thesis by (simp add: fill_slot_ok [OF Suc.prems(1,2) True] min_def)
    next
      case used: False
      from Suc.hyps(1) [OF m Suc.prems(1), of add] Suc.prems(2,3) unf True used st show ?thesis by simp
    qed
  qed
qed

text \<open>It writes the thread array and the live count, and nothing else.\<close>

lemma grow_loop_frame:
  "grow_loop kill0 tid0 i add p = Inr (n, p') \<Longrightarrow>
     p'\<lparr>threads := x, live_thr_num := y\<rparr> = p\<lparr>threads := x, live_thr_num := y\<rparr>"
proof (induction kill0 tid0 i add p rule: grow_loop.induct)
  case (1 kill0 tid0 i add p)
  show ?case
  proof (cases "i < max_thr_num p \<and> add < DEFAULT_THREAD_VARY \<and> live_thr_num p < max_thr_num p")
    case False
    with "1.prems" have "p' = p" by (simp only: grow_loop.simps [of _ _ i] if_not_P) auto
    then show ?thesis by simp
  next
    case True
    with "1.prems" obtain t where t: "arr_read (threads p) i = Inr t"
      by (auto simp: grow_loop.simps [of _ _ i])
    show ?thesis
    proof (cases "t = 0 \<or> is_thread_alive kill0 t = 0")
      case free: True
      with True t "1.prems" obtain ts where
        "grow_loop kill0 tid0 (i + 1) (add + 1) (p\<lparr>threads := ts, live_thr_num := live_thr_num p + 1\<rparr>) = Inr (n, p')"
        by (auto simp: grow_loop.simps [of _ _ i])
      from "1.IH"(1) [OF True free this] show ?thesis by simp
    next
      case used: False
      with True t "1.prems" have "grow_loop kill0 tid0 (i + 1) add p = Inr (n, p')"
        by (auto simp: grow_loop.simps [of _ _ i])
      from "1.IH"(2) [OF True used this] show ?thesis .
    qed
  qed
qed

lemma adjust_grow_ok:
  assumes "thr_ok p"
  shows "\<exists>n p'. adjust_grow kill0 tid0 p = Inr (n, p') \<and> thr_ok p' \<and> 0 \<le> n
    \<and> n = min 10 (min (max_thr_num p - live_thr_num p) (usable_slots kill0 p 0))
    \<and> live_thr_num p' = live_thr_num p + n
    \<and> p'\<lparr>threads := threads p, live_thr_num := live_thr_num p\<rparr> = p"
proof -
  obtain n p' where g: "grow_loop kill0 tid0 0 0 p = Inr (n, p')" "thr_ok p'"
    "n = min 10 (min (max_thr_num p - live_thr_num p) (usable_slots kill0 p 0))"
    "live_thr_num p' = live_thr_num p + n"
    using grow_loop_count [OF assms, of 0 0 kill0 tid0] by (auto simp: DEFAULT_THREAD_VARY_def)
  from grow_loop_frame [OF g(1), where x = "threads p" and y = "live_thr_num p"]
  have "p'\<lparr>threads := threads p, live_thr_num := live_thr_num p\<rparr> = p" by simp
  moreover have "0 \<le> n"
    using g(3) assms usable_slots_nonneg [of kill0 p 0] by (auto simp: thr_ok_def split: arr.splits)
  ultimately show ?thesis using g unfolding adjust_grow_def by blast
qed

section \<open>Creating the pool\<close>

lemma start_workers_fills:
  "i + m \<le> length xs \<Longrightarrow>
     start_workers tid i m (Arr xs) = Inr (Arr (take i xs @ map tid [i..<i + m] @ drop (i + m) xs))"
proof (induction m arbitrary: i xs)
  case (Suc m)
  then have "i < length xs" by simp
  then have "take (Suc i) (xs[i := tid i]) = take i xs @ [tid i]"
    by (simp add: take_Suc_conv_app_nth)
  with Suc.IH [of "Suc i" "xs[i := tid i]"] Suc.prems show ?case
    by (simp add: upt_conv_Cons del: upt_Suc)
qed simp

lemma start_workers_overrun:
  "i \<le> length xs \<Longrightarrow> length xs < i + m \<Longrightarrow> start_workers tid i m (Arr xs) = Inl Out_of_bounds"
proof (induction m arbitrary: i xs)
  case (Suc m)
  then show ?case by (cases "i < length xs") auto
qed simp

text \<open>The pool a successful call returns.\<close>

definition fresh_pool :: "threadpool_t \<Rightarrow> bool" where
  "fresh_pool p \<longleftrightarrow> ring_ok p \<and> pool_tasks p = [] \<and> thr_ok p \<and> \<not> shutdown p
     \<and> lock p = M_free \<and> thread_counter p = M_free \<and> queue_not_full p = C_ok \<and> queue_not_empty p = C_ok
     \<and> live_thr_num p = min_thr_num p \<and> busy_thr_num p = 0 \<and> wait_exit_thr_num p = 0"

lemma create_ok:
  assumes "new_pool e = Some raw" "new_threads e mx = Some ts" "new_queue e qmx = Some q"
    and "malloc_ok e" "\<forall>i<4. init_ret e i = 0" "0 \<le> mn" "mn \<le> mx" "0 < qmx"
  shows "\<exists>p. threadpool_create e t mn mx qmx = Inr (Some p) \<and> fresh_pool p
    \<and> min_thr_num p = mn \<and> max_thr_num p = mx \<and> queue_max_size p = qmx
    \<and> threads p = Arr (map (new_tid e) [0..<nat mn] @ replicate (nat (mx - mn)) 0)
    \<and> adjust_tid p = new_tid e (nat mn)"
proof -
  from assms(2-4) have len: "int (length ts) = mx" "int (length q) = qmx" by (auto simp: malloc_ok_def)
  have ret: "init_ret e 0 = 0" "init_ret e 1 = 0" "init_ret e 2 = 0" "init_ret e 3 = 0"
    using assms(5) by auto
  have "nat mn \<le> length ts" using len(1) assms(6,7) by linarith
  then have "start_workers (new_tid e) 0 (nat mn) (Arr (replicate (length ts) 0))
      = Inr (Arr (map (new_tid e) [0..<nat mn] @ replicate (nat (mx - mn)) 0))"
    using start_workers_fills [of 0 "nat mn" "replicate (length ts) 0"] len(1) assms(6,7)
    by (simp add: nat_diff_distrib [symmetric])
  with assms(1-3,6-8) len ret show ?thesis
    by (auto simp: threadpool_create_def Let_def init_locks_def fresh_pool_def ring_ok_def pool_tasks_def
        thr_ok_def DEFAULT_THREAD_VARY_def)
qed

section \<open>The client of main\<close>

text \<open>
  \<open>main\<close> creates a pool of 10 to 100 threads with room for 100 tasks and adds 40 tasks, the \<open>i\<close>-th
  with the number \<open>i\<close> as its argument pointer. \<open>None\<close> is an add that waits; using the null pointer
  of a failed creation is a fault. Worker threads are left out: they only make room.
\<close>

definition main_tasks :: "ptr \<Rightarrow> threadpool_task_t list" where
  "main_tasks process = map (\<lambda>i. \<lparr>tfunction = process, targ = i\<rparr>) [0..<40]"

fun add_all :: "threadpool_t \<Rightarrow> threadpool_task_t list \<Rightarrow> threadpool_t outcome option" where
  "add_all p [] = Some (Inr p)"
| "add_all p (k # ks) =
     (case threadpool_add p k of
        None \<Rightarrow> None
      | Some (Inl f) \<Rightarrow> Some (Inl f)
      | Some (Inr (r, p')) \<Rightarrow> add_all p' ks)"

definition main_adds :: "create_env \<Rightarrow> nat \<Rightarrow> ptr \<Rightarrow> threadpool_t outcome option" where
  "main_adds e t process =
     (case threadpool_create e t 10 100 100 of
        Inl f \<Rightarrow> Some (Inl f)
      | Inr None \<Rightarrow> Some (Inl Null_deref)
      | Inr (Some p) \<Rightarrow> add_all p (main_tasks process))"

lemma add_put_shutdown: "add_put p k = Inr p' \<Longrightarrow> shutdown p' = shutdown p"
  by (auto simp: add_put_def Let_def)

lemma add_open:
  assumes "ring_ok p" "\<not> shutdown p" "queue_size p < queue_max_size p"
  shows "\<exists>p'. threadpool_add p k = Some (Inr (0, p')) \<and> add_put p k = Inr p' \<and> ring_ok p'
    \<and> pool_tasks p' = pool_tasks p @ [k]"
  using pool_queue.put_law [OF assms(1,3)] assms(2,3) by (auto simp: threadpool_add_def add_guard_def)

lemma add_all_puts:
  "ring_ok p \<Longrightarrow> \<not> shutdown p \<Longrightarrow> length (pool_tasks p) + length ks \<le> nat (queue_max_size p) \<Longrightarrow>
     add_all p ks = Some (puts add_put ks p)"
proof (induction ks arbitrary: p)
  case (Cons k ks)
  then have "queue_size p < queue_max_size p" by (simp add: pool_queue.room_law)
  from add_open [OF Cons.prems(1,2) this, of k] obtain p' where
    "threadpool_add p k = Some (Inr (0, p'))" "add_put p k = Inr p'" "ring_ok p'" "pool_tasks p' = pool_tasks p @ [k]"
    by blast
  with Cons show ?case by (simp add: add_put_shutdown add_put_cap)
qed simp

section \<open>Properties of the operations\<close>

text \<open>A heap that grants every request, for the witnesses.\<close>

definition sample_raw :: threadpool_t where
  "sample_raw = \<lparr>lock = M_raw, thread_counter = M_raw, queue_not_full = C_raw, queue_not_empty = C_raw,
     threads = Wild, adjust_tid = 7, task_queue = Wild, min_thr_num = 1, max_thr_num = 1,
     live_thr_num = 1, busy_thr_num = 1, wait_exit_thr_num = 1, queue_front = 1, queue_rear = 1,
     queue_size = 1, queue_max_size = 1, shutdown = True\<rparr>"

definition sample_env :: create_env where
  "sample_env = \<lparr>new_pool = Some sample_raw,
     new_threads = (\<lambda>n. if n < 0 then None else Some (replicate (nat n) 5)),
     new_queue = (\<lambda>n. if n < 0 then None else Some (replicate (nat n) \<lparr>tfunction = 9, targ = 9\<rparr>)),
     init_ret = (\<lambda>i. 0), new_tid = Suc\<rparr>"

lemma sample_env_ok: "malloc_ok sample_env" "new_pool sample_env = Some sample_raw"
  "\<forall>i<4. init_ret sample_env i = 0"
  by (auto simp: malloc_ok_def sample_env_def split: if_splits)

text \<open>\<open>threadpool_add\<close> alone on a well-formed pool: after shutdown it returns 0 and leaves the
  pool as it is; on an open full pool it waits; on an open pool with room it returns 0, without a
  fault, with the task appended behind the queued ones.\<close>

theorem threadpool_add_spec:
  assumes "ring_ok p"
  shows "if shutdown p then threadpool_add p k = Some (Inr (0, p))
    else if int (length (pool_tasks p)) = queue_max_size p then threadpool_add p k = None
    else \<exists>p'. threadpool_add p k = Some (Inr (0, p')) \<and> ring_ok p' \<and> pool_tasks p' = pool_tasks p @ [k]"
proof -
  from assms have "queue_size p \<le> queue_max_size p" by (rule ring_okE)
  then have "queue_size p = queue_max_size p \<or> queue_size p < queue_max_size p" by linarith
  with add_open [OF assms, of k] length_pool_tasks [OF assms] show ?thesis
    by (auto simp: threadpool_add_def add_guard_def)
qed

text \<open>A small pool for witnesses: room for two tasks, one of them queued, the front at slot 1.\<close>

definition sample_pool :: threadpool_t where
  "sample_pool = sample_raw\<lparr>lock := M_free, thread_counter := M_free, queue_not_full := C_ok,
     queue_not_empty := C_ok, threads := Arr [1, 0], task_queue := Arr [\<lparr>tfunction = 9, targ = 9\<rparr>, \<lparr>tfunction = 3, targ = 4\<rparr>],
     max_thr_num := 2, live_thr_num := 1, busy_thr_num := 0, wait_exit_thr_num := 0, queue_front := 1,
     queue_rear := 0, queue_size := 1, queue_max_size := 2, shutdown := False\<rparr>"

lemma sample_pool_ok: "ring_ok sample_pool" "thr_ok sample_pool"
  "pool_tasks sample_pool = [\<lparr>tfunction = 3, targ = 4\<rparr>]" "\<not> shutdown sample_pool"
  "queue_max_size sample_pool = 2" "live_thr_num sample_pool = 1" "max_thr_num sample_pool = 2"
  by (simp_all add: ring_ok_def thr_ok_def pool_tasks_def sample_pool_def sample_raw_def
      DEFAULT_THREAD_VARY_def ring_list_def)

theorem threadpool_add_spec_witness:
  "\<exists>p'. threadpool_add sample_pool \<lparr>tfunction = 3, targ = 5\<rparr> = Some (Inr (0, p'))
     \<and> pool_tasks p' = [\<lparr>tfunction = 3, targ = 4\<rparr>, \<lparr>tfunction = 3, targ = 5\<rparr>]"
  using threadpool_add_spec [OF sample_pool_ok(1), of "\<lparr>tfunction = 3, targ = 5\<rparr>"]
  by (auto simp: sample_pool_ok)

text \<open>C24. The ring buffer is first-in first-out: from an empty well-formed ring, whatever its front
  index, putting at most \<open>queue_max_size\<close> tasks and taking as many gives the same tasks in the same
  order and an empty well-formed ring, with no access out of the array.\<close>

theorem ring_fifo_roundtrip:
  assumes "ring_ok p" "pool_tasks p = []" "int (length ks) \<le> queue_max_size p"
  shows "\<exists>p'. obind (puts add_put ks p) (takes worker_take (length ks)) = Inr (ks, p')
    \<and> ring_ok p' \<and> pool_tasks p' = []"
proof -
  have "length ks \<le> nat (queue_max_size p)" using assms(3) by linarith
  with assms(1,2) show ?thesis by (rule pool_queue.puts_takes)
qed

theorem ring_fifo_roundtrip_witness:
  "\<exists>p'. obind (puts add_put [\<lparr>tfunction = 3, targ = 5\<rparr>, \<lparr>tfunction = 3, targ = 6\<rparr>] (sample_pool\<lparr>queue_size := 0, queue_rear := 1\<rparr>))
      (takes worker_take 2) = Inr ([\<lparr>tfunction = 3, targ = 5\<rparr>, \<lparr>tfunction = 3, targ = 6\<rparr>], p')"
  using ring_fifo_roundtrip [of "sample_pool\<lparr>queue_size := 0, queue_rear := 1\<rparr>"
      "[\<lparr>tfunction = 3, targ = 5\<rparr>, \<lparr>tfunction = 3, targ = 6\<rparr>]"]
  by (auto simp: ring_ok_def pool_tasks_def sample_pool_def numeral_2_eq_2)

text \<open>\<open>threadpool_create\<close> with every call succeeding and 0 <= min <= max, 0 < queue size returns a
  pool that is open, empty, unlocked and well-formed, with the ids of the \<open>min\<close> started workers in
  the first \<open>min\<close> slots of the thread array and zero in the others.\<close>

theorem threadpool_create_ok:
  assumes "new_pool e = Some raw" "new_threads e mx = Some ts" "new_queue e qmx = Some q"
    and "malloc_ok e" "\<forall>i<4. init_ret e i = 0" "0 \<le> mn" "mn \<le> mx" "0 < qmx"
  shows "\<exists>p. threadpool_create e t mn mx qmx = Inr (Some p) \<and> fresh_pool p
    \<and> min_thr_num p = mn \<and> max_thr_num p = mx \<and> queue_max_size p = qmx
    \<and> threads p = Arr (map (new_tid e) [0..<nat mn] @ replicate (nat (mx - mn)) 0)
    \<and> adjust_tid p = new_tid e (nat mn)"
  using create_ok [OF assms] .

theorem threadpool_create_ok_witness:
  "\<exists>p. threadpool_create sample_env 0 1 3 4 = Inr (Some p) \<and> fresh_pool p
     \<and> threads p = Arr [1, 0, 0] \<and> adjust_tid p = 2"
  using threadpool_create_ok [OF sample_env_ok(2) _ _ sample_env_ok(1,3), where mn = 1 and mx = 3 and qmx = 4
      and ts = "replicate 3 5" and q = "replicate 4 \<lparr>tfunction = 9, targ = 9\<rparr>" and t = 0]
  by (auto simp: sample_env_def numeral_2_eq_2)

text \<open>A block \<open>malloc\<close> has just returned: no field of it is set.\<close>

definition raw_block :: "threadpool_t \<Rightarrow> bool" where
  "raw_block p \<longleftrightarrow> threads p = Wild \<and> task_queue p = Wild \<and> lock p = M_raw \<and> thread_counter p = M_raw
     \<and> queue_not_full p = C_raw \<and> queue_not_empty p = C_raw"

lemma create_null: "new_pool e = None \<Longrightarrow> threadpool_create e t mn mx qmx = Inr None"
  by (simp add: threadpool_create_def threadpool_free_def Let_def)

text \<open>C25. The error paths of \<open>threadpool_create\<close>: where the struct itself cannot be allocated the call
  returns the null pointer, but any later failure (an array, a mutex or a condition variable) runs
  \<open>threadpool_free\<close> on fields \<open>malloc\<close> left indeterminate, which is undefined behaviour instead of
  the null pointer the code means to return.\<close>

theorem create_error_paths:
  assumes "new_pool e = Some raw" "raw_block raw"
    and "new_threads e mx = None \<or> new_queue e qmx = None \<or> (\<exists>i<4. init_ret e i \<noteq> 0)"
  shows "\<exists>f. threadpool_create e t mn mx qmx = Inl f"
proof (cases "new_threads e mx")
  case None
  with assms(1,2) show ?thesis
    by (auto simp: threadpool_create_def threadpool_free_def free_queue_def raw_block_def Let_def)
next
  case (Some ts)
  show ?thesis
  proof (cases "new_queue e qmx")
    case None
    with assms(1,2) Some show ?thesis
      by (auto simp: threadpool_create_def threadpool_free_def free_queue_def free_threads_def free_locks_def raw_block_def Let_def)
  next
    case (Some q)
    with \<open>new_threads e mx = Some ts\<close> assms(3) obtain i where i: "i < 4" "init_ret e i \<noteq> 0" by auto
    then have "i = 0 \<or> i = 1 \<or> i = 2 \<or> i = 3" by linarith
    with i(2) have "init_ret e 0 \<noteq> 0 \<or> init_ret e 1 \<noteq> 0 \<or> init_ret e 2 \<noteq> 0 \<or> init_ret e 3 \<noteq> 0"
      by auto
    with assms(1,2) Some \<open>new_threads e mx = Some ts\<close> show ?thesis
      by (auto simp: threadpool_create_def init_locks_def threadpool_free_def free_queue_def free_threads_def free_locks_def
          raw_block_def Let_def)
  qed
qed

theorem create_error_paths_witness:
  "\<exists>f. threadpool_create (sample_env\<lparr>init_ret := (\<lambda>i. if i = 2 then 12 else 0)\<rparr>) 0 1 3 4 = Inl f"
  by (rule create_error_paths [of _ sample_raw])
     (auto simp: sample_env_def raw_block_def sample_raw_def intro: exI [of _ 2])

text \<open>\<open>threadpool_create\<close> does not check that the minimum is at most the maximum: with min > max it
  writes the thread ids past the end of the thread array.\<close>

theorem create_min_above_max:
  assumes "new_pool e = Some raw" "new_threads e mx = Some ts" "new_queue e qmx = Some q"
    and "malloc_ok e" "\<forall>i<4. init_ret e i = 0" "mx < mn"
  shows "threadpool_create e t mn mx qmx = Inl Out_of_bounds"
proof -
  from assms(2,4) have "int (length ts) = mx" by (auto simp: malloc_ok_def)
  then have "start_workers (new_tid e) 0 (nat mn) (Arr (replicate (length ts) 0)) = Inl Out_of_bounds"
    using assms(6) by (intro start_workers_overrun) auto
  moreover have "init_ret e 0 = 0" "init_ret e 1 = 0" "init_ret e 2 = 0" "init_ret e 3 = 0"
    using assms(5) by auto
  ultimately show ?thesis using assms(1-3)
    by (auto simp: threadpool_create_def Let_def init_locks_def)
qed

theorem create_min_above_max_witness: "threadpool_create sample_env 0 3 2 4 = Inl Out_of_bounds"
  by (rule create_min_above_max [OF sample_env_ok(2) _ _ sample_env_ok(1,3)])
     (auto simp: sample_env_def)

text \<open>\<open>main\<close>'s 40 adds on the pool it creates never wait and never fault, even if no worker takes a
  task in between, and leave the 40 tasks queued in the order of the loop.\<close>

theorem main_never_waits:
  assumes "new_pool e = Some raw" "new_threads e 100 = Some ts" "new_queue e 100 = Some q"
    and "malloc_ok e" "\<forall>i<4. init_ret e i = 0"
  shows "\<exists>p. main_adds e t process = Some (Inr p) \<and> pool_tasks p = main_tasks process"
proof -
  obtain p where p: "threadpool_create e t 10 100 100 = Inr (Some p)" "fresh_pool p" "queue_max_size p = 100"
    using create_ok [OF assms(1-5), of 10 t] by auto
  then have w: "ring_ok p" "\<not> shutdown p" "pool_tasks p = []" by (auto simp: fresh_pool_def)
  have "length (pool_tasks p) + length (main_tasks process) \<le> nat (queue_max_size p)"
    by (simp add: w(3) p(3) main_tasks_def)
  with w p(1) show ?thesis
    using pool_queue.puts_law [OF w(1), of "main_tasks process"] add_all_puts [OF w(1,2)]
    by (auto simp: main_adds_def)
qed

theorem main_never_waits_witness:
  "\<exists>p. main_adds sample_env 0 77 = Some (Inr p) \<and> pool_tasks p = main_tasks 77"
  using main_never_waits [OF sample_env_ok(2) _ _ sample_env_ok(1,3), where t = 0 and process = 77]
  by (simp add: sample_env_def)

text \<open>Growing a well-formed pool always ends without a fault. It creates exactly as many threads as
  the smallest of three numbers allows: 10, the distance from the live count to the maximum, and the
  number of slots that are zero or whose thread is reported dead. The live count grows by that many,
  so it never passes the maximum, and nothing but the thread array and the live count changes.\<close>

theorem adjust_grow_spec:
  assumes "thr_ok p"
  shows "\<exists>n p'. adjust_grow kill0 tid0 p = Inr (n, p') \<and> thr_ok p'
    \<and> n = min 10 (min (max_thr_num p - live_thr_num p) (usable_slots kill0 p 0))
    \<and> live_thr_num p' = live_thr_num p + n
    \<and> p'\<lparr>threads := threads p, live_thr_num := live_thr_num p\<rparr> = p"
  using adjust_grow_ok [OF assms, of kill0 tid0] by blast

theorem adjust_grow_spec_witness:
  "\<exists>p'. adjust_grow (\<lambda>t. 0) 8 sample_pool = Inr (1, p') \<and> live_thr_num p' = 2"
proof -
  have "usable_slots (\<lambda>t. 0) sample_pool 0 = 1"
    by (simp add: usable_slots_def usable_slot_def is_thread_alive_def ESRCH_def sample_pool_def)
  with adjust_grow_spec [OF sample_pool_ok(2), of "\<lambda>t. 0" 8] show ?thesis
    by (auto simp: sample_pool_ok)
qed

text \<open>Trimming: a worker that returns from its wait consumes one of the wished exits if there is one,
  and ends exactly when there is one and more threads live than the minimum; so the live count never
  falls below the minimum, and the queue is not touched.\<close>

theorem worker_woken_spec:
  assumes "thr_ok p" "worker_woken p = (ends, p')"
  shows "thr_ok p' \<and> (ends \<longleftrightarrow> 0 < wait_exit_thr_num p \<and> min_thr_num p < live_thr_num p)
    \<and> live_thr_num p' = live_thr_num p - (if ends then 1 else 0)
    \<and> wait_exit_thr_num p' = max 0 (wait_exit_thr_num p - 1)
    \<and> pool_tasks p' = pool_tasks p \<and> (ring_ok p' \<longleftrightarrow> ring_ok p)"
  using assms
  by (auto simp: worker_woken_def Let_def thr_ok_def pool_tasks_def ring_ok_def
      split: if_splits arr.splits)

theorem worker_woken_spec_witness:
  "worker_woken (sample_pool\<lparr>wait_exit_thr_num := 3\<rparr>) = (False, sample_pool\<lparr>wait_exit_thr_num := 2\<rparr>)
     \<and> wait_exit_thr_num (sample_pool\<lparr>wait_exit_thr_num := 2\<rparr>) = max 0 (3 - 1)"
proof -
  have t: "thr_ok (sample_pool\<lparr>wait_exit_thr_num := 3\<rparr>)" using sample_pool_ok(2) by (simp add: thr_ok_def DEFAULT_THREAD_VARY_def split: arr.splits)
  have w: "worker_woken (sample_pool\<lparr>wait_exit_thr_num := 3\<rparr>) = (False, sample_pool\<lparr>wait_exit_thr_num := 2\<rparr>)"
    by (simp add: worker_woken_def Let_def sample_pool_def sample_raw_def)
  from worker_woken_spec [OF t w] w show ?thesis by simp
qed

end
