(* ===== verification/Pool_System.thy ===== *)
theory Pool_System
  imports Thread_Pool
begin

text \<open>
  The threads of socket/thread_Pool/main.cpp running together: workers (\<open>threadpool_thread\<close>), the
  manager (\<open>adjust_thread\<close>), clients in \<open>threadpool_add\<close>, and one client that may call
  \<open>threadpool_destory\<close>. A thread is a program counter; the pool is shared. A step is one thread moving
  from one synchronisation point to the next. What a thread does under \<open>lock\<close> is one step between
  two tests of \<open>shutdown\<close>, the only field of the pool that is written without the lock; each of the
  two sections under \<open>thread_counter\<close> is a single update, hence one step, so that mutex is never
  seen held.
\<close>

section \<open>States\<close>

text \<open>
  Thread 0 is the thread of \<open>main\<close>; the list of program counters is indexed by thread id. A program
  counter carries the locals that outlive the step: the task of an add or of a worker, the manager's
  copies of the counters, a loop index.
\<close>

datatype pc =
    Idle                             \<comment> \<open>a client between calls\<close>
  | A_lock threadpool_task_t         \<comment> \<open>add: about to lock\<close>
  | A_test threadpool_task_t         \<comment> \<open>add: lock held, about to test the loop guard\<close>
  | A_wait threadpool_task_t         \<comment> \<open>add: in \<open>pthread_cond_wait(queue_not_full)\<close>\<close>
  | A_wake threadpool_task_t         \<comment> \<open>add: woken, about to get the lock back\<close>
  | A_shut threadpool_task_t         \<comment> \<open>add: guard failed, about to test \<open>shutdown\<close>\<close>
  | A_put threadpool_task_t          \<comment> \<open>add: about to store, signal and unlock\<close>
  | W_lock                           \<comment> \<open>worker: about to lock\<close>
  | W_test                           \<comment> \<open>worker: lock held, about to test the loop guard\<close>
  | W_park                           \<comment> \<open>worker: guard held, about to wait\<close>
  | W_wait                           \<comment> \<open>worker: in \<open>pthread_cond_wait(queue_not_empty)\<close>\<close>
  | W_wake                           \<comment> \<open>worker: woken, about to get the lock back\<close>
  | W_woken                          \<comment> \<open>worker: back from the wait, lock held\<close>
  | W_shut                           \<comment> \<open>worker: guard failed, about to test \<open>shutdown\<close>\<close>
  | W_take                           \<comment> \<open>worker: about to take a task, broadcast and unlock\<close>
  | W_count threadpool_task_t        \<comment> \<open>worker: about to count itself busy\<close>
  | W_run threadpool_task_t          \<comment> \<open>worker: running the task\<close>
  | W_uncount                        \<comment> \<open>worker: about to count itself idle\<close>
  | W_bye                            \<comment> \<open>worker: saw \<open>shutdown\<close>, unlocked, about to detach and exit\<close>
  | W_gone                           \<comment> \<open>worker: detached and ended\<close>
  | W_left                           \<comment> \<open>worker: ended by trimming\<close>
  | M_loop                           \<comment> \<open>manager: about to test \<open>shutdown\<close>\<close>
  | M_snap                           \<comment> \<open>manager: about to read the queue size and live count\<close>
  | M_busy int int                   \<comment> \<open>manager: about to read the busy count\<close>
  | M_decide int int int             \<comment> \<open>manager: about to test whether to grow\<close>
  | M_grow int int int               \<comment> \<open>manager: about to lock and create threads\<close>
  | M_shrink int int int             \<comment> \<open>manager: about to test whether to trim\<close>
  | M_set                            \<comment> \<open>manager: about to set the number of wished exits\<close>
  | M_signal nat                     \<comment> \<open>manager: that many signals to send\<close>
  | M_gone                           \<comment> \<open>manager: ended\<close>
  | D_set                            \<comment> \<open>destroy: about to set \<open>shutdown\<close>\<close>
  | D_join_manager                   \<comment> \<open>destroy: joining the manager\<close>
  | D_wake int                       \<comment> \<open>destroy: loop of broadcasts, with its index\<close>
  | D_join int                       \<comment> \<open>destroy: loop of joins, with its index\<close>
  | D_free                           \<comment> \<open>destroy: in \<open>threadpool_free\<close>, about to delete the queue\<close>
  | D_free_threads                   \<comment> \<open>destroy: about to delete the thread array\<close>
  | D_free_locks                     \<comment> \<open>destroy: about to lock, destroy the mutexes and delete the pool\<close>

text \<open>
  \<open>the_pool\<close> is the struct until \<open>threadpool_free\<close> starts to take it apart; while that goes on, without the lock,
  the struct is \<open>dying\<close>, and once it is deleted both are \<open>None\<close>. The three lists are ghost state: the tasks
  added, taken and finished so far, in that order.
\<close>

record psys =
  the_pool :: "threadpool_t option"
  pcs :: "pc list"
  added :: "threadpool_task_t list"
  taken :: "threadpool_task_t list"
  finished :: "threadpool_task_t list"
  dying :: "threadpool_t option"

text \<open>
  A label names the thread that moves and what the environment chooses for it: the waiter a signal
  wakes, the ended threads \<open>pthread_kill\<close> still reports as existing, the task a client adds, that it
  destroys the pool, or that a wait returns without a signal, as POSIX allows.
\<close>

datatype label =
    Step nat "nat option" "nat list"
  | Start_add nat threadpool_task_t
  | Start_destroy nat
  | Spurious nat

section \<open>Building blocks\<close>

definition goto :: "nat \<Rightarrow> pc \<Rightarrow> psys \<Rightarrow> psys" where
  "goto t c s = s\<lparr>pcs := (pcs s)[t := c]\<rparr>"

definition set_pool :: "threadpool_t \<Rightarrow> psys \<Rightarrow> psys" where
  "set_pool p s = s\<lparr>the_pool := Some p\<rparr>"

declare goto_def [state_simps] set_pool_def [state_simps]

text \<open>Getting the lock: the step is not enabled while another thread holds it.\<close>

definition acquire :: "nat \<Rightarrow> pc \<Rightarrow> threadpool_t \<Rightarrow> psys \<Rightarrow> psys outcome option" where
  "acquire t c p s =
     (case mutex_lock t (lock p) of
        Inl Would_block \<Rightarrow> None
      | Inl f \<Rightarrow> Some (Inl f)
      | Inr l \<Rightarrow> Some (Inr (goto t c (set_pool (p\<lparr>lock := l\<rparr>) s))))"

definition release :: "nat \<Rightarrow> threadpool_t \<Rightarrow> threadpool_t outcome" where
  "release t p = obind (mutex_unlock t (lock p)) (\<lambda>l. Inr (p\<lparr>lock := l\<rparr>))"

text \<open>
  A signal on \<open>queue_not_empty\<close> wakes one waiting worker, chosen by the environment, and none only if
  none waits; a broadcast wakes all.
\<close>

definition wake_worker :: "nat option \<Rightarrow> pc list \<Rightarrow> pc list option" where
  "wake_worker w cs =
     (case w of
        None \<Rightarrow> if W_wait \<in> set cs then None else Some cs
      | Some t \<Rightarrow> if t < length cs \<and> cs ! t = W_wait then Some (cs[t := W_wake]) else None)"

definition wake_workers :: "pc list \<Rightarrow> pc list" where
  "wake_workers = map (\<lambda>c. if c = W_wait then W_wake else c)"

definition wake_adders :: "pc list \<Rightarrow> pc list" where
  "wake_adders = map (\<lambda>c. case c of A_wait k \<Rightarrow> A_wake k | _ \<Rightarrow> c)"

text \<open>Ended threads; the answer of \<open>pthread_kill(t, 0)\<close> for thread \<open>t\<close>.\<close>

definition ended :: "pc \<Rightarrow> bool" where
  "ended c \<longleftrightarrow> c = W_gone \<or> c = W_left \<or> c = M_gone"

definition kill0 :: "pc list \<Rightarrow> nat list \<Rightarrow> nat \<Rightarrow> int" where
  "kill0 cs zombies t =
     (if t < length cs \<and> (\<not> ended (cs ! t) \<or> t \<in> set zombies) then 0 else ESRCH)"

section \<open>A client in threadpool_add\<close>

fun add_step :: "nat \<Rightarrow> nat option \<Rightarrow> pc \<Rightarrow> threadpool_t \<Rightarrow> psys \<Rightarrow> psys outcome option" where
  "add_step t w (A_lock k) p s = acquire t (A_test k) p s"
| "add_step t w (A_test k) p s =
     (if add_guard p
      then Some (obind (release t p) (\<lambda>p. Inr (goto t (A_wait k) (set_pool p s))))
      else Some (Inr (goto t (A_shut k) s)))"
| "add_step t w (A_wake k) p s = acquire t (A_test k) p s"
| "add_step t w (A_shut k) p s =
     (if shutdown p
      then Some (obind (release t p) (\<lambda>p.
             Inr (goto t Idle (set_pool p (s\<lparr>pcs := wake_workers (pcs s)\<rparr>)))))
      else Some (Inr (goto t (A_put k) s)))"
| "add_step t w (A_put k) p s =
     (case wake_worker w (pcs s) of
        None \<Rightarrow> None
      | Some cs \<Rightarrow> Some (obind (add_put p k) (\<lambda>p. obind (release t p) (\<lambda>p.
             Inr (goto t Idle (set_pool p (s\<lparr>pcs := cs, added := added s @ [k]\<rparr>)))))))"
| "add_step t w c p s = None"

section \<open>A worker\<close>

fun worker_step :: "nat \<Rightarrow> pc \<Rightarrow> threadpool_t \<Rightarrow> psys \<Rightarrow> psys outcome option" where
  "worker_step t W_lock p s = acquire t W_test p s"
| "worker_step t W_test p s = Some (Inr (goto t (if worker_guard p then W_park else W_shut) s))"
| "worker_step t W_park p s =
     Some (obind (release t p) (\<lambda>p. Inr (goto t W_wait (set_pool p s))))"
| "worker_step t W_wake p s = acquire t W_woken p s"
| "worker_step t W_woken p s =
     (case worker_woken p of
        (True, p) \<Rightarrow> Some (obind (release t p) (\<lambda>p. Inr (goto t W_left (set_pool p s))))
      | (False, p) \<Rightarrow> Some (Inr (goto t W_test (set_pool p s))))"
| "worker_step t W_shut p s =
     (if shutdown p
      then Some (obind (release t p) (\<lambda>p. Inr (goto t W_bye (set_pool p s))))
      else Some (Inr (goto t W_take s)))"
| "worker_step t W_take p s =
     Some (obind (worker_take p) (\<lambda>(k, p). obind (release t p) (\<lambda>p.
       Inr (goto t (W_count k)
              (set_pool p (s\<lparr>pcs := wake_adders (pcs s), taken := taken s @ [k]\<rparr>))))))"
| "worker_step t (W_count k) p s =
     Some (Inr (goto t (W_run k) (set_pool (p\<lparr>busy_thr_num := busy_thr_num p + 1\<rparr>) s)))"
| "worker_step t W_uncount p s =
     Some (Inr (goto t W_lock (set_pool (p\<lparr>busy_thr_num := busy_thr_num p - 1\<rparr>) s)))"
| "worker_step t c p s = None"

section \<open>The manager\<close>

text \<open>A section that takes and releases the lock in one step.\<close>

definition critical :: "nat \<Rightarrow> threadpool_t \<Rightarrow> psys outcome \<Rightarrow> psys outcome option" where
  "critical t p r =
     (case mutex_lock t (lock p) of
        Inl Would_block \<Rightarrow> None
      | Inl f \<Rightarrow> Some (Inl f)
      | Inr l \<Rightarrow> Some r)"

fun manager_step ::
    "nat \<Rightarrow> nat option \<Rightarrow> nat list \<Rightarrow> pc \<Rightarrow> threadpool_t \<Rightarrow> psys \<Rightarrow> psys outcome option" where
  "manager_step t w z M_loop p s = Some (Inr (goto t (if shutdown p then M_gone else M_snap) s))"
| "manager_step t w z M_snap p s =
     critical t p (Inr (goto t (M_busy (queue_size p) (live_thr_num p)) s))"
| "manager_step t w z (M_busy q l) p s = Some (Inr (goto t (M_decide q l (busy_thr_num p)) s))"
| "manager_step t w z (M_decide q l b) p s =
     Some (Inr (goto t (if should_grow q l p then M_grow q l b else M_shrink q l b) s))"
| "manager_step t w z (M_grow q l b) p s =
     critical t p (obind (adjust_grow (kill0 (pcs s) z) (length (pcs s)) p) (\<lambda>(n, p).
       Inr (goto t (M_shrink q l b)
              (set_pool p (s\<lparr>pcs := pcs s @ replicate (nat n) W_lock\<rparr>)))))"
| "manager_step t w z (M_shrink q l b) p s =
     Some (Inr (goto t (if should_shrink b l p then M_set else M_loop) s))"
| "manager_step t w z M_set p s =
     critical t p (Inr (goto t (M_signal (nat DEFAULT_THREAD_VARY)) (set_pool (adjust_shrink p) s)))"
| "manager_step t w z (M_signal 0) p s = Some (Inr (goto t M_loop s))"
| "manager_step t w z (M_signal (Suc n)) p s =
     (case wake_worker w (pcs s) of
        None \<Rightarrow> None
      | Some cs \<Rightarrow> Some (Inr (goto t (M_signal n) (s\<lparr>pcs := cs\<rparr>))))"
| "manager_step t w z c p s = None"

section \<open>threadpool_destory\<close>

text \<open>
  Joining waits until the thread has ended. A worker that ends by \<open>shutdown\<close> detaches itself first;
  joining it then returns at once with an error, which the code does not look at. \<open>threadpool_free\<close>
  deletes the two arrays and sets their pointers to null before it takes the lock: two steps between which, and
  after which, any other thread may run; the third waits for the lock and ends with the struct deleted.
\<close>

fun destroy_step :: "nat \<Rightarrow> pc \<Rightarrow> threadpool_t \<Rightarrow> psys \<Rightarrow> psys outcome option" where
  "destroy_step t D_set p s = Some (Inr (goto t D_join_manager (set_pool (p\<lparr>shutdown := True\<rparr>) s)))"
| "destroy_step t D_join_manager p s =
     (if adjust_tid p < length (pcs s) \<and> ended (pcs s ! adjust_tid p)
      then Some (Inr (goto t (D_wake 0) s)) else None)"
| "destroy_step t (D_wake i) p s =
     (if i < live_thr_num p
      then Some (Inr (goto t (D_wake (i + 1)) (s\<lparr>pcs := wake_workers (pcs s)\<rparr>)))
      else Some (Inr (goto t (D_join 0) s)))"
| "destroy_step t (D_join i) p s =
     (if i < live_thr_num p
      then (case arr_read (threads p) i of
              Inl f \<Rightarrow> Some (Inl f)
            | Inr u \<Rightarrow>
                if u = 0 \<or> length (pcs s) \<le> u then Some (Inl Bad_join)
                else if ended (pcs s ! u) then Some (Inr (goto t (D_join (i + 1)) s))
                else None)
      else Some (Inr (goto t D_free s)))"
| "destroy_step t D_free p s =
     Some (obind (free_queue p) (\<lambda>p. Inr (goto t D_free_threads (s\<lparr>the_pool := None, dying := Some p\<rparr>))))"
| "destroy_step t D_free_threads p s =
     (case threads p of
        Null \<Rightarrow> Some (Inr (goto t Idle (s\<lparr>the_pool := None, dying := None\<rparr>)))
      | Wild \<Rightarrow> Some (Inl Wild_pointer)
      | Arr _ \<Rightarrow> Some (Inr (goto t D_free_locks (s\<lparr>the_pool := None, dying := Some (p\<lparr>threads := Null\<rparr>)\<rparr>))))"
| "destroy_step t D_free_locks p s =
     (case free_locks t p of
        Inl Would_block \<Rightarrow> None
      | Inl f \<Rightarrow> Some (Inl f)
      | Inr p \<Rightarrow> Some (Inr (goto t Idle (s\<lparr>the_pool := None, dying := None\<rparr>))))"
| "destroy_step t c p s = None"

section \<open>The system\<close>

text \<open>
  A thread that runs its task, says goodbye, waits or has ended does not touch the pool; every other
  one does, on the struct as it is: as \<open>threadpool_free\<close> has left it so far while it is dying, and a deleted one
  after a destroy.
\<close>

fun quiet :: "pc \<Rightarrow> bool" where
  "quiet Idle = True" | "quiet (A_wait k) = True" | "quiet W_wait = True" | "quiet (W_run k) = True"
| "quiet W_bye = True" | "quiet W_gone = True" | "quiet W_left = True" | "quiet M_gone = True"
| "quiet c = False"

fun quiet_step :: "nat \<Rightarrow> pc \<Rightarrow> psys \<Rightarrow> psys outcome option" where
  "quiet_step t (W_run k) s = Some (Inr (goto t W_uncount (s\<lparr>finished := finished s @ [k]\<rparr>)))"
| "quiet_step t W_bye s = Some (Inr (goto t W_gone s))"
| "quiet_step t c s = None"

fun is_add :: "pc \<Rightarrow> bool" where
  "is_add (A_lock k) = True" | "is_add (A_test k) = True" | "is_add (A_wake k) = True"
| "is_add (A_shut k) = True" | "is_add (A_put k) = True" | "is_add c = False"

fun is_manager :: "pc \<Rightarrow> bool" where
  "is_manager M_loop = True" | "is_manager M_snap = True" | "is_manager (M_busy q l) = True"
| "is_manager (M_decide q l b) = True" | "is_manager (M_grow q l b) = True"
| "is_manager (M_shrink q l b) = True" | "is_manager M_set = True" | "is_manager (M_signal n) = True"
| "is_manager c = False"

fun is_destroy :: "pc \<Rightarrow> bool" where
  "is_destroy D_set = True" | "is_destroy D_join_manager = True" | "is_destroy (D_wake i) = True"
| "is_destroy (D_join i) = True" | "is_destroy D_free = True" | "is_destroy D_free_threads = True"
| "is_destroy D_free_locks = True" | "is_destroy c = False"

definition pool_thread ::
    "nat \<Rightarrow> nat option \<Rightarrow> nat list \<Rightarrow> pc \<Rightarrow> threadpool_t \<Rightarrow> psys \<Rightarrow> psys outcome option" where
  "pool_thread t w z c p s =
     (if is_add c then add_step t w c p s
      else if is_manager c then manager_step t w z c p s
      else if is_destroy c then destroy_step t c p s
      else worker_step t c p s)"

definition still_dying :: "psys \<Rightarrow> psys" where
  "still_dying s = (if the_pool s = None then s else s\<lparr>the_pool := None, dying := the_pool s\<rparr>)"

definition on_pool :: "(threadpool_t \<Rightarrow> psys \<Rightarrow> psys outcome option) \<Rightarrow> psys \<Rightarrow> psys outcome option" where
  "on_pool f s =
     (case the_pool s of
        Some p \<Rightarrow> f p s
      | None \<Rightarrow>
         (case dying s of
            None \<Rightarrow> Some (Inl Use_after_free)
          | Some p \<Rightarrow> map_option (\<lambda>r. obind r (\<lambda>u. Inr (still_dying u))) (f p (set_pool p s))))"

definition thread_step ::
    "nat \<Rightarrow> nat option \<Rightarrow> nat list \<Rightarrow> pc \<Rightarrow> psys \<Rightarrow> psys outcome option" where
  "thread_step t w z c s =
     (if quiet c then quiet_step t c s else on_pool (pool_thread t w z c) s)"

fun pool_step :: "label \<Rightarrow> psys \<Rightarrow> psys outcome option" where
  "pool_step (Step t w z) s = (if t < length (pcs s) then thread_step t w z (pcs s ! t) s else None)"
| "pool_step (Start_add t k) s =
     (if t < length (pcs s) \<and> pcs s ! t = Idle then Some (Inr (goto t (A_lock k) s)) else None)"
| "pool_step (Start_destroy t) s =
     (if t < length (pcs s) \<and> pcs s ! t = Idle then Some (Inr (goto t D_set s)) else None)"
| "pool_step (Spurious t) s =
     (if t < length (pcs s)
      then (case pcs s ! t of
              W_wait \<Rightarrow> Some (Inr (goto t W_wake s))
            | A_wait k \<Rightarrow> Some (Inr (goto t (A_wake k) s))
            | _ \<Rightarrow> None)
      else None)"

text \<open>
  The start: a pool that \<open>threadpool_create\<close> has returned, with the thread of \<open>main\<close>, the workers and
  the manager it started (their ids are 1, 2, ...), and any number of further clients.
\<close>

definition start_state :: "threadpool_t \<Rightarrow> nat \<Rightarrow> psys" where
  "start_state p n =
     \<lparr>the_pool = Some p,
      pcs = Idle # replicate (nat (min_thr_num p)) W_lock @ M_loop # replicate n Idle,
      added = [], taken = [], finished = [], dying = None\<rparr>"

definition init_sys :: "psys \<Rightarrow> bool" where
  "init_sys s \<longleftrightarrow> (\<exists>e mn mx qmx p n. malloc_ok e \<and> new_tid e = Suc \<and> 0 \<le> mn \<and> mn \<le> mx \<and> 0 < qmx
     \<and> threadpool_create e 0 mn mx qmx = Inr (Some p) \<and> s = start_state p n)"

abbreviation pool_reach :: "psys \<Rightarrow> bool" where
  "pool_reach \<equiv> reach init_sys (fires pool_step)"

end
