(* ===== verification/Pool_Proofs.thy ===== *)
theory Pool_Proofs
  imports Pool_System
begin

text \<open>
  The invariant of the running thread pool: the ring buffer and the counters are well-formed, the
  lock is held by exactly the thread whose program counter says so, the tasks added are the tasks
  taken followed by those queued, every taken task is finished or with exactly one worker, and the
  two counters count what their names say. It holds at the start and every step of every thread
  keeps it; the properties of the pool follow.
\<close>

section \<open>What a program counter says\<close>

fun holds :: "pc \<Rightarrow> bool" where
  "holds (A_test k) = True" | "holds (A_shut k) = True" | "holds (A_put k) = True"
| "holds W_test = True" | "holds W_park = True" | "holds W_woken = True"
| "holds W_shut = True" | "holds W_take = True" | "holds c = False"

fun busy :: "pc \<Rightarrow> bool" where
  "busy (W_run k) = True" | "busy W_uncount = True" | "busy c = False"

text \<open>The threads \<open>live_thr_num\<close> counts: a worker that ends by \<open>shutdown\<close> stays counted.\<close>

fun counted :: "pc \<Rightarrow> bool" where
  "counted W_lock = True" | "counted W_test = True" | "counted W_park = True"
| "counted W_wait = True" | "counted W_wake = True" | "counted W_woken = True"
| "counted W_shut = True" | "counted W_take = True" | "counted (W_count k) = True"
| "counted (W_run k) = True" | "counted W_uncount = True" | "counted W_bye = True"
| "counted W_gone = True" | "counted c = False"

fun in_flight :: "pc \<Rightarrow> threadpool_task_t multiset" where
  "in_flight (W_count k) = {#k#}" | "in_flight (W_run k) = {#k#}" | "in_flight c = {#}"

text \<open>What a thread has learnt from the tests it has made while holding the lock.\<close>

fun knows :: "threadpool_t \<Rightarrow> pc \<Rightarrow> bool" where
  "knows p (A_shut k) = (queue_size p \<noteq> queue_max_size p \<or> shutdown p)"
| "knows p (A_put k) = (queue_size p \<noteq> queue_max_size p)"
| "knows p W_shut = (queue_size p \<noteq> 0 \<or> shutdown p)"
| "knows p W_take = (queue_size p \<noteq> 0)"
| "knows p c = True"

text \<open>Waking a waiting thread changes none of this.\<close>

fun erase :: "pc \<Rightarrow> pc" where
  "erase W_wake = W_wait" | "erase (A_wake k) = A_wait k" | "erase c = c"

lemma erase_simps [simp]:
  "holds (erase c) = holds c" "busy (erase c) = busy c" "counted (erase c) = counted c"
  "in_flight (erase c) = in_flight c" "knows p (erase c) = knows p c"
  by (cases c; simp)+

lemma erase_same:
  "map erase cs' = map erase cs \<Longrightarrow> length cs' = length cs \<and> (\<forall>t<length cs. erase (cs' ! t) = erase (cs ! t))"
  by (metis length_map nth_map)

section \<open>Counting program counters\<close>

lemma cnt_erase: "(\<And>c. P (erase c) = P c) \<Longrightarrow> cnt P (map erase cs) = cnt P cs"
  by (induction cs) auto

abbreviation flights :: "pc list \<Rightarrow> threadpool_task_t multiset" where
  "flights \<equiv> gather in_flight"

lemma flights_erase: "flights (map erase cs) = flights cs"
  by (induction cs) auto

section \<open>The invariant\<close>

definition lock_inv :: "threadpool_t \<Rightarrow> pc list \<Rightarrow> bool" where
  "lock_inv p cs \<longleftrightarrow> (lock p = M_free \<or> (\<exists>t<length cs. lock p = M_held t))
     \<and> (\<forall>t<length cs. holds (cs ! t) \<longleftrightarrow> lock p = M_held t)"

definition core_inv ::
    "threadpool_t \<Rightarrow> pc list \<Rightarrow> threadpool_task_t list \<Rightarrow> threadpool_task_t list \<Rightarrow> bool" where
  "core_inv p cs as ts \<longleftrightarrow> ring_ok p \<and> thr_ok p \<and> lock_inv p cs \<and> as = ts @ pool_tasks p
     \<and> busy_thr_num p = cnt busy cs \<and> live_thr_num p = cnt counted cs
     \<and> (\<forall>t<length cs. knows p (cs ! t))"

definition sys_inv :: "psys \<Rightarrow> bool" where
  "sys_inv s \<longleftrightarrow> mset (taken s) = mset (finished s) + flights (pcs s)
     \<and> (\<forall>p. the_pool s = Some p \<longrightarrow> core_inv p (pcs s) (added s) (taken s))"

lemma core_inv_erase:
  assumes "core_inv p cs as ts" "map erase cs' = map erase cs"
  shows "core_inv p cs' as ts"
proof -
  note e = erase_same [OF assms(2)]
  have "holds (cs' ! t) = holds (cs ! t) \<and> knows p (cs' ! t) = knows p (cs ! t)" if "t < length cs" for t
    using e that erase_simps(1,5) by metis
  moreover have "cnt busy cs' = cnt busy cs" "cnt counted cs' = cnt counted cs"
    using cnt_erase [of busy] cnt_erase [of counted] assms(2) by (metis erase_simps(2,3))+
  ultimately show ?thesis using assms(1) e by (simp add: core_inv_def lock_inv_def)
qed

text \<open>
  One thread moves to \<open>c\<close> and the pool to \<open>p'\<close>: it keeps the lock or stays without it, leaving the
  queue alone; or it gets the lock; or it gives it back, having changed what it likes.
\<close>

lemma core_step:
  assumes inv: "core_inv p cs as ts" and t: "t < length cs"
    and ok: "ring_ok p'" "thr_ok p'" "as' = ts' @ pool_tasks p'" "knows p' c"
    and busy: "busy_thr_num p' = busy_thr_num p + of_bool (busy c) - of_bool (busy (cs ! t))"
    and live: "live_thr_num p' = live_thr_num p + of_bool (counted c) - of_bool (counted (cs ! t))"
    and lck: "lock p' = lock p \<and> (holds c \<longleftrightarrow> holds (cs ! t)) \<and> queue_size p' = queue_size p
        \<and> queue_max_size p' = queue_max_size p \<and> (shutdown p \<longrightarrow> shutdown p')
      \<or> lock p = M_free \<and> lock p' = M_held t \<and> holds c
      \<or> lock p = M_held t \<and> lock p' = M_free \<and> \<not> holds c"
  shows "core_inv p' (cs[t := c]) as' ts'"
proof -
  have keep: "knows p' d" if "knows p d" "queue_size p' = queue_size p" "queue_max_size p' = queue_max_size p"
    "shutdown p \<longrightarrow> shutdown p'" for d
    using that by (cases d) auto
  have free: "knows p' d" if "\<not> holds d" for d using that by (cases d) auto
  have li: "lock_inv p cs" and kn: "\<And>u. u < length cs \<Longrightarrow> knows p (cs ! u)"
    using inv by (auto simp: core_inv_def)
  have "lock_inv p' (cs[t := c])" using li lck t by (auto simp: lock_inv_def nth_list_update)
  moreover have "knows p' (cs[t := c] ! u)" if "u < length cs" for u
  proof (cases "u = t \<or> \<not> holds (cs ! u)")
    case True
    then show ?thesis using ok(4) free that by (cases "u = t") auto
  next
    case False
    with li lck that show ?thesis using keep kn by (auto simp: lock_inv_def)
  qed
  ultimately show ?thesis
    using inv ok busy live t by (simp add: core_inv_def cnt_update)
qed

lemma core_append:
  assumes "core_inv p cs as ts" "thr_ok p'" "live_thr_num p' = live_thr_num p + int n"
    and "p'\<lparr>threads := x, live_thr_num := y\<rparr> = p\<lparr>threads := x, live_thr_num := y\<rparr>"
  shows "core_inv p' (cs @ replicate n W_lock) as ts"
proof -
  have eq: "task_queue p' = task_queue p" "queue_max_size p' = queue_max_size p" "queue_front p' = queue_front p"
    "queue_size p' = queue_size p" "queue_rear p' = queue_rear p" "lock p' = lock p" "shutdown p' = shutdown p"
    "busy_thr_num p' = busy_thr_num p"
    using arg_cong [OF assms(4), of task_queue] arg_cong [OF assms(4), of queue_max_size]
      arg_cong [OF assms(4), of queue_front] arg_cong [OF assms(4), of queue_size]
      arg_cong [OF assms(4), of queue_rear] arg_cong [OF assms(4), of lock]
      arg_cong [OF assms(4), of shutdown] arg_cong [OF assms(4), of busy_thr_num]
    by simp_all
  have "knows p' c = knows p c" for c by (cases c) (auto simp: eq)
  moreover have "ring_ok p' = ring_ok p" "pool_tasks p' = pool_tasks p"
    by (cases "task_queue p"; simp add: ring_ok_def pool_tasks_def eq)+
  ultimately show ?thesis using assms(1-3)
    by (auto simp: core_inv_def lock_inv_def nth_append eq)
qed

section \<open>Every step keeps the invariant\<close>

lemma flights_same:
  "t < length cs \<Longrightarrow> in_flight c = in_flight (cs ! t) \<Longrightarrow> flights (cs[t := c]) = flights cs"
  using gather_update [of t cs in_flight c] by simp

text \<open>The two parts of a well-formed pool look at different fields.\<close>

lemma thr_ok_frame [simp]:
  "thr_ok (p\<lparr>lock := l\<rparr>) = thr_ok p" "thr_ok (p\<lparr>busy_thr_num := i\<rparr>) = thr_ok p"
  "thr_ok (p\<lparr>shutdown := b\<rparr>) = thr_ok p" "thr_ok (p\<lparr>task_queue := q\<rparr>) = thr_ok p"
  "thr_ok (p\<lparr>queue_front := i\<rparr>) = thr_ok p" "thr_ok (p\<lparr>queue_rear := i\<rparr>) = thr_ok p"
  "thr_ok (p\<lparr>queue_size := i\<rparr>) = thr_ok p"
  by (cases "threads p"; simp add: thr_ok_def)+

lemma ring_frame [simp]:
  "ring_ok (p\<lparr>lock := l\<rparr>) = ring_ok p" "ring_ok (p\<lparr>busy_thr_num := i\<rparr>) = ring_ok p"
  "ring_ok (p\<lparr>shutdown := b\<rparr>) = ring_ok p" "ring_ok (p\<lparr>wait_exit_thr_num := i\<rparr>) = ring_ok p"
  "pool_tasks (p\<lparr>lock := l\<rparr>) = pool_tasks p" "pool_tasks (p\<lparr>busy_thr_num := i\<rparr>) = pool_tasks p"
  "pool_tasks (p\<lparr>shutdown := b\<rparr>) = pool_tasks p" "pool_tasks (p\<lparr>wait_exit_thr_num := i\<rparr>) = pool_tasks p"
  by (cases "task_queue p"; simp add: ring_ok_def pool_tasks_def)+

text \<open>A thread moves, the pool moves, and the lists of tasks may grow.\<close>

lemma sys_inv_move:
  assumes "sys_inv s" "the_pool s = Some p" "t < length (pcs s)"
    and "the_pool s' = Some p'" "pcs s' = cs[t := c]" "map erase cs = map erase (pcs s)" "cs ! t = pcs s ! t"
    and "core_inv p cs (added s) (taken s) \<Longrightarrow> core_inv p' (cs[t := c]) (added s') (taken s')"
    and "mset (taken s') + mset (finished s) + in_flight (pcs s ! t)
       = mset (taken s) + mset (finished s') + in_flight c"
  shows "sys_inv s'"
proof -
  have "core_inv p cs (added s) (taken s)"
    using core_inv_erase assms(1,2,6) by (auto simp: sys_inv_def)
  moreover have len: "length cs = length (pcs s)" using assms(6) map_eq_imp_length_eq by blast
  have "flights cs = flights (pcs s)" using flights_erase assms(6) by metis
  with gather_update [of t cs in_flight c] assms(3,7) len
  have "flights (cs[t := c]) + in_flight (pcs s ! t) = flights (pcs s) + in_flight c" by simp
  with assms(1,9) have "mset (taken s') + in_flight (pcs s ! t)
      = mset (finished s') + flights (cs[t := c]) + in_flight (pcs s ! t)"
    by (auto simp: sys_inv_def ac_simps)
  ultimately show ?thesis using assms(4,5,8) by (simp add: sys_inv_def)
qed

lemma releaseE: "release t p = Inr p' \<Longrightarrow> lock p = M_held t \<and> p' = p\<lparr>lock := M_free\<rparr>"
  by (cases "lock p") (auto simp: release_def split: if_splits)

lemma acquireE:
  "acquire t c p s = Some (Inr s') \<Longrightarrow>
     lock p = M_free \<and> s' = goto t c (set_pool (p\<lparr>lock := M_held t\<rparr>) s)"
  by (cases "lock p") (auto simp: acquire_def)

lemma add_put_fields:
  "add_put p k = Inr p' \<Longrightarrow> lock p' = lock p \<and> threads p' = threads p \<and> min_thr_num p' = min_thr_num p
     \<and> max_thr_num p' = max_thr_num p \<and> live_thr_num p' = live_thr_num p \<and> busy_thr_num p' = busy_thr_num p
     \<and> wait_exit_thr_num p' = wait_exit_thr_num p \<and> (thr_ok p' \<longleftrightarrow> thr_ok p)"
  by (auto simp: add_put_def Let_def)

lemma worker_take_fields:
  "worker_take p = Inr (k, p') \<Longrightarrow> lock p' = lock p \<and> threads p' = threads p \<and> min_thr_num p' = min_thr_num p
     \<and> max_thr_num p' = max_thr_num p \<and> live_thr_num p' = live_thr_num p \<and> busy_thr_num p' = busy_thr_num p
     \<and> wait_exit_thr_num p' = wait_exit_thr_num p \<and> (thr_ok p' \<longleftrightarrow> thr_ok p)"
  by (auto simp: worker_take_def)

lemma wake_worker_erase: "wake_worker w cs = Some cs' \<Longrightarrow> map erase cs' = map erase cs"
  by (rule nth_equalityI) (auto simp: wake_worker_def nth_list_update split: option.splits if_splits)

lemma wake_all_erase [simp]:
  "map erase (wake_workers cs) = map erase cs" "map erase (wake_adders cs) = map erase cs"
  by (auto simp: wake_workers_def wake_adders_def split: pc.splits)

lemma wake_all_nth [simp]:
  "t < length cs \<Longrightarrow> cs ! t \<noteq> W_wait \<Longrightarrow> wake_workers cs ! t = cs ! t"
  "t < length cs \<Longrightarrow> \<forall>k. cs ! t \<noteq> A_wait k \<Longrightarrow> wake_adders cs ! t = cs ! t"
  "length (wake_workers cs) = length cs" "length (wake_adders cs) = length cs"
  by (auto simp: wake_workers_def wake_adders_def split: pc.splits)

lemma wake_worker_nth:
  "wake_worker w cs = Some cs' \<Longrightarrow> t < length cs \<Longrightarrow> cs ! t \<noteq> W_wait \<Longrightarrow> cs' ! t = cs ! t"
  by (auto simp: wake_worker_def nth_list_update split: option.splits if_splits)

text \<open>An invariant in the way the steps need it: the facts about the thread that moves.\<close>

lemma core_facts:
  assumes "core_inv p cs as ts" "t < length cs"
  shows "ring_ok p" "thr_ok p" "as = ts @ pool_tasks p" "knows p (cs ! t)" "queue_size p \<le> queue_max_size p"
    "0 \<le> queue_size p" "holds (cs ! t) \<Longrightarrow> lock p = M_held t" "lock p = M_free \<Longrightarrow> \<not> holds (cs ! t)"
    "lock p = M_held u \<Longrightarrow> holds (cs ! t) \<longleftrightarrow> u = t"
  using assms by (auto simp: core_inv_def lock_inv_def elim: ring_okE)

lemma knows_simps [simp]: "\<not> holds c \<Longrightarrow> knows p c"
  by (cases c) auto

lemma worker_woken_spec':
  assumes "thr_ok p" "worker_woken p = (ends, p')"
  shows "thr_ok p' \<and> live_thr_num p' = live_thr_num p - (if ends then 1 else 0) \<and> lock p' = lock p
    \<and> busy_thr_num p' = busy_thr_num p \<and> queue_size p' = queue_size p \<and> queue_max_size p' = queue_max_size p
    \<and> shutdown p' = shutdown p \<and> pool_tasks p' = pool_tasks p \<and> (ring_ok p' \<longleftrightarrow> ring_ok p)"
  using assms
  by (auto simp: worker_woken_def Let_def thr_ok_def pool_tasks_def ring_ok_def split: if_splits arr.splits)

lemma sys_inv_erase:
  assumes "sys_inv s" "map erase cs = map erase (pcs s)"
  shows "sys_inv (s\<lparr>pcs := cs\<rparr>)"
proof -
  have "flights cs = flights (pcs s)" using flights_erase assms(2) by metis
  with assms show ?thesis by (auto simp: sys_inv_def dest: core_inv_erase)
qed

text \<open>The three shapes of a step: a move that leaves the pool alone, getting the lock, giving it back.\<close>

definition like :: "pc \<Rightarrow> pc \<Rightarrow> bool" where
  "like c d \<longleftrightarrow> busy c = busy d \<and> counted c = counted d \<and> in_flight c = in_flight d"

lemma stay_inv:
  assumes "sys_inv s" "t < length (pcs s)" "like c (pcs s ! t)" "holds c \<longleftrightarrow> holds (pcs s ! t)"
    and "\<And>p. the_pool s = Some p \<Longrightarrow> core_inv p (pcs s) (added s) (taken s) \<Longrightarrow> knows p c"
  shows "sys_inv (goto t c s)"
proof (cases "the_pool s")
  case None
  with assms(1-3) show ?thesis by (auto simp: sys_inv_def goto_def flights_same like_def)
next
  case (Some p)
  show ?thesis
    by (rule sys_inv_move [OF assms(1) Some assms(2), of _ p "pcs s" c])
       (use Some assms in \<open>auto simp: goto_def like_def intro!: core_step [of p "pcs s"] dest: core_facts(1-3)\<close>)
qed

lemma acquire_inv:
  assumes "sys_inv s" "the_pool s = Some p" "t < length (pcs s)" "acquire t c p s = Some (Inr s')"
    and "like c (pcs s ! t)" "holds c" "knows p c"
  shows "sys_inv s'"
proof -
  from acquireE [OF assms(4)] have l: "lock p = M_free" "s' = goto t c (set_pool (p\<lparr>lock := M_held t\<rparr>) s)"
    by auto
  have "knows (p\<lparr>lock := M_held t\<rparr>) c" using assms(7) by (cases c) auto
  then show ?thesis
    by (intro sys_inv_move [OF assms(1-3), of s' "p\<lparr>lock := M_held t\<rparr>" "pcs s" c])
       (use l assms in \<open>auto simp: state_simps like_def intro!: core_step [of p "pcs s"] dest: core_facts(1-3)\<close>)
qed

lemma release_inv:
  assumes "sys_inv s" "the_pool s = Some p" "t < length (pcs s)" "release t p' = Inr p''"
    and "s' = goto t c (set_pool p'' (s\<lparr>pcs := cs, added := as', taken := ts'\<rparr>))"
    and "map erase cs = map erase (pcs s)" "cs ! t = pcs s ! t" "\<not> holds c"
    and "core_inv p (pcs s) (added s) (taken s) \<Longrightarrow> lock p' = lock p \<and> ring_ok p' \<and> thr_ok p' \<and> as' = ts' @ pool_tasks p'"
    and "busy_thr_num p' = busy_thr_num p + of_bool (busy c) - of_bool (busy (pcs s ! t))"
    and "live_thr_num p' = live_thr_num p + of_bool (counted c) - of_bool (counted (pcs s ! t))"
    and "mset ts' + in_flight (pcs s ! t) = mset (taken s) + in_flight c"
  shows "sys_inv s'"
proof -
  from releaseE [OF assms(4)] have r: "lock p' = M_held t" "p'' = p'\<lparr>lock := M_free\<rparr>" by auto
  have len: "length cs = length (pcs s)" using assms(6) map_eq_imp_length_eq by blast
  have inv: "core_inv p (pcs s) (added s) (taken s)" using assms(1,2) by (simp add: sys_inv_def)
  note ok = assms(9) [OF inv]
  have "core_inv p'' (cs[t := c]) as' ts'" if "core_inv p cs (added s) (taken s)"
    by (rule core_step [OF that]) (use assms len ok r in \<open>auto\<close>)
  then show ?thesis
    by (intro sys_inv_move [OF assms(1-3), of s' p'' cs c])
       (use assms in \<open>auto simp: state_simps ac_simps\<close>)
qed

lemma add_step_inv:
  assumes "sys_inv s" "the_pool s = Some p" "t < length (pcs s)"
    and "add_step t w (pcs s ! t) p s = Some (Inr s')"
  shows "sys_inv s'"
proof -
  have inv: "core_inv p (pcs s) (added s) (taken s)" using assms(1,2) by (simp add: sys_inv_def)
  note f = core_facts [OF inv assms(3)]
  note rel = release_inv [OF assms(1-3)]
  show ?thesis
  proof (cases "pcs s ! t")
    case (A_test k)
    show ?thesis
    proof (cases "add_guard p")
      case True
      with A_test assms(4) obtain p'' where "release t p = Inr p''" "s' = goto t (A_wait k) (set_pool p'' s)" by auto
      then show ?thesis using f(1,2) A_test assms(3)
        by (intro rel [where p' = p and c = "A_wait k" and cs = "pcs s" and as' = "added s" and ts' = "taken s"])
           (auto dest: core_facts(3))
    next
      case False
      with A_test assms(4) have "s' = goto t (A_shut k) s" by auto
      with False A_test assms(1-3) show ?thesis by (auto intro!: stay_inv simp: like_def add_guard_def)
    qed
  next
    case (A_shut k)
    show ?thesis
    proof (cases "shutdown p")
      case True
      with A_shut assms(4) obtain p'' where "release t p = Inr p''"
        "s' = goto t Idle (set_pool p'' (s\<lparr>pcs := wake_workers (pcs s)\<rparr>))" by auto
      then show ?thesis using f(1,2) A_shut assms(3)
        by (intro rel [where p' = p and c = Idle and cs = "wake_workers (pcs s)" and as' = "added s" and ts' = "taken s"])
           (auto dest: core_facts(3))
    next
      case False
      with A_shut assms(4) have "s' = goto t (A_put k) s" by auto
      with False A_shut assms(1-3) f(4) show ?thesis by (auto intro!: stay_inv simp: like_def)
    qed
  next
    case (A_put k)
    with assms(4) obtain cs p' p'' where w: "wake_worker w (pcs s) = Some cs" and a: "add_put p k = Inr p'"
      and r: "release t p' = Inr p''" and s': "s' = goto t Idle (set_pool p'' (s\<lparr>pcs := cs, added := added s @ [k]\<rparr>))"
      by (auto split: option.splits)
    have room: "queue_size p < queue_max_size p" using f(4,5) A_put by simp
    note q = add_put_ring [OF f(1) room a] add_put_fields [OF a]
    with q f(2,3) A_put w s' wake_worker_erase [OF w] wake_worker_nth [OF w assms(3)] show ?thesis
      by (intro rel [OF r, where c = Idle and cs = cs and as' = "added s @ [k]" and ts' = "taken s"]) auto
  qed (use assms f in \<open>auto intro!: acquire_inv [OF assms(1-3)] simp: like_def\<close>)
qed

lemma worker_step_inv:
  assumes "sys_inv s" "the_pool s = Some p" "t < length (pcs s)"
    and "worker_step t (pcs s ! t) p s = Some (Inr s')"
  shows "sys_inv s'"
proof -
  have inv: "core_inv p (pcs s) (added s) (taken s)" using assms(1,2) by (simp add: sys_inv_def)
  note f = core_facts [OF inv assms(3)]
  note rel = release_inv [OF assms(1-3)]
  show ?thesis
  proof (cases "pcs s ! t")
    case W_test
    with assms show ?thesis by (auto intro!: stay_inv simp: like_def worker_guard_def)
  next
    case W_park
    with assms(4) obtain p'' where "release t p = Inr p''" "s' = goto t W_wait (set_pool p'' s)" by auto
    then show ?thesis using f(1,2) W_park assms(3)
      by (intro rel [where p' = p and c = W_wait and cs = "pcs s" and as' = "added s" and ts' = "taken s"])
         (auto dest: core_facts(3))
  next
    case W_woken
    obtain ends p' where w: "worker_woken p = (ends, p')" by force
    note q = worker_woken_spec' [OF f(2) w]
    show ?thesis
    proof (cases ends)
      case True
      with W_woken w assms(4) obtain p'' where "release t p' = Inr p''" "s' = goto t W_left (set_pool p'' s)" by auto
      then show ?thesis using f(1,2) W_woken assms(3) q True
        by (intro rel [where p' = p' and c = W_left and cs = "pcs s" and as' = "added s" and ts' = "taken s"])
           (auto dest: core_facts(3))
    next
      case False
      with W_woken w assms(4) have "s' = goto t W_test (set_pool p' s)" by auto
      then show ?thesis using W_woken f(1,2) q False assms(3)
        by (intro sys_inv_move [OF assms(1-3), of s' p' "pcs s" W_test])
           (auto simp: state_simps dest: core_facts(3) intro!: core_step [of p "pcs s"])
    qed
  next
    case W_shut
    show ?thesis
    proof (cases "shutdown p")
      case True
      with W_shut assms(4) obtain p'' where "release t p = Inr p''" "s' = goto t W_bye (set_pool p'' s)" by auto
      then show ?thesis using f(1,2) W_shut assms(3)
        by (intro rel [where p' = p and c = W_bye and cs = "pcs s" and as' = "added s" and ts' = "taken s"])
           (auto dest: core_facts(3))
    next
      case False
      with W_shut assms(4) have "s' = goto t W_take s" by auto
      with False W_shut assms(1-3) f(4) show ?thesis by (auto intro!: stay_inv simp: like_def)
    qed
  next
    case W_take
    with assms(4) obtain k p' p'' where a: "worker_take p = Inr (k, p')" and r: "release t p' = Inr p''"
      and s': "s' = goto t (W_count k) (set_pool p'' (s\<lparr>pcs := wake_adders (pcs s), taken := taken s @ [k]\<rparr>))"
      by auto
    have pos: "0 < queue_size p" using f(4,6) W_take by simp
    note q = worker_take_ring [OF f(1) pos a] worker_take_fields [OF a]
    with q f(2) W_take s' assms(3) show ?thesis
      by (intro rel [OF r, where c = "W_count k" and cs = "wake_adders (pcs s)" and as' = "added s" and ts' = "taken s @ [k]"])
         (auto dest: core_facts(3))
  next
    case (W_count k)
    with assms(4) have "s' = goto t (W_run k) (set_pool (p\<lparr>busy_thr_num := busy_thr_num p + 1\<rparr>) s)" by auto
    then show ?thesis using W_count f(1,2) assms(3)
      by (intro sys_inv_move [OF assms(1-3), of s' "p\<lparr>busy_thr_num := busy_thr_num p + 1\<rparr>" "pcs s" "W_run k"])
         (auto simp: state_simps dest: core_facts(3) intro!: core_step [of p "pcs s"])
  next
    case W_uncount
    with assms(4) have "s' = goto t W_lock (set_pool (p\<lparr>busy_thr_num := busy_thr_num p - 1\<rparr>) s)" by auto
    then show ?thesis using W_uncount f(1,2) assms(3)
      by (intro sys_inv_move [OF assms(1-3), of s' "p\<lparr>busy_thr_num := busy_thr_num p - 1\<rparr>" "pcs s" W_lock])
         (auto simp: state_simps dest: core_facts(3) intro!: core_step [of p "pcs s"])
  qed (use assms f in \<open>auto intro!: acquire_inv [OF assms(1-3)] simp: like_def\<close>)
qed

lemma criticalE: "critical t p r = Some (Inr s') \<Longrightarrow> lock p = M_free \<and> r = Inr s'"
  by (cases "lock p") (auto simp: critical_def)

lemma manager_step_inv:
  assumes "sys_inv s" "the_pool s = Some p" "t < length (pcs s)"
    and "manager_step t w z (pcs s ! t) p s = Some (Inr s')"
  shows "sys_inv s'"
proof -
  have inv: "core_inv p (pcs s) (added s) (taken s)" using assms(1,2) by (simp add: sys_inv_def)
  note f = core_facts [OF inv assms(3)]
  have stay: "sys_inv (goto t c s)" if "is_manager c \<or> c = M_gone" "is_manager (pcs s ! t)" for c
    by (rule stay_inv [OF assms(1,3)])
       (use that in \<open>auto simp: like_def elim!: is_manager.elims\<close>)
  show ?thesis
  proof (cases "pcs s ! t")
    case (M_grow q l b)
    with assms(4) obtain n p' where g: "adjust_grow (kill0 (pcs s) z) (length (pcs s)) p = Inr (n, p')"
      and s': "s' = goto t (M_shrink q l b) (set_pool p' (s\<lparr>pcs := pcs s @ replicate (nat n) W_lock\<rparr>))"
      by (auto dest!: criticalE)
    note g' = adjust_grow_ok [OF f(2), of "kill0 (pcs s) z" "length (pcs s)"]
    let ?s = "set_pool p' (s\<lparr>pcs := pcs s @ replicate (nat n) W_lock\<rparr>)"
    have "core_inv p' (pcs s @ replicate (nat n) W_lock) (added s) (taken s)"
      using g g' by (intro core_append [OF inv, where x = "threads p" and y = "live_thr_num p"]) auto
    then have i: "sys_inv ?s" using assms(1) by (simp add: sys_inv_def set_pool_def)
    show ?thesis unfolding s'
      by (rule stay_inv [OF i]) (use M_grow assms(3) in \<open>auto simp: set_pool_def nth_append like_def\<close>)
  next
    case M_set
    with assms(4) have s': "s' = goto t (M_signal (nat DEFAULT_THREAD_VARY)) (set_pool (adjust_shrink p) s)"
      by (auto dest!: criticalE)
    have "thr_ok (adjust_shrink p)" using f(2)
      by (auto simp: thr_ok_def adjust_shrink_def DEFAULT_THREAD_VARY_def split: arr.splits)
    then show ?thesis using s' f(1) M_set assms(3)
      by (intro sys_inv_move [OF assms(1-3), of s' "adjust_shrink p" "pcs s" "M_signal (nat DEFAULT_THREAD_VARY)"])
         (auto simp: state_simps adjust_shrink_def dest: core_facts(3) intro!: core_step [of p "pcs s"])
  next
    case (M_signal n)
    show ?thesis
    proof (cases n)
      case 0
      with M_signal assms(4) stay show ?thesis by auto
    next
      case (Suc m)
      with M_signal assms(4) obtain cs where w: "wake_worker w (pcs s) = Some cs" and s': "s' = goto t (M_signal m) (s\<lparr>pcs := cs\<rparr>)"
        by (auto split: option.splits)
      note e = wake_worker_erase [OF w]
      have "sys_inv (s\<lparr>pcs := cs\<rparr>)"
        by (rule sys_inv_erase [OF assms(1) e])
      then show ?thesis unfolding s'
        using M_signal wake_worker_nth [OF w assms(3)] map_eq_imp_length_eq [OF e] assms(3)
        by (intro stay_inv) (auto simp: like_def)
    qed
  qed (use assms(4) stay in \<open>auto dest!: criticalE split: if_splits\<close>)
qed

lemma destroy_step_inv:
  assumes "sys_inv s" "the_pool s = Some p" "t < length (pcs s)"
    and "destroy_step t (pcs s ! t) p s = Some (Inr s')"
  shows "sys_inv s'"
proof -
  have inv: "core_inv p (pcs s) (added s) (taken s)" using assms(1,2) by (simp add: sys_inv_def)
  note f = core_facts [OF inv assms(3)]
  have stay: "sys_inv (goto t c s)" if "is_destroy c \<or> c = Idle" "is_destroy (pcs s ! t)" for c
    by (rule stay_inv [OF assms(1,3)])
       (use that in \<open>auto simp: like_def elim!: is_destroy.elims\<close>)
  show ?thesis
  proof (cases "pcs s ! t")
    case D_set
    with assms(4) have "s' = goto t D_join_manager (set_pool (p\<lparr>shutdown := True\<rparr>) s)" by simp
    then show ?thesis using f(1,2) D_set assms(3)
      by (intro sys_inv_move [OF assms(1-3), of s' "p\<lparr>shutdown := True\<rparr>" "pcs s" D_join_manager])
         (auto simp: state_simps dest: core_facts(3) intro!: core_step [of p "pcs s"])
  next
    case (D_wake i)
    have "sys_inv (s\<lparr>pcs := wake_workers (pcs s)\<rparr>)" by (rule sys_inv_erase [OF assms(1)]) simp
    then have "sys_inv (goto t (D_wake (i + 1)) (s\<lparr>pcs := wake_workers (pcs s)\<rparr>))"
      by (rule stay_inv) (use D_wake assms(3) in \<open>auto simp: like_def\<close>)
    with D_wake assms(4) stay show ?thesis by (auto split: if_splits)
  next
    case D_free
    have "sys_inv (goto t D_free_threads (s\<lparr>the_pool := None, dying := d\<rparr>))" for d
      using stay [of D_free_threads] D_free by (auto simp: sys_inv_def goto_def)
    with D_free assms(4) show ?thesis by (cases "free_queue p") auto
  next
    case D_free_threads
    have "sys_inv (goto t c (s\<lparr>the_pool := None, dying := d\<rparr>))" if "c = Idle \<or> c = D_free_locks" for c d
      using stay [of c] D_free_threads that by (auto simp: sys_inv_def goto_def)
    with D_free_threads assms(4) show ?thesis by (auto split: arr.splits)
  next
    case D_free_locks
    have "sys_inv (goto t Idle (s\<lparr>the_pool := None, dying := None\<rparr>))"
      using stay [of Idle] D_free_locks by (auto simp: sys_inv_def goto_def)
    with D_free_locks assms(4) show ?thesis by (auto split: sum.splits fault.splits)
  qed (use assms(4) stay in \<open>auto split: if_splits sum.splits\<close>)
qed

text \<open>
  On a struct that \<open>threadpool_free\<close> has begun to take apart only the balance of taken and finished tasks is kept;
  every step keeps it, whatever the struct looks like.
\<close>

definition balanced :: "psys \<Rightarrow> bool" where
  "balanced s \<longleftrightarrow> mset (taken s) = mset (finished s) + flights (pcs s)"

lemma balanced_goto:
  assumes "balanced s" "t < length (pcs s)" "map erase (pcs u) = map erase (pcs s)" "finished u = finished s"
    and "mset (taken u) + in_flight (pcs s ! t) = mset (taken s) + in_flight c"
  shows "balanced (goto t c u)"
proof -
  have t: "t < length (pcs u)" "in_flight (pcs u ! t) = in_flight (pcs s ! t)"
    using assms(2) erase_same [OF assms(3)] erase_simps(4) by metis+
  have "flights (pcs u) = flights (pcs s)" using flights_erase assms(3) by metis
  with gather_update [OF t(1), of in_flight c] t(2)
  have "flights ((pcs u)[t := c]) + in_flight (pcs s ! t) = flights (pcs s) + in_flight c" by simp
  with assms(1,4,5) have "mset (taken u) + in_flight (pcs s ! t)
      = mset (finished u) + flights ((pcs u)[t := c]) + in_flight (pcs s ! t)"
    by (auto simp: balanced_def ac_simps)
  then show ?thesis by (simp add: balanced_def goto_def)
qed

lemma pool_thread_balanced:
  assumes b: "balanced s" "t < length (pcs s)" and c: "c = pcs s ! t" "\<not> quiet c"
    and st: "pool_thread t w z c p s = Some (Inr s')"
  shows "balanced s'"
proof (cases c)
  case (M_grow q l b)
  with st obtain n p' where s': "s' = goto t (M_shrink q l b) (set_pool p' (s\<lparr>pcs := pcs s @ replicate (nat n) W_lock\<rparr>))"
    by (auto simp: pool_thread_def dest!: criticalE)
  have "balanced (set_pool p' (s\<lparr>pcs := pcs s @ replicate (nat n) W_lock\<rparr>))"
    using b(1) by (simp add: balanced_def set_pool_def)
  then show ?thesis unfolding s' by (rule balanced_goto) (use b(2) M_grow c(1) [symmetric] in \<open>auto simp: set_pool_def nth_append\<close>)
next
  case (M_signal n)
  with st b c(1) [symmetric] show ?thesis
    by (cases n) (auto simp: pool_thread_def intro!: balanced_goto [OF b] dest: wake_worker_erase split: option.splits)
qed (use st c(1) [symmetric] c(2) in \<open>auto simp: pool_thread_def set_pool_def intro!: balanced_goto [OF b]
    dest!: acquireE releaseE criticalE dest: wake_worker_erase
    split: option.splits if_splits sum.splits fault.splits prod.splits bool.splits arr.splits\<close>)

lemma still_dying_simps [simp]:
  "the_pool (still_dying s) = None" "pcs (still_dying s) = pcs s" "added (still_dying s) = added s"
  "taken (still_dying s) = taken s" "finished (still_dying s) = finished s"
  by (simp_all add: still_dying_def)

text \<open>A step on the pool is one on the live struct, or one on the dying struct.\<close>

lemma on_poolE:
  assumes "on_pool f s = Some (Inr s')"
  obtains p where "the_pool s = Some p" "f p s = Some (Inr s')"
  | p u where "the_pool s = None" "dying s = Some p" "f p (set_pool p s) = Some (Inr u)" "s' = still_dying u"
proof (cases "the_pool s")
  case None
  with assms obtain p r where "dying s = Some p" "f p (set_pool p s) = Some r" "obind r (\<lambda>u. Inr (still_dying u)) = Inr s'"
    by (auto simp: on_pool_def split: option.splits)
  with None that(2) show ?thesis by (cases r) auto
next
  case (Some p)
  with assms that(1) show ?thesis by (simp add: on_pool_def)
qed

lemma quiet_step_inv:
  assumes "sys_inv s" "t < length (pcs s)" "quiet_step t (pcs s ! t) s = Some (Inr s')"
  shows "sys_inv s'"
proof (cases "pcs s ! t")
  case (W_run k)
  with assms(3) have s': "s' = goto t W_uncount (s\<lparr>finished := finished s @ [k]\<rparr>)" by simp
  show ?thesis
  proof (cases "the_pool s")
    case None
    have "flights ((pcs s)[t := W_uncount]) + {#k#} = flights (pcs s)"
      using gather_update [OF assms(2), of in_flight W_uncount] W_run by simp
    with assms(1) None s' show ?thesis by (auto simp: sys_inv_def goto_def ac_simps)
  next
    case (Some p)
    show ?thesis
      by (rule sys_inv_move [OF assms(1) Some assms(2), of s' p "pcs s" W_uncount])
         (use s' Some W_run assms(2) in \<open>auto simp: goto_def dest: core_facts(1-3) intro!: core_step [of p "pcs s"]\<close>)
  qed
next
  case W_bye
  with assms show ?thesis by (auto intro!: stay_inv simp: like_def)
qed (use assms(3) in auto)

lemma pool_step_inv:
  assumes "sys_inv s" "pool_step l s = Some (Inr s')"
  shows "sys_inv s'"
proof (cases l)
  case (Step t w z)
  with assms(2) have t: "t < length (pcs s)" and st: "thread_step t w z (pcs s ! t) s = Some (Inr s')"
    by (auto split: if_splits)
  show ?thesis
  proof (cases "quiet (pcs s ! t)")
    case True
    with st quiet_step_inv [OF assms(1) t] show ?thesis by (simp add: thread_step_def)
  next
    case False
    with st have "on_pool (pool_thread t w z (pcs s ! t)) s = Some (Inr s')" by (simp add: thread_step_def)
    then show ?thesis
    proof (cases rule: on_poolE)
      case (1 p)
      then show ?thesis
        using add_step_inv [OF assms(1) 1(1) t] manager_step_inv [OF assms(1) 1(1) t]
          destroy_step_inv [OF assms(1) 1(1) t] worker_step_inv [OF assms(1) 1(1) t]
        by (auto simp: pool_thread_def split: if_splits)
    next
      case (2 p u)
      have "balanced (set_pool p s)" using assms(1) by (simp add: sys_inv_def balanced_def set_pool_def)
      then have "balanced u"
        by (rule pool_thread_balanced [OF _ _ _ False 2(3)]) (use t in \<open>simp_all add: set_pool_def\<close>)
      then show ?thesis by (simp add: 2(4) sys_inv_def balanced_def)
    qed
  qed
next
  case (Spurious t)
  then show ?thesis using assms
    by (auto intro!: stay_inv simp: like_def split: if_splits pc.splits)
qed (use assms in \<open>auto intro!: stay_inv simp: like_def split: if_splits\<close>)

lemma create_fresh:
  assumes "threadpool_create e t mn mx qmx = Inr (Some p)" "malloc_ok e" "0 \<le> mn" "mn \<le> mx" "0 < qmx"
  shows "fresh_pool p" "min_thr_num p = mn" "max_thr_num p = mx" "queue_max_size p = qmx"
    "adjust_tid p = new_tid e (nat mn)"
    "threads p = Arr (map (new_tid e) [0..<nat mn] @ replicate (nat (mx - mn)) 0)"
proof -
  from assms(1) obtain raw ts q where "new_pool e = Some raw" "new_threads e mx = Some ts" "new_queue e qmx = Some q"
    by (auto simp: threadpool_create_def Let_def split: option.splits)
  moreover from this assms(1) have "init_ret e 0 = 0 \<and> init_ret e 1 = 0 \<and> init_ret e 2 = 0 \<and> init_ret e 3 = 0"
    by (auto simp: threadpool_create_def Let_def init_locks_def split: if_splits)
  then have "\<forall>i<4. init_ret e i = 0" by (auto simp: less_Suc_eq numeral_eq_Suc)
  ultimately show "fresh_pool p" "min_thr_num p = mn" "max_thr_num p = mx" "queue_max_size p = qmx"
    "adjust_tid p = new_tid e (nat mn)"
    "threads p = Arr (map (new_tid e) [0..<nat mn] @ replicate (nat (mx - mn)) 0)"
    using create_ok [of e raw mx ts qmx q mn t] assms by auto
qed

lemma start_inv: "init_sys s \<Longrightarrow> sys_inv s"
proof -
  assume "init_sys s"
  then obtain p n where f: "fresh_pool p" and s: "s = start_state p n" by (auto simp: init_sys_def dest: create_fresh)
  have "thr_ok p" using f by (simp add: fresh_pool_def)
  then have "0 \<le> min_thr_num p" by (simp add: thr_ok_def split: arr.splits)
  moreover have quiet: "\<not> holds c" "\<not> busy c" "in_flight c = {#}" "counted c \<longleftrightarrow> c = W_lock" if "c \<in> {Idle, W_lock, M_loop}" for c
    using that by auto
  moreover have "cs ! u \<in> {Idle, W_lock, M_loop}"
    if "u < length cs" "cs = Idle # replicate m W_lock @ M_loop # replicate n Idle" for u cs m
    using that by (auto simp: nth_append nth_Cons split: nat.splits)
  ultimately show ?thesis using f
    by (auto simp: s start_state_def sys_inv_def core_inv_def fresh_pool_def lock_inv_def simp del: nth_Cons)
qed

interpretation pool: inductive_invariant init_sys "fires pool_step" sys_inv
  by unfold_locales (auto simp: fires_def intro: start_inv pool_step_inv)

end
