(* ===== verification/Pool_Theorems.thy ===== *)
theory Pool_Theorems
  imports Pool_Proofs
begin

text \<open>
  What the invariant of Pool_Proofs gives for socket/thread_Pool/main.cpp: no step faults while the
  pool exists, the pool refines an atomic bounded queue, every task is taken in order and run once,
  the counters are exact, and a lock once taken is given back.
\<close>

section \<open>No step of a live pool faults\<close>

lemma acquire_live:
  "lock_inv p cs \<Longrightarrow> acquire t c p s \<noteq> Some (Inl f)"
  by (auto simp: acquire_def lock_inv_def)

lemma critical_live: "lock_inv p cs \<Longrightarrow> critical t p r = Some (Inl f) \<Longrightarrow> r = Inl f"
  by (auto simp: critical_def lock_inv_def)

lemma release_live: "lock p = M_held t \<Longrightarrow> release t p = Inr (p\<lparr>lock := M_free\<rparr>)"
  by (simp add: release_def)

lemma ring_no_fault: "ring_ok p \<Longrightarrow> \<exists>p'. add_put p k = Inr p'" "ring_ok p \<Longrightarrow> \<exists>k p'. worker_take p = Inr (k, p')"
  using add_put_eq worker_take_eq by (metis ring_okE)+

lemma live_step_ok:
  assumes "sys_inv s" "the_pool s = Some p" "t < length (pcs s)" "\<not> is_destroy (pcs s ! t)"
  shows "thread_step t w z (pcs s ! t) s \<noteq> Some (Inl f)"
proof -
  have ci: "core_inv p (pcs s) (added s) (taken s)" using assms(1,2) by (auto simp: sys_inv_def)
  then have li: "lock_inv p (pcs s)" and r: "ring_ok p" and th: "thr_ok p" by (auto simp: core_inv_def)
  have held: "holds (pcs s ! t) \<Longrightarrow> lock p = M_held t" using core_facts(7) [OF ci assms(3)] .
  obtain q where q: "task_queue p = Arr q" using r by (rule ring_okE)
  have woken: "worker_woken p = (e, p') \<Longrightarrow> lock p' = lock p" for e p'
    by (auto simp: worker_woken_def Let_def split: if_splits)
  obtain n p' where g: "adjust_grow (kill0 (pcs s) z) (length (pcs s)) p = Inr (n, p')"
    using adjust_grow_ok [OF th] by blast
  show ?thesis
  proof (cases "pcs s ! t")
    case (A_put k)
    then show ?thesis using held assms(2) add_put_eq [OF r q]
      by (auto simp: thread_step_def on_pool_def pool_thread_def release_live split: option.splits)
  next
    case W_take
    then show ?thesis using held assms(2) worker_take_eq [OF r q]
      by (auto simp: thread_step_def on_pool_def pool_thread_def release_live)
  next
    case W_woken
    then show ?thesis using held assms(2)
      by (auto simp: thread_step_def on_pool_def pool_thread_def release_live dest!: woken split: prod.splits bool.splits)
  next
    case (M_grow a b c)
    then show ?thesis using critical_live [OF li] assms(2) g
      by (fastforce simp: thread_step_def on_pool_def pool_thread_def)
  next
    case (M_signal n)
    then show ?thesis using assms(2)
      by (cases n) (auto simp: thread_step_def on_pool_def pool_thread_def split: option.splits)
  qed (use held assms(2,4) in
      \<open>auto simp: thread_step_def on_pool_def pool_thread_def release_live acquire_live [OF li] split: option.splits if_splits
        dest!: critical_live [OF li]\<close>)
qed

text \<open>The threads between lock and unlock, from the lock: nobody, or the owner alone.\<close>

lemma filter_one:
  assumes "t < length xs" "\<And>u. u < length xs \<Longrightarrow> P (xs ! u) \<longleftrightarrow> u = t"
  shows "filter P xs = [xs ! t]"
proof -
  have "xs = take t xs @ xs ! t # drop (Suc t) xs" using assms(1) by (rule id_take_nth_drop)
  moreover have "filter P (take t xs) = []" "filter P (drop (Suc t) xs) = []" "P (xs ! t)"
    using assms by (auto simp: filter_empty_conv in_set_conv_nth)
  ultimately show ?thesis by (metis append_Nil filter.simps filter_append)
qed

lemma lock_shape:
  assumes "lock_inv p cs"
  shows "if list_ex holds cs then \<exists>t<length cs. lock p = M_held t \<and> filter holds cs = [cs ! t] else lock p = M_free"
proof (cases "lock p")
  case (M_held t)
  with assms have t: "t < length cs" "\<And>u. u < length cs \<Longrightarrow> holds (cs ! u) \<longleftrightarrow> u = t" by (auto simp: lock_inv_def)
  with M_held filter_one [of t cs holds] show ?thesis by (auto simp: list_ex_length)
qed (use assms in \<open>auto simp: lock_inv_def list_ex_length\<close>)

section \<open>What one step does to the histories\<close>

lemma worker_woken_cap: "worker_woken p = (e, p') \<Longrightarrow> queue_max_size p' = queue_max_size p"
  by (auto simp: worker_woken_def Let_def split: if_splits)

lemma worker_take_cap: "worker_take p = Inr (k, p') \<Longrightarrow> queue_max_size p' = queue_max_size p"
  by (auto simp: worker_take_def)

lemma adjust_grow_cap: "adjust_grow kl i p = Inr (n, p') \<Longrightarrow> queue_max_size p' = queue_max_size p"
  using arg_cong [OF grow_loop_frame [of kl i 0 0 p n p' 0 Null], of queue_max_size]
  by (simp add: adjust_grow_def)

definition hist_step :: "psys \<Rightarrow> psys \<Rightarrow> bool" where
  "hist_step s s' \<longleftrightarrow> added s' = added s \<and> taken s' = taken s
     \<or> (\<exists>k. added s' = added s @ [k] \<and> taken s' = taken s)
     \<or> (\<exists>k. added s' = added s \<and> taken s' = taken s @ [k])"

lemma goto_fields [simp]:
  "the_pool (goto t c s) = the_pool s" "added (goto t c s) = added s" "taken (goto t c s) = taken s"
  "finished (goto t c s) = finished s" "the_pool (set_pool p s) = Some p" "added (set_pool p s) = added s"
  "taken (set_pool p s) = taken s" "finished (set_pool p s) = finished s" "pcs (set_pool p s) = pcs s"
  by (simp_all add: state_simps)

definition keeps_cap :: "psys \<Rightarrow> psys \<Rightarrow> bool" where
  "keeps_cap s s' \<longleftrightarrow> map_option queue_max_size (the_pool s') = map_option queue_max_size (the_pool s)
     \<or> the_pool s' = None"

lemma pool_thread_hist:
  assumes "pool_thread t w z c p s = Some (Inr s')" "the_pool s = Some p"
  shows "hist_step s s' \<and> keeps_cap s s'"
proof (cases c)
  case (M_signal n)
  with assms show ?thesis
    by (cases n) (auto simp: pool_thread_def hist_step_def keeps_cap_def split: option.splits)
qed (use assms in \<open>auto simp: pool_thread_def hist_step_def keeps_cap_def critical_def adjust_shrink_def
      dest!: acquireE releaseE add_put_cap worker_take_cap worker_woken_cap adjust_grow_cap
      split: option.splits if_splits sum.splits fault.splits prod.splits bool.splits arr.splits\<close>)

lemma thread_hist:
  assumes "thread_step t w z c s = Some (Inr s')"
  shows "hist_step s s' \<and> keeps_cap s s'"
proof (cases "quiet c")
  case True
  with assms show ?thesis by (cases c) (auto simp: thread_step_def hist_step_def keeps_cap_def)
next
  case False
  with assms have "on_pool (pool_thread t w z c) s = Some (Inr s')" by (simp add: thread_step_def)
  then show ?thesis
  proof (cases rule: on_poolE)
    case (1 p)
    then show ?thesis by (intro pool_thread_hist)
  next
    case (2 p u)
    then have "hist_step (set_pool p s) u" using pool_thread_hist by fastforce
    with 2(4) show ?thesis by (simp add: hist_step_def keeps_cap_def)
  qed
qed

lemma step_hist:
  assumes "pool_step l s = Some (Inr s')"
  shows "hist_step s s' \<and> keeps_cap s s'"
  using assms by (cases l) (auto simp: hist_step_def keeps_cap_def dest: thread_hist split: if_splits pc.splits)

section \<open>Refinement: the pool is an atomic bounded queue\<close>

text \<open>
  The abstract state is a capacity and a list of tasks, or nothing once the pool is deleted. Its
  steps are to append a task where there is room, to remove the first one, and to delete.
\<close>

type_synonym aqueue = "(nat \<times> threadpool_task_t list) option"

datatype alabel = Put threadpool_task_t | Take threadpool_task_t | Drop

fun queue_step :: "alabel \<Rightarrow> aqueue \<Rightarrow> aqueue \<Rightarrow> bool" where
  "queue_step (Put k) (Some (c, ks)) a \<longleftrightarrow> length ks < c \<and> a = Some (c, ks @ [k])"
| "queue_step (Take k) (Some (c, ks)) a \<longleftrightarrow> (\<exists>ks'. ks = k # ks' \<and> a = Some (c, ks'))"
| "queue_step Drop (Some q) a \<longleftrightarrow> a = None"
| "queue_step l None a \<longleftrightarrow> False"

definition queue_init :: "aqueue \<Rightarrow> bool" where
  "queue_init a \<longleftrightarrow> (\<exists>c>0. a = Some (c, []))"

definition pool_abs :: "psys \<Rightarrow> aqueue" where
  "pool_abs s = map_option (\<lambda>p. (nat (queue_max_size p), pool_tasks p)) (the_pool s)"

lemma deleted_thread:
  assumes "thread_step t w z c s = Some (Inr s')" "the_pool s = None"
  shows "the_pool s' = None"
proof (cases "quiet c")
  case True
  with assms show ?thesis by (cases c) (auto simp: thread_step_def)
next
  case False
  with assms(1) have "on_pool (pool_thread t w z c) s = Some (Inr s')" by (simp add: thread_step_def)
  then show ?thesis by (cases rule: on_poolE) (use assms(2) in auto)
qed

lemma deleted_step: "pool_step l s = Some (Inr s') \<Longrightarrow> the_pool s = None \<Longrightarrow> the_pool s' = None"
  by (cases l) (auto split: if_splits pc.splits dest: deleted_thread)

lemma pool_sim_step:
  assumes "sys_inv s" "pool_step l s = Some (Inr s')"
  shows "pool_abs s' = pool_abs s \<or> (\<exists>m. queue_step m (pool_abs s) (pool_abs s'))"
proof (cases "the_pool s")
  case None
  with deleted_step [OF assms(2)] show ?thesis by (simp add: pool_abs_def)
next
  case (Some p)
  show ?thesis
  proof (cases "the_pool s'")
    case None
    with Some have "queue_step Drop (pool_abs s) (pool_abs s')" by (simp add: pool_abs_def)
    then show ?thesis by blast
  next
    case p': (Some p')
    have inv: "sys_inv s'" using pool_step_inv assms by (auto simp: fires_def)
    have h: "added s = taken s @ pool_tasks p" "added s' = taken s' @ pool_tasks p'" "ring_ok p'"
      using assms(1) inv Some p' by (auto simp: sys_inv_def core_inv_def)
    then have len: "length (pool_tasks p') \<le> nat (queue_max_size p')"
      using length_pool_tasks [of p'] by (auto elim!: ring_okE)
    from step_hist [OF assms(2)] Some p' have c: "queue_max_size p' = queue_max_size p" and
      "hist_step s s'" by (auto simp: keeps_cap_def)
    then consider "added s' = added s" "taken s' = taken s"
      | k where "added s' = added s @ [k]" "taken s' = taken s"
      | k where "added s' = added s" "taken s' = taken s @ [k]"
      by (auto simp: hist_step_def)
    then show ?thesis
    proof cases
      case 1
      with h have "pool_tasks p' = pool_tasks p" by simp
      with c Some p' show ?thesis by (simp add: pool_abs_def)
    next
      case (2 k)
      with h have "pool_tasks p' = pool_tasks p @ [k]" by simp
      with c len Some p' have "queue_step (Put k) (pool_abs s) (pool_abs s')" by (simp add: pool_abs_def)
      then show ?thesis by blast
    next
      case (3 k)
      with h have "pool_tasks p = k # pool_tasks p'" by simp
      with c Some p' have "queue_step (Take k) (pool_abs s) (pool_abs s')" by (simp add: pool_abs_def)
      then show ?thesis by blast
    qed
  qed
qed

lemma pool_sim_init: "init_sys s \<Longrightarrow> queue_init (pool_abs s)"
proof -
  assume "init_sys s"
  then obtain p n qmx where "fresh_pool p" "queue_max_size p = qmx" "0 < qmx" "s = start_state p n"
    by (auto simp: init_sys_def dest: create_fresh(1,4))
  then show ?thesis by (simp add: start_state_def pool_abs_def queue_init_def fresh_pool_def)
qed

interpretation pool_queue_ref: refinement init_sys "fires pool_step" sys_inv pool_abs queue_init queue_step
  by unfold_locales (use pool_sim_init pool_sim_step in \<open>auto simp: fires_def\<close>)

section \<open>A pool that can be run\<close>

text \<open>The pool of \<open>main\<close>'s call with other numbers, and a schedule run on it, for the witnesses.\<close>

definition demo_pool :: "int \<Rightarrow> int \<Rightarrow> int \<Rightarrow> threadpool_t" where
  "demo_pool mn mx qmx = sample_raw\<lparr>lock := M_free, thread_counter := M_free, queue_not_full := C_ok,
     queue_not_empty := C_ok, threads := Arr (map Suc [0..<nat mn] @ replicate (nat (mx - mn)) 0),
     adjust_tid := Suc (nat mn), task_queue := Arr (replicate (nat qmx) \<lparr>tfunction = 9, targ = 9\<rparr>),
     min_thr_num := mn, max_thr_num := mx, live_thr_num := mn, busy_thr_num := 0, wait_exit_thr_num := 0,
     queue_front := 0, queue_rear := 0, queue_size := 0, queue_max_size := qmx, shutdown := False\<rparr>"

lemma demo_create:
  assumes "0 \<le> mn" "mn \<le> mx" "0 < qmx"
  shows "threadpool_create sample_env 0 mn mx qmx = Inr (Some (demo_pool mn mx qmx))"
proof -
  have "start_workers Suc 0 (nat mn) (Arr (replicate (nat mx) 0))
      = Inr (Arr (map Suc [0..<nat mn] @ replicate (nat (mx - mn)) 0))"
    using start_workers_fills [of 0 "nat mn" "replicate (nat mx) 0" Suc] assms by (simp add: nat_diff_distrib)
  with assms show ?thesis
    by (simp add: threadpool_create_def sample_env_def Let_def init_locks_def demo_pool_def sample_raw_def)
qed

lemma demo_init:
  assumes "0 \<le> mn" "mn \<le> mx" "0 < qmx"
  shows "init_sys (start_state (demo_pool mn mx qmx) n)"
  unfolding init_sys_def using demo_create [OF assms] sample_env_ok(1) assms
  by (intro exI [of _ sample_env] exI [of _ mn] exI [of _ mx] exI [of _ qmx] exI [of _ "demo_pool mn mx qmx"] exI [of _ n])
     (auto simp: sample_env_def)

lemma demo_reach:
  assumes "0 \<le> mn" "mn \<le> mx" "0 < qmx" "run pool_step ls (start_state (demo_pool mn mx qmx) n) = Some s"
  shows "pool_reach s"
  by (rule run_reach [OF assms(4)], rule reach_init, rule demo_init [OF assms(1-3)])

text \<open>One worker; a client adds two tasks, the worker takes one and starts to run it.\<close>

definition demo_sched :: "label list" where
  "demo_sched = [Start_add 0 \<lparr>tfunction = 3, targ = 4\<rparr>, Step 0 None [], Step 0 None [], Step 0 None [], Step 0 None [],
     Start_add 0 \<lparr>tfunction = 3, targ = 5\<rparr>, Step 0 None [], Step 0 None [], Step 0 None [], Step 0 None [],
     Step 1 None [], Step 1 None [], Step 1 None [], Step 1 None [], Step 1 None []]"

definition demo_end :: psys where
  "demo_end = \<lparr>the_pool = Some ((demo_pool 1 2 4)\<lparr>task_queue := Arr [\<lparr>tfunction = 3, targ = 4\<rparr>, \<lparr>tfunction = 3, targ = 5\<rparr>,
         \<lparr>tfunction = 9, targ = 9\<rparr>, \<lparr>tfunction = 9, targ = 9\<rparr>],
       queue_front := 1, queue_rear := 2, queue_size := 1, busy_thr_num := 1\<rparr>),
     pcs = [Idle, W_run \<lparr>tfunction = 3, targ = 4\<rparr>, M_loop],
     added = [\<lparr>tfunction = 3, targ = 4\<rparr>, \<lparr>tfunction = 3, targ = 5\<rparr>], taken = [\<lparr>tfunction = 3, targ = 4\<rparr>], finished = [], dying = None\<rparr>"

lemma demo_run: "run pool_step demo_sched (start_state (demo_pool 1 2 4) 0) = Some demo_end"
  by code_simp

lemma demo_end_reach: "pool_reach demo_end"
  by (rule demo_reach [OF _ _ _ demo_run]) auto


section \<open>Properties of the running pool\<close>

lemma reach_core:
  assumes "pool_reach s" "the_pool s = Some p"
  shows "core_inv p (pcs s) (added s) (taken s)" "mset (taken s) = mset (finished s) + flights (pcs s)"
  using pool.inv_reach [OF assms(1)] assms(2) by (auto simp: sys_inv_def)

text \<open>C1. Exactly once, in order: in every reachable state of the running pool, whatever the interleaving
  of clients, workers and manager, the tasks added so far are the tasks taken so far followed by those in
  the queue, and every taken task is either finished or held by exactly one worker. So no task is
  lost, run twice, or overtaken in the queue.\<close>

theorem pool_exactly_once:
  assumes "pool_reach s" "the_pool s = Some p"
  shows "added s = taken s @ pool_tasks p \<and> mset (taken s) = mset (finished s) + flights (pcs s)"
  using reach_core [OF assms] by (simp add: core_inv_def)

theorem pool_exactly_once_witness:
  "added demo_end = taken demo_end @ [\<lparr>tfunction = 3, targ = 5\<rparr>]"
  using pool_exactly_once [OF demo_end_reach] by (simp add: demo_end_def pool_tasks_def ring_list_def)

text \<open>Mutual exclusion: of the code between locking and unlocking \<open>lock\<close> at most one thread is
  in it, and when one is, the mutex is held by it.\<close>

theorem pool_mutex:
  assumes "pool_reach s" "the_pool s = Some p"
    and "t < length (pcs s)" "u < length (pcs s)" "holds (pcs s ! t)" "holds (pcs s ! u)"
  shows "t = u \<and> lock p = M_held t"
proof -
  note held = core_facts(7) [OF reach_core(1) [OF assms(1,2)]]
  from held [OF assms(3,5)] held [OF assms(4,6)] show ?thesis by simp
qed

text \<open>The same run stopped while the client holds the lock.\<close>

definition locked_end :: psys where
  "locked_end = \<lparr>the_pool = Some ((demo_pool 1 2 4)\<lparr>lock := M_held 0\<rparr>),
     pcs = [A_shut \<lparr>tfunction = 3, targ = 4\<rparr>, W_lock, M_loop], added = [], taken = [], finished = [], dying = None\<rparr>"

lemma locked_end_reach: "pool_reach locked_end"
proof (rule demo_reach [where mn = 1 and mx = 2 and qmx = 4])
  show "run pool_step [Start_add 0 \<lparr>tfunction = 3, targ = 4\<rparr>, Step 0 None [], Step 0 None []]
      (start_state (demo_pool 1 2 4) 0) = Some locked_end"
    by code_simp
qed auto

theorem pool_mutex_witness: "\<exists>p. the_pool locked_end = Some p \<and> lock p = M_held 0"
  using pool_mutex [OF locked_end_reach, where t = 0 and u = 0] by (auto simp: locked_end_def)

text \<open>C8. The counters: \<open>busy_thr_num\<close> is the number of workers between its increment and its decrement,
  \<open>live_thr_num\<close> the number of workers that have not ended by trimming; the live count stays between
  the minimum and the maximum and the busy count between 0 and the live count.\<close>

theorem pool_counters:
  assumes "pool_reach s" "the_pool s = Some p"
  shows "busy_thr_num p = int (length (filter busy (pcs s))) \<and> live_thr_num p = int (length (filter counted (pcs s)))
    \<and> 0 \<le> busy_thr_num p \<and> busy_thr_num p \<le> live_thr_num p
    \<and> min_thr_num p \<le> live_thr_num p \<and> live_thr_num p \<le> max_thr_num p"
proof -
  have "busy_thr_num p = cnt busy (pcs s)" "live_thr_num p = cnt counted (pcs s)" "thr_ok p"
    using reach_core(1) [OF assms] by (auto simp: core_inv_def)
  moreover have "cnt busy (pcs s) \<le> cnt counted (pcs s)"
    by (rule cnt_mono) (metis busy.elims(2) counted.simps(10,11))
  ultimately show ?thesis using cnt_nonneg [of busy "pcs s"]
    by (auto simp: cnt_length thr_ok_def split: arr.splits)
qed

theorem pool_counters_witness: "\<exists>p. the_pool demo_end = Some p \<and> busy_thr_num p = 1 \<and> live_thr_num p = 1"
  using pool_counters [OF demo_end_reach] by (simp add: demo_end_def)

text \<open>C7. The struct keeps its shape: in every reachable state until \<open>threadpool_free\<close> starts to delete the arrays (it
  does so, and nulls them, before it takes the lock) both arrays are allocated and as long as \<open>queue_max_size\<close> and \<open>max_thr_num\<close> say, the two indices into the ring and its size are in
  range and agree, and the mutex is initialised and free or held by a thread that exists and is
  between its lock and its unlock; nobody else is.\<close>

theorem pool_well_typed:
  assumes "pool_reach s" "the_pool s = Some p"
  shows "(\<exists>q ts. task_queue p = Arr q \<and> threads p = Arr ts \<and> int (length q) = queue_max_size p \<and> int (length ts) = max_thr_num p)
    \<and> 0 \<le> queue_front p \<and> queue_front p < queue_max_size p \<and> 0 \<le> queue_rear p \<and> queue_rear p < queue_max_size p
    \<and> 0 \<le> queue_size p \<and> queue_size p \<le> queue_max_size p
    \<and> (queue_front p + queue_size p) mod queue_max_size p = queue_rear p
    \<and> (if list_ex holds (pcs s) then \<exists>t<length (pcs s). lock p = M_held t \<and> filter holds (pcs s) = [pcs s ! t] else lock p = M_free)"
proof -
  note c = reach_core(1) [OF assms]
  then have li: "lock_inv p (pcs s)" and th: "thr_ok p" and "ring_ok p" by (auto simp: core_inv_def)
  from this(3) obtain q where q: "task_queue p = Arr q" "int (length q) = queue_max_size p" "0 < queue_max_size p"
    "0 \<le> queue_front p" "queue_front p < queue_max_size p" "0 \<le> queue_size p" "queue_size p \<le> queue_max_size p"
    "queue_rear p = (queue_front p + queue_size p) mod queue_max_size p" by (rule ring_okE) auto
  obtain ts where ts: "threads p = Arr ts" "int (length ts) = max_thr_num p"
    using th by (auto simp: thr_ok_def split: arr.splits)
  have "if list_ex holds (pcs s) then \<exists>t<length (pcs s). lock p = M_held t \<and> filter holds (pcs s) = [pcs s ! t] else lock p = M_free"
    using li by (rule lock_shape)
  with q ts show ?thesis by auto
qed

theorem pool_well_typed_witness: "\<exists>p. the_pool locked_end = Some p \<and> filter holds (pcs locked_end) = [pcs locked_end ! 0]"
  using pool_well_typed [OF locked_end_reach] by (auto simp: locked_end_def)

text \<open>C3. Memory safety until the pool is freed: in a reachable state in which \<open>threadpool_free\<close> has not begun to take
  the struct apart, a step of a client in \<open>threadpool_add\<close>, of a worker or of the manager never faults: no access
  out of the arrays, no division by zero, no mutex unlocked by a thread that does not hold it. So such a step can
  only fault after the first, unlocked deletion (Pool\_Progress runs a schedule in which one does).\<close>

theorem pool_no_fault:
  assumes "pool_reach s" "the_pool s = Some p" "t < length (pcs s)" "\<not> is_destroy (pcs s ! t)"
  shows "pool_step (Step t w z) s \<noteq> Some (Inl f)"
  using live_step_ok [OF pool.inv_reach [OF assms(1)] assms(2-4)] assms(3) by simp

theorem pool_no_fault_witness: "pool_step (Step 2 None []) demo_end \<noteq> Some (Inl Use_after_free)"
  using pool_no_fault [OF demo_end_reach, of _ 2 None "[]" Use_after_free] by (simp add: demo_end_def)

text \<open>C2. The concurrent pool implements an atomic bounded queue: every reachable state, read as its
  capacity and its list of queued tasks, is reachable in the abstract queue, whose only steps append a
  task where there is room, remove the first task, and delete the queue.\<close>

theorem pool_refines_queue:
  assumes "pool_reach s"
  shows "reach queue_init queue_step (pool_abs s)"
  using pool_queue_ref.reach_abs [OF assms] .

theorem pool_refines_queue_witness:
  "reach queue_init queue_step (Some (4, [\<lparr>tfunction = 3, targ = 5\<rparr>]))"
  using pool_refines_queue [OF demo_end_reach]
  by (simp add: demo_end_def pool_abs_def pool_tasks_def ring_list_def demo_pool_def)

end
