(* ===== verification/Pool_Progress.thy ===== *)
theory Pool_Progress
  imports Pool_Theorems
begin

text \<open>
  Progress of the thread pool of socket/thread_Pool/main.cpp, and where it fails: the lock is given
  back in a few steps and producers wait only for room; but a task can be stranded by the way threads
  are trimmed, and destroying the pool can free it under a worker or wait for ever. Each failure is
  a schedule that is run.
\<close>

section \<open>The lock is given back\<close>

fun hold_rank :: "pc \<Rightarrow> nat" where
  "hold_rank (A_put k) = 1" | "hold_rank (A_shut k) = 2" | "hold_rank (A_test k) = 3"
| "hold_rank W_take = 1" | "hold_rank W_park = 1" | "hold_rank W_shut = 2" | "hold_rank W_test = 3"
| "hold_rank W_woken = 4" | "hold_rank c = 0"

lemma wake_possible: "\<exists>w cs'. wake_worker w cs = Some cs'"
proof (cases "W_wait \<in> set cs")
  case True
  then obtain t where "t < length cs" "cs ! t = W_wait" by (auto simp: in_set_conv_nth)
  then have "wake_worker (Some t) cs = Some (cs[t := W_wake])" by (simp add: wake_worker_def)
  then show ?thesis by blast
next
  case False
  then have "wake_worker None cs = Some cs" by (simp add: wake_worker_def)
  then show ?thesis by blast
qed

lemma pcs_goto [simp]: "pcs (goto t c s) = (pcs s)[t := c]"
  by (simp add: goto_def)

text \<open>The holder can move, and either gives the lock back or gets closer to that.\<close>

lemma holder_step:
  assumes "sys_inv s" "the_pool s = Some p" "t < length (pcs s)" "holds (pcs s ! t)"
  shows "\<exists>w s' p'. pool_step (Step t w []) s = Some (Inr s') \<and> the_pool s' = Some p' \<and> t < length (pcs s')
    \<and> (if holds (pcs s' ! t) then hold_rank (pcs s' ! t) < hold_rank (pcs s ! t) else lock p' = M_free)"
proof -
  have ci: "core_inv p (pcs s) (added s) (taken s)" using assms(1,2) by (auto simp: sys_inv_def)
  then have r: "ring_ok p" by (simp add: core_inv_def)
  have l: "lock p = M_held t" using core_facts(7) [OF ci assms(3,4)] .
  have rl: "release t q = Inr (q\<lparr>lock := M_free\<rparr>)" if "lock q = M_held t" for q :: threadpool_t
    using that by (simp add: release_def)
  obtain q where q: "task_queue p = Arr q" using r by (rule ring_okE)
  have woken: "lock (snd (worker_woken p)) = lock p"
    by (auto simp: worker_woken_def Let_def)
  note [simp] = thread_step_def on_pool_def pool_thread_def rl l assms(2,3)
  show ?thesis
  proof (cases "pcs s ! t")
    case (A_put k)
    obtain w cs' where w: "wake_worker w (pcs s) = Some cs'" using wake_possible by blast
    then have "length cs' = length (pcs s)"
      by (metis wake_worker_erase length_map)
    with A_put w show ?thesis using add_put_eq [OF r q] by (intro exI [of _ w]) simp
  next
    case W_take
    then show ?thesis using worker_take_eq [OF r q] by simp
  next
    case W_woken
    with woken show ?thesis by (cases "worker_woken p") (auto split: bool.splits)
  qed (use assms(4) in auto)
qed

lemma holder_run:
  assumes "sys_inv s" "the_pool s = Some p" "t < length (pcs s)" "holds (pcs s ! t)" "hold_rank (pcs s ! t) \<le> n"
  shows "\<exists>ws s' p'. length ws \<le> n \<and> run pool_step (map (\<lambda>w. Step t w []) ws) s = Some s'
    \<and> the_pool s' = Some p' \<and> lock p' = M_free"
  using assms
proof (induction n arbitrary: s p)
  case 0
  then show ?case by (cases "pcs s ! t") auto
next
  case (Suc n)
  from holder_step [OF Suc.prems(1-4)] obtain w s' p' where st: "pool_step (Step t w []) s = Some (Inr s')"
    "the_pool s' = Some p'" "t < length (pcs s')"
    "if holds (pcs s' ! t) then hold_rank (pcs s' ! t) < hold_rank (pcs s ! t) else lock p' = M_free"
    by blast
  show ?case
  proof (cases "holds (pcs s' ! t)")
    case True
    have "sys_inv s'" by (rule pool.inv_step [OF Suc.prems(1)]) (unfold fires_def, rule st(1))
    from Suc.IH [OF this st(2,3) True] st(4) True Suc.prems(5) obtain ws u q where
      "length ws \<le> n" "run pool_step (map (\<lambda>w. Step t w []) ws) s' = Some u" "the_pool u = Some q" "lock q = M_free"
      by auto
    with st(1) show ?thesis by (intro exI [of _ "w # ws"]) auto
  next
    case False
    with st show ?thesis by (intro exI [of _ "[w]"]) auto
  qed
qed

text \<open>C6. The lock is never held for long: from every reachable state before \<open>threadpool_free\<close> starts to take the pool
  apart in which a thread holds \<open>lock\<close>, at most four steps of that thread alone, none of which can be blocked or
  fault, give it back. (\<open>threadpool_free\<close> itself, once it has deleted the arrays, takes the lock and destroys it.)\<close>

theorem lock_given_back:
  assumes "pool_reach s" "the_pool s = Some p" "lock p = M_held t"
  shows "\<exists>ws s' p'. length ws \<le> 4 \<and> run pool_step (map (\<lambda>w. Step t w []) ws) s = Some s'
    \<and> the_pool s' = Some p' \<and> lock p' = M_free"
proof -
  have "t < length (pcs s) \<and> holds (pcs s ! t)"
    using reach_core(1) [OF assms(1,2)] assms(3) by (auto simp: core_inv_def lock_inv_def)
  moreover have "hold_rank c \<le> 4" for c by (cases c) auto
  ultimately show ?thesis using holder_run [OF pool.inv_reach [OF assms(1)] assms(2)] by blast
qed

theorem lock_given_back_witness:
  "\<exists>ws s' p'. length ws \<le> 4 \<and> run pool_step (map (\<lambda>w. Step 0 w []) ws) locked_end = Some s'
    \<and> the_pool s' = Some p' \<and> lock p' = M_free"
  by (rule lock_given_back [OF locked_end_reach]) (auto simp: locked_end_def)

section \<open>Producers are not left waiting\<close>

fun waits_for_room :: "pc \<Rightarrow> bool" where
  "waits_for_room (A_wait k) = True" | "waits_for_room c = False"

definition some_wait :: "pc list \<Rightarrow> bool" where
  "some_wait cs \<longleftrightarrow> (\<exists>c\<in>set cs. waits_for_room c)"

definition room_inv :: "psys \<Rightarrow> bool" where
  "room_inv s \<longleftrightarrow> sys_inv s \<and> (\<forall>p. the_pool s = Some p \<longrightarrow> some_wait (pcs s) \<longrightarrow> queue_size p = queue_max_size p)"

lemma adjust_grow_size:
  "adjust_grow kl i p = Inr (n, p') \<Longrightarrow> queue_size p' = queue_size p \<and> queue_max_size p' = queue_max_size p"
  using arg_cong [OF grow_loop_frame [of kl i 0 0 p n p' 0 Null], of queue_size] adjust_grow_cap [of kl i p n p']
  by (simp add: adjust_grow_def)

lemma worker_woken_size:
  "worker_woken p = (e, p') \<Longrightarrow> queue_size p' = queue_size p \<and> queue_max_size p' = queue_max_size p"
  by (auto simp: worker_woken_def Let_def split: if_splits)

lemma some_wait_simps [simp]:
  "some_wait (wake_workers cs) = some_wait cs" "\<not> some_wait (wake_adders cs)"
  "some_wait (cs @ replicate n W_lock) = some_wait cs"
  by (auto simp: some_wait_def wake_workers_def wake_adders_def split: pc.splits)

lemma some_wait_update: "some_wait (cs[t := c]) \<Longrightarrow> some_wait cs \<or> waits_for_room c"
  unfolding some_wait_def using set_update_subset_insert [of cs t c] by fastforce

lemma wake_worker_wait: "wake_worker w cs = Some cs' \<Longrightarrow> some_wait cs' \<Longrightarrow> some_wait cs"
  by (auto simp: wake_worker_def split: option.splits if_splits dest: some_wait_update)

lemma room_thread_step:
  assumes "thread_step t w z c s = Some (Inr s')" "the_pool s = Some p" "the_pool s' = Some p'"
    and "some_wait (pcs s) \<Longrightarrow> queue_size p = queue_max_size p" "knows p c" "some_wait (pcs s')"
  shows "queue_size p' = queue_max_size p'"
proof (cases c)
  case (M_signal n)
  with assms show ?thesis
    by (cases n) (auto simp: thread_step_def on_pool_def pool_thread_def split: option.splits
      dest!: some_wait_update wake_worker_wait)
qed (use assms in \<open>auto simp: thread_step_def on_pool_def pool_thread_def critical_def adjust_shrink_def add_guard_def
      dest!: some_wait_update wake_worker_wait acquireE releaseE
        worker_woken_size adjust_grow_size
      split: option.splits if_splits sum.splits fault.splits prod.splits bool.splits arr.splits\<close>)

lemma room_step: "room_inv s \<Longrightarrow> pool_step l s = Some (Inr s') \<Longrightarrow> room_inv s'"
proof -
  assume i: "room_inv s" and st: "pool_step l s = Some (Inr s')"
  have inv: "sys_inv s'" by (rule pool.inv_step) (use i st in \<open>auto simp: room_inv_def fires_def\<close>)
  have "queue_size p' = queue_max_size p'" if p': "the_pool s' = Some p'" and w: "some_wait (pcs s')" for p'
  proof -
    obtain p where p: "the_pool s = Some p" using deleted_step [OF st] p' by fastforce
    with i have ci: "core_inv p (pcs s) (added s) (taken s)"
      and full: "some_wait (pcs s) \<Longrightarrow> queue_size p = queue_max_size p"
      by (auto simp: room_inv_def sys_inv_def)
    show ?thesis
    proof (cases l)
      case (Step t w z)
      with st have "t < length (pcs s)" "thread_step t w z (pcs s ! t) s = Some (Inr s')"
        by (auto split: if_splits)
      with room_thread_step [OF _ p p' full _ w] core_facts(4) [OF ci] show ?thesis by blast
    qed (use st p p' w full in \<open>auto split: if_splits pc.splits dest!: some_wait_update\<close>)
  qed
  with inv show ?thesis by (simp add: room_inv_def)
qed

lemma room_start: "init_sys s \<Longrightarrow> room_inv s"
proof -
  assume i: "init_sys s"
  then have "sys_inv s" by (rule pool.inv_init)
  moreover have "\<not> some_wait (pcs s)"
    using i by (auto simp: init_sys_def start_state_def some_wait_def)
  ultimately show ?thesis by (simp add: room_inv_def)
qed

interpretation producers: inductive_invariant init_sys "fires pool_step" room_inv
  by unfold_locales (auto simp: fires_def intro: room_start room_step)

text \<open>No lost wake-up for producers: in a reachable state a client waits in
  \<open>pthread_cond_wait(queue_not_full)\<close> only while the queue is full; every task taken wakes all of
  them.\<close>

theorem producer_waits_only_when_full:
  assumes "pool_reach s" "the_pool s = Some p" "t < length (pcs s)" "pcs s ! t = A_wait k"
  shows "queue_size p = queue_max_size p"
proof -
  have "some_wait (pcs s)" unfolding some_wait_def using assms(3,4) nth_mem by (metis waits_for_room.simps(1))
  with producers.inv_reach [OF assms(1)] assms(2) show ?thesis by (simp add: room_inv_def)
qed

text \<open>Room for one task; the client adds one and waits for room for the second.\<close>

definition full_end :: psys where
  "full_end = \<lparr>the_pool = Some ((demo_pool 1 2 1)\<lparr>task_queue := Arr [\<lparr>tfunction = 3, targ = 4\<rparr>], queue_size := 1\<rparr>),
     pcs = [A_wait \<lparr>tfunction = 3, targ = 5\<rparr>, W_lock, M_loop], added = [\<lparr>tfunction = 3, targ = 4\<rparr>], taken = [], finished = [], dying = None\<rparr>"

lemma full_end_reach: "pool_reach full_end"
proof (rule demo_reach [where mn = 1 and mx = 2 and qmx = 1])
  show "run pool_step [Start_add 0 \<lparr>tfunction = 3, targ = 4\<rparr>, Step 0 None [], Step 0 None [], Step 0 None [], Step 0 None [],
      Start_add 0 \<lparr>tfunction = 3, targ = 5\<rparr>, Step 0 None [], Step 0 None []]
      (start_state (demo_pool 1 2 1) 0) = Some full_end"
    by code_simp
qed auto

theorem producer_waits_only_when_full_witness:
  "\<exists>p. the_pool full_end = Some p \<and> queue_size p = queue_max_size p"
  using producer_waits_only_when_full [OF full_end_reach, where t = 0] by (simp add: full_end_def)


section \<open>Schedules that go wrong\<close>

text \<open>
  Thread ids in the schedules: 0 is \<open>main\<close>, 1 the first worker, 2 the manager, 3 the worker the manager
  creates. The step of a thread that has nothing to choose is \<open>go\<close>.
\<close>

definition go :: "nat \<Rightarrow> label" where "go t = Step t None []"

definition burst :: "nat \<Rightarrow> nat \<Rightarrow> label list" where
  "burst t n = replicate n (go t)"

definition demo_task :: "threadpool_task_t" where "demo_task = \<lparr>tfunction = 3, targ = 4\<rparr>"

text \<open>Main adds ten tasks, the manager creates a worker, sees it idle and wishes ten exits.\<close>

definition stranding :: "label list" where
  "stranding =
     concat (replicate 10 (Start_add 0 demo_task # burst 0 4))
     @ burst 2 6 @ burst 2 5 @ burst 2 11 @ [go 2]
     @ concat (replicate 10 (burst 1 7)) @ burst 1 3 @ burst 3 3
     @ Start_add 0 demo_task # burst 0 3 @ [Step 0 (Some 1) []] @ burst 1 2"

definition stranded_end :: psys where
  "stranded_end =
     \<lparr>the_pool = Some ((demo_pool 1 2 10)\<lparr>threads := Arr [1, 3], task_queue := Arr (replicate 10 demo_task),
        wait_exit_thr_num := 9, queue_rear := 1, queue_size := 1\<rparr>),
      pcs = [Idle, W_left, M_loop, W_wait], added = replicate 11 demo_task, taken = replicate 10 demo_task,
      finished = replicate 10 demo_task, dying = None\<rparr>"

lemma stranded_run: "run pool_step stranding (start_state (demo_pool 1 2 10) 0) = Some stranded_end"
  by code_simp

lemma stranded_reach: "pool_reach stranded_end"
  by (rule demo_reach [OF _ _ _ stranded_run]) auto

text \<open>
  Threads that sleep: clients between calls, workers that wait or have ended, and a manager whose
  copies of the counters make it neither grow nor trim the pool.
\<close>

fun asleep :: "int \<Rightarrow> pc \<Rightarrow> bool" where
  "asleep mn Idle = True" | "asleep mn W_wait = True" | "asleep mn W_left = True"
| "asleep mn M_loop = True" | "asleep mn M_snap = True"
| "asleep mn (M_busy q l) = (q < MIN_WAIT_TASK_NUM \<and> l \<le> mn)"
| "asleep mn (M_decide q l b) = (q < MIN_WAIT_TASK_NUM \<and> l \<le> mn)"
| "asleep mn (M_shrink q l b) = (l \<le> mn)"
| "asleep mn c = False"

definition all_asleep :: "threadpool_t \<Rightarrow> psys \<Rightarrow> bool" where
  "all_asleep p s \<longleftrightarrow> the_pool s = Some p \<and> \<not> shutdown p \<and> queue_size p < MIN_WAIT_TASK_NUM
     \<and> live_thr_num p \<le> min_thr_num p \<and> (\<forall>c\<in>set (pcs s). asleep (min_thr_num p) c)"

fun is_step :: "label \<Rightarrow> bool" where
  "is_step (Step t w z) = True" | "is_step l = False"

lemma asleep_step:
  assumes "all_asleep p s" "pool_step (Step t w z) s = Some (Inr s')"
  shows "all_asleep p s' \<and> taken s' = taken s \<and> (W_wait \<in> set (pcs s) \<longrightarrow> W_wait \<in> set (pcs s'))"
proof -
  have t: "t < length (pcs s)" and st: "thread_step t w z (pcs s ! t) s = Some (Inr s')"
    using assms(2) by (auto split: if_splits)
  have c: "asleep (min_thr_num p) (pcs s ! t)"
    and p: "the_pool s = Some p" "\<not> shutdown p" "queue_size p < MIN_WAIT_TASK_NUM" "live_thr_num p \<le> min_thr_num p"
    using assms(1) t by (auto simp: all_asleep_def)
  have "s' = goto t (pcs s' ! t) s \<and> asleep (min_thr_num p) (pcs s' ! t) \<and> pcs s ! t \<noteq> W_wait"
  proof (cases "pcs s ! t")
    case M_snap
    with st p t show ?thesis by (simp add: thread_step_def on_pool_def pool_thread_def critical_def split: sum.splits fault.splits) auto
  next
    case (M_decide q l b)
    with st p t c show ?thesis by (simp add: thread_step_def on_pool_def pool_thread_def should_grow_def) auto
  next
    case (M_shrink q l b)
    with st p t c show ?thesis by (simp add: thread_step_def on_pool_def pool_thread_def should_shrink_def) auto
  qed (use st c p t in \<open>auto simp: thread_step_def on_pool_def pool_thread_def\<close>)
  then obtain c' where s': "s' = goto t c' s" "asleep (min_thr_num p) c'" "pcs s ! t \<noteq> W_wait" by blast
  have "\<forall>d\<in>set ((pcs s)[t := c']). asleep (min_thr_num p) d"
    using assms(1) s'(2) set_update_subset_insert [of "pcs s" t c'] by (auto simp: all_asleep_def)
  moreover have "W_wait \<in> set ((pcs s)[t := c'])" if "W_wait \<in> set (pcs s)"
    using that s'(3) t by (metis in_set_conv_nth length_list_update nth_list_update_neq)
  ultimately show ?thesis using assms(1) s'(1) by (auto simp: all_asleep_def)
qed

lemma asleep_run:
  "\<forall>l\<in>set ls. is_step l \<Longrightarrow> all_asleep p s \<Longrightarrow> run pool_step ls s = Some s' \<Longrightarrow>
     all_asleep p s' \<and> taken s' = taken s \<and> (W_wait \<in> set (pcs s) \<longrightarrow> W_wait \<in> set (pcs s'))"
proof (induction ls arbitrary: s)
  case (Cons l ls)
  then obtain t w z u where "l = Step t w z" "pool_step l s = Some (Inr u)" "run pool_step ls u = Some s'"
    by (cases l) (auto simp del: pool_step.simps split: option.splits sum.splits)
  with Cons.IH [of u] Cons.prems(1,2) asleep_step [of p s t w z u] show ?case by auto
qed simp

text \<open>C9. A task can be stranded: a schedule of 156 steps of a pool made by \<open>threadpool_create(1, 2, 10)\<close>
  reaches a state with one task queued and a worker waiting in which no step of any thread, in any
  number and order, makes a worker take the task; only another add, a destroy or a spurious wake-up
  can. The signal of \<open>threadpool_add\<close> went to a worker that used it to end itself.\<close>

theorem task_stranded:
  assumes "\<forall>l\<in>set ls. is_step l" "run pool_step ls stranded_end = Some s"
  shows "pool_reach stranded_end \<and> W_wait \<in> set (pcs s) \<and> taken s = taken stranded_end
    \<and> (\<exists>p. the_pool stranded_end = Some p \<and> the_pool s = Some p \<and> pool_tasks p = [demo_task] \<and> \<not> shutdown p)"
proof -
  obtain p where p: "the_pool stranded_end = Some p" by (simp add: stranded_end_def)
  have "pool_tasks (the (the_pool stranded_end)) = [demo_task]" by code_simp
  then have "pool_tasks p = [demo_task]" using p by simp
  moreover have "all_asleep p stranded_end"
    using p by (auto simp: all_asleep_def stranded_end_def demo_pool_def MIN_WAIT_TASK_NUM_def)
  moreover have "W_wait \<in> set (pcs stranded_end)" by (simp add: stranded_end_def)
  ultimately show ?thesis
    using asleep_run [OF assms(1) _ assms(2), of p] p stranded_reach by (simp add: all_asleep_def)
qed

theorem task_stranded_witness: "\<exists>s. run pool_step (burst 2 4) stranded_end = Some s \<and> W_wait \<in> set (pcs s)"
proof -
  have "run pool_step (burst 2 4) stranded_end = Some (stranded_end\<lparr>pcs := [Idle, W_left, M_shrink 1 1 0, W_wait]\<rparr>)"
    by code_simp
  moreover have "\<forall>l\<in>set (burst 2 4). is_step l" by (simp add: burst_def go_def)
  ultimately show ?thesis using task_stranded [of "burst 2 4"] by blast
qed

definition after_free :: psys where
  "after_free = stranded_end\<lparr>the_pool := None, pcs := [Idle, W_left, M_gone, W_wake]\<rparr>"

lemma destroy_run: "run pool_step ([Start_destroy 0, go 0, go 2] @ burst 0 8) stranded_end = Some after_free"
  by code_simp

lemma after_free_reach: "pool_reach after_free"
  by (rule run_reach [OF destroy_run stranded_reach])

text \<open>C10. \<open>threadpool_destory\<close> joins only the first \<open>live_thr_num\<close> entries of the thread array, which after
  growing and trimming need not be the threads that are left: a schedule reaches a state in which the
  pool is freed and a worker is about to use it.\<close>

theorem destroy_use_after_free:
  "pool_reach after_free \<and> pool_step (Step 3 None []) after_free = Some (Inl Use_after_free)"
  using after_free_reach by (simp add: after_free_def stranded_end_def thread_step_def on_pool_def)

text \<open>
  \<open>threadpool_free\<close> deletes the arrays before it asks for the lock: in the same run the worker can hold the lock and be
  about to take the queued task when the queue is deleted; its next step follows the null pointer.
\<close>

definition torn_end :: psys where
  "torn_end = stranded_end\<lparr>the_pool := None, pcs := [D_free_threads, W_left, M_gone, W_take],
     dying := Some ((demo_pool 1 2 10)\<lparr>threads := Arr [1, 3], task_queue := Null, wait_exit_thr_num := 8,
        queue_rear := 1, queue_size := 1, shutdown := True, lock := M_held 3\<rparr>)\<rparr>"

lemma torn_run:
  "run pool_step (Spurious 3 # burst 3 4 @ [Start_destroy 0, go 0, go 2] @ burst 0 6) stranded_end = Some torn_end"
  by code_simp

lemma free_before_lock:
  "pool_reach torn_end \<and> (\<exists>p. dying torn_end = Some p \<and> lock p = M_held 3)
     \<and> pool_step (Step 3 None []) torn_end = Some (Inl Null_deref)"
proof -
  have "pool_reach torn_end" by (rule run_reach [OF torn_run stranded_reach])
  moreover have "pool_step (Step 3 None []) torn_end = Some (Inl Null_deref)" by code_simp
  ultimately show ?thesis by (simp add: torn_end_def)
qed

text \<open>Left alone, the three steps do what \<open>threadpool_free\<close> does as a whole.\<close>

lemma free_steps:
  assumes "the_pool s = Some p" "t < length (pcs s)" "pcs s ! t = D_free"
    and "threads p \<noteq> Null" "threadpool_free t (Some p) = Inr (r, po)"
  shows "\<exists>s'. run pool_step (replicate 3 (Step t w z)) s = Some s' \<and> the_pool s' = po \<and> dying s' = None \<and> pcs s' ! t = Idle"
proof -
  from assms(5) obtain q where q: "free_queue p = Inr q" "threads q = threads p" and po: "po = None"
    and "\<exists>q'. free_threads t q = Inr q'"
    by (cases "free_queue p") (auto simp: threadpool_free_def free_queue_def split: arr.splits)
  then obtain ts q' where "threads q = Arr ts" "free_locks t (q\<lparr>threads := Null\<rparr>) = Inr q'"
    using assms(4) by (auto simp: free_threads_def split: arr.splits)
  with assms(1-3) q(1) po show ?thesis
    by (simp add: numeral_3_eq_3 thread_step_def on_pool_def pool_thread_def still_dying_def state_simps)
qed

definition hang_end :: psys where
  "hang_end = \<lparr>the_pool = Some ((demo_pool 1 2 4)\<lparr>shutdown := True\<rparr>), pcs = [D_join 0, W_wait, M_gone],
     added = [], taken = [], finished = [], dying = None\<rparr>"

lemma hang_reach: "pool_reach hang_end"
proof (rule demo_reach [where mn = 1 and mx = 2 and qmx = 4])
  show "run pool_step (burst 1 2 @ [Start_destroy 0, go 0, go 2, go 0, go 0, go 1, go 0])
      (start_state (demo_pool 1 2 4) 0) = Some hang_end"
    by code_simp
qed auto

text \<open>C11. \<open>threadpool_destory\<close> sets \<open>shutdown\<close> without the lock, so a worker that has just tested it can
  start to wait after the broadcasts: a schedule reaches a state in which the destroying thread waits
  for that worker to end and no step of any thread is enabled.\<close>

theorem destroy_deadlock: "pool_reach hang_end \<and> pool_step (Step t w z) hang_end = None"
proof -
  have "t = 0 \<or> t = 1 \<or> t = 2 \<or> \<not> t < length (pcs hang_end)" by (auto simp: hang_end_def)
  then show ?thesis using hang_reach
    by (auto simp: hang_end_def thread_step_def on_pool_def pool_thread_def demo_pool_def ended_def)
qed

end
