(* ===== verification/Reactor.thy ===== *)
theory Reactor
  imports Prelude
begin

text \<open>
  The echo server of socket/epoll/Reactor/main.cpp: the table \<open>gevents\<close> of event structs, the
  interest list of the epoll instance, the three callbacks, the timeout scan and the dispatch loop.
  What a system call returns is an input; what it does to the open descriptors and the interest list
  is in the state.
\<close>

unbundle bit_operations_syntax

section \<open>The event table and the kernel\<close>

type_synonym byte = "8 word"

definition MAX_EVENTS :: nat where "MAX_EVENTS = 1024"
definition BUFLEN :: nat where "BUFLEN = 4096"

definition EPOLLIN :: "32 word" where "EPOLLIN = 1"
definition EPOLLOUT :: "32 word" where "EPOLLOUT = 4"
definition EPOLLERR :: "32 word" where "EPOLLERR = 8"
definition EPOLLHUP :: "32 word" where "EPOLLHUP = 16"

datatype handler = No_handler | Recvdata | Senddata | Acceptconn

text \<open>A pointer to an event struct is its index in \<open>gevents\<close>.\<close>

record myevent_s =
  ev_fd :: int
  ev_events :: "32 word"
  ev_arg :: nat
  ev_call_back :: handler
  ev_status :: int
  ev_buf :: "byte list"
  ev_len :: int
  ev_last_active :: int

text \<open>
  The globals of the program; the interest list, from descriptors to the events watched and the
  struct registered with them; the open descriptors; what \<open>send\<close> has sent, as a log. \<open>ctl_failed\<close> is ghost state:
  the structs for which \<open>eventadd\<close> printed last that it had failed.
\<close>

record reactor =
  gevents :: "myevent_s list"
  interest :: "int \<Rightarrow> (32 word \<times> nat) option"
  open_fds :: "int set"
  sent :: "(int \<times> byte list) list"
  checkpos :: nat
  ctl_failed :: "nat set"

definition put_ev :: "nat \<Rightarrow> myevent_s \<Rightarrow> reactor \<Rightarrow> reactor" where
  "put_ev i e s = s\<lparr>gevents := (gevents s)[i := e]\<rparr>"

text \<open>
  \<open>epoll_ctl\<close> refuses to add a descriptor that is not open or already there and to delete one that
  is not there; adding may also fail for want of memory or of watches, which is the environment's choice \<open>ok\<close>.
  \<open>close\<close> also takes the descriptor off the interest list.
\<close>

definition epoll_ctl_add :: "bool \<Rightarrow> int \<Rightarrow> 32 word \<Rightarrow> nat \<Rightarrow> reactor \<Rightarrow> int \<times> reactor" where
  "epoll_ctl_add ok f evs i s =
     (if ok \<and> f \<in> open_fds s \<and> interest s f = None then (0, s\<lparr>interest := (interest s)(f \<mapsto> (evs, i))\<rparr>) else (-1, s))"

definition epoll_ctl_del :: "int \<Rightarrow> reactor \<Rightarrow> reactor" where
  "epoll_ctl_del f s = (if f \<in> open_fds s then s\<lparr>interest := (interest s)(f := None)\<rparr> else s)"

definition close_fd :: "int \<Rightarrow> reactor \<Rightarrow> reactor" where
  "close_fd f s = s\<lparr>open_fds := open_fds s - {f}, interest := (interest s)(f := None)\<rparr>"

section \<open>eventset, eventadd, eventdel\<close>

definition eventset :: "nat \<Rightarrow> int \<Rightarrow> handler \<Rightarrow> int \<Rightarrow> reactor \<Rightarrow> reactor" where
  "eventset i f cb now s =
     put_ev i ((gevents s ! i)\<lparr>ev_fd := f, ev_arg := i, ev_events := 0, ev_call_back := cb,
       ev_buf := replicate BUFLEN 0, ev_len := 0, ev_last_active := now\<rparr>) s"

text \<open>
  \<open>op\<close> is set only for a struct that is not registered; passing it on unset is undefined. The status is set before
  the result of \<open>epoll_ctl\<close> is known, and a failure is only printed.
\<close>

definition eventadd :: "bool \<Rightarrow> 32 word \<Rightarrow> nat \<Rightarrow> reactor \<Rightarrow> reactor outcome" where
  "eventadd ok evs i s =
     (let e = (gevents s ! i)\<lparr>ev_events := evs\<rparr> in
      if ev_status e = 0
      then let (r, s) = epoll_ctl_add ok (ev_fd e) evs i (put_ev i (e\<lparr>ev_status := 1\<rparr>) s) in
        if r < 0 then Inr (s\<lparr>ctl_failed := insert i (ctl_failed s)\<rparr>)
        else Inr (s\<lparr>ctl_failed := ctl_failed s - {i}\<rparr>)
      else Inl Indeterminate)"

definition eventdel :: "nat \<Rightarrow> reactor \<Rightarrow> reactor" where
  "eventdel i s =
     (let e = gevents s ! i in
      if ev_status e \<noteq> 1 then s
      else epoll_ctl_del (ev_fd e) (put_ev i (e\<lparr>ev_status := 0\<rparr>) s))"

section \<open>The callbacks\<close>

text \<open>What the system calls of one callback return: \<open>accept\<close>, \<open>fcntl\<close>, \<open>recv\<close> with the bytes, \<open>send\<close>, \<open>time\<close>,
  and whether the \<open>epoll_ctl\<close> of its \<open>eventadd\<close> may succeed.\<close>

record io =
  io_accept :: int
  io_fcntl :: int
  io_recv :: int
  io_data :: "byte list"
  io_send :: int
  io_time :: int
  io_ctl :: bool

function find_free :: "nat \<Rightarrow> myevent_s list \<Rightarrow> nat" where
  "find_free i gs =
     (if i < MAX_EVENTS then (if ev_status (gs ! i) = 0 then i else find_free (i + 1) gs) else i)"
  by pat_completeness auto
termination by (relation "measure (\<lambda>(i, gs). MAX_EVENTS - i)") auto

declare find_free.simps [simp del]

text \<open>A full table is reported but not refused: the index is then \<open>MAX_EVENTS\<close>.\<close>

definition acceptconn :: "io \<Rightarrow> reactor \<Rightarrow> reactor outcome" where
  "acceptconn x s =
     (let cfd = io_accept x in
      if cfd = -1 then Inr s
      else
        let s1 = s\<lparr>open_fds := insert cfd (open_fds s)\<rparr>;
            i = find_free 0 (gevents s1) in
        if io_fcntl x < 0 then Inr s1
        else eventadd (io_ctl x) EPOLLIN i (eventset i cfd Recvdata (io_time x) s1))"

definition recvdata :: "int \<Rightarrow> nat \<Rightarrow> io \<Rightarrow> reactor \<Rightarrow> reactor outcome" where
  "recvdata f i x s =
     (let len = io_recv x;
          e = gevents s ! i;
          s1 = (if 0 < len then put_ev i (e\<lparr>ev_buf := take (nat len) (io_data x) @ drop (nat len) (ev_buf e)\<rparr>) s else s);
          s2 = eventdel i s1 in
      if 0 < len then
        let e = (gevents s2 ! i)\<lparr>ev_len := len\<rparr> in
        if nat len < BUFLEN
        then eventadd (io_ctl x) EPOLLOUT i (eventset i f Senddata (io_time x)
               (put_ev i (e\<lparr>ev_buf := (ev_buf e)[nat len := 0]\<rparr>) s2))
        else Inl Out_of_bounds
      else Inr (close_fd (ev_fd (gevents s2 ! i)) s2))"

definition senddata :: "nat \<Rightarrow> io \<Rightarrow> reactor \<Rightarrow> reactor outcome" where
  "senddata i x s =
     (let e = gevents s ! i;
          len = io_send x;
          s1 = (if 0 < len then s\<lparr>sent := sent s @ [(ev_fd e, take (nat len) (ev_buf e))]\<rparr> else s);
          s2 = eventdel i s1 in
      if 0 < len then eventadd (io_ctl x) EPOLLIN i s2
      else Inr (close_fd (ev_fd (gevents s2 ! i)) s2))"

text \<open>Calling \<open>ev->call_back(ev->fd, events, ev->arg)\<close>.\<close>

definition call_back :: "nat \<Rightarrow> io \<Rightarrow> reactor \<Rightarrow> reactor outcome" where
  "call_back i x s =
     (let e = gevents s ! i in
      case ev_call_back e of
        No_handler \<Rightarrow> Inl Null_deref
      | Recvdata \<Rightarrow> recvdata (ev_fd e) (ev_arg e) x s
      | Senddata \<Rightarrow> senddata (ev_arg e) x s
      | Acceptconn \<Rightarrow> acceptconn x s)"

section \<open>initListenSocket and main\<close>

definition initListenSocket :: "bool \<Rightarrow> int \<Rightarrow> int \<Rightarrow> reactor \<Rightarrow> reactor outcome" where
  "initListenSocket ok lfd now s =
     eventadd ok EPOLLIN MAX_EVENTS (eventset MAX_EVENTS lfd Acceptconn now
       (s\<lparr>open_fds := insert lfd (open_fds s)\<rparr>))"

text \<open>Globals start zeroed.\<close>

definition zero_event :: myevent_s where
  "zero_event = \<lparr>ev_fd = 0, ev_events = 0, ev_arg = 0, ev_call_back = No_handler, ev_status = 0,
     ev_buf = replicate BUFLEN 0, ev_len = 0, ev_last_active = 0\<rparr>"

definition zero_reactor :: "int set \<Rightarrow> reactor" where
  "zero_reactor fds = \<lparr>gevents = replicate (MAX_EVENTS + 1) zero_event, interest = (\<lambda>f. None),
     open_fds = fds, sent = [], checkpos = 0, ctl_failed = {}\<rparr>"

text \<open>The timeout scan: one slot, and the loop over 100 slots that wraps before the listener's.\<close>

definition check_slot :: "int \<Rightarrow> nat \<Rightarrow> reactor \<Rightarrow> reactor" where
  "check_slot now i s =
     (let e = gevents s ! i in
      if ev_status e = 0 then s
      else if now - ev_last_active e \<ge> 60 then eventdel i (close_fd (ev_fd e) s)
      else s)"

fun scan :: "nat \<Rightarrow> int \<Rightarrow> reactor \<Rightarrow> reactor" where
  "scan 0 now s = s"
| "scan (Suc n) now s =
     (let c = (if checkpos s = MAX_EVENTS then 0 else checkpos s) in
      scan n now ((check_slot now c s)\<lparr>checkpos := c + 1\<rparr>))"

text \<open>One entry of the array \<open>epoll_wait\<close> fills: the events reported and the struct.\<close>

definition dispatch :: "32 word \<Rightarrow> nat \<Rightarrow> io \<Rightarrow> io \<Rightarrow> reactor \<Rightarrow> reactor outcome" where
  "dispatch m i x y s =
     obind (if m AND EPOLLIN \<noteq> 0 \<and> ev_events (gevents s ! i) AND EPOLLIN \<noteq> 0 then call_back i x s else Inr s)
       (\<lambda>s. if m AND EPOLLOUT \<noteq> 0 \<and> ev_events (gevents s ! i) AND EPOLLOUT \<noteq> 0 then call_back i y s else Inr s)"

text \<open>
  Where \<open>main\<close> is in its loop, and what happens next: the scan at a time, \<open>epoll_wait\<close> returning
  ready descriptors with their events (or an error), the next entry served, the loop closed.
\<close>

datatype phase = At_scan | At_wait | Serving "(32 word \<times> nat) list" | Stopped

datatype rlabel = Scan int | Wait "(int \<times> 32 word) list" | Wait_error | Serve io io | Again

record rsys = react :: reactor  phase :: phase

text \<open>
  \<open>epoll_wait\<close> reports each descriptor of the interest list at most once, with events it watches for,
  an error or a hang-up. \<open>accept\<close> returns -1 or a descriptor not yet open, \<open>recv\<close> at most as many
  bytes as it was given room for, \<open>send\<close> at most as many as it was given.
\<close>

definition wait_ok :: "reactor \<Rightarrow> (int \<times> 32 word) list \<Rightarrow> bool" where
  "wait_ok s fs \<longleftrightarrow> distinct (map fst fs) \<and>
     list_all (\<lambda>(f, m). case interest s f of None \<Rightarrow> False
       | Some (e, i) \<Rightarrow> m AND NOT (e OR EPOLLERR OR EPOLLHUP) = 0) fs"

definition io_ok :: "reactor \<Rightarrow> nat \<Rightarrow> io \<Rightarrow> bool" where
  "io_ok s i x \<longleftrightarrow> (io_accept x = -1 \<or> 0 \<le> io_accept x \<and> io_accept x \<notin> open_fds s)
     \<and> io_recv x \<le> int BUFLEN \<and> (0 < io_recv x \<longrightarrow> length (io_data x) = nat (io_recv x))
     \<and> io_send x \<le> ev_len (gevents s ! i)"

fun main_step :: "rlabel \<Rightarrow> rsys \<Rightarrow> rsys outcome option" where
  "main_step (Scan now) u =
     (if phase u = At_scan then Some (Inr (u\<lparr>react := scan 100 now (react u), phase := At_wait\<rparr>)) else None)"
| "main_step (Wait fs) u =
     (if phase u = At_wait \<and> wait_ok (react u) fs
      then Some (Inr (u\<lparr>phase := Serving (map (\<lambda>(f, m). (m, snd (the (interest (react u) f)))) fs)\<rparr>))
      else None)"
| "main_step Wait_error u = (if phase u = At_wait then Some (Inr (u\<lparr>phase := Stopped\<rparr>)) else None)"
| "main_step (Serve x y) u =
     (case phase u of
        Serving ((m, i) # rest) \<Rightarrow>
          if io_ok (react u) i x \<and> io_ok (react u) i y
          then Some (obind (dispatch m i x y (react u)) (\<lambda>s. Inr (u\<lparr>react := s, phase := Serving rest\<rparr>)))
          else None
      | _ \<Rightarrow> None)"
| "main_step Again u = (if phase u = Serving [] then Some (Inr (u\<lparr>phase := At_scan\<rparr>)) else None)"

definition init_reactor :: "rsys \<Rightarrow> bool" where
  "init_reactor u \<longleftrightarrow> (\<exists>fds lfd now ok s. 0 \<le> lfd \<and> lfd \<notin> fds
     \<and> initListenSocket ok lfd now (zero_reactor fds) = Inr s \<and> u = \<lparr>react = s, phase = At_scan\<rparr>)"

abbreviation reactor_reach :: "rsys \<Rightarrow> bool" where
  "reactor_reach \<equiv> reach init_reactor (fires main_step)"

end
