(* ===== verification/Reactor_Proofs.thy ===== *)
theory Reactor_Proofs
  imports Reactor
begin

text \<open>
  The invariant of the echo server's loop: the table and the interest list agree, every registered
  struct has its role, and the entries still to be served point to registered structs. Under it each
  callback is one of two changes of the table (\<open>drop_slot\<close>, \<open>use_slot\<close>), or faults in a known way.
\<close>

section \<open>The invariant of the table\<close>

definition registered :: "reactor \<Rightarrow> nat \<Rightarrow> bool" where
  "registered s i \<longleftrightarrow> ev_status (gevents s ! i) = 1"

definition role_ok :: "nat \<Rightarrow> myevent_s \<Rightarrow> bool" where
  "role_ok i e \<longleftrightarrow>
     (if i = MAX_EVENTS then ev_call_back e = Acceptconn \<and> ev_events e = EPOLLIN
      else ev_call_back e = Recvdata \<and> ev_events e = EPOLLIN
        \<or> ev_call_back e = Senddata \<and> ev_events e = EPOLLOUT \<and> ev_len e = 0)"

definition slot_ok :: "reactor \<Rightarrow> nat \<Rightarrow> bool" where
  "slot_ok s i \<longleftrightarrow> (let e = gevents s ! i in
     ev_status e = 0 \<or> ev_status e = 1 \<and> ev_arg e = i \<and> role_ok i e \<and> ev_fd e \<in> open_fds s
       \<and> interest s (ev_fd e) = (if i \<in> ctl_failed s then None else Some (ev_events e, i)))"

definition table_ok :: "reactor \<Rightarrow> bool" where
  "table_ok s \<longleftrightarrow> length (gevents s) = Suc MAX_EVENTS \<and> checkpos s \<le> MAX_EVENTS \<and> sent s = []
     \<and> (\<forall>i\<le>MAX_EVENTS. slot_ok s i) \<and> registered s MAX_EVENTS
     \<and> (\<forall>i\<le>MAX_EVENTS. \<forall>j\<le>MAX_EVENTS. registered s i \<and> registered s j \<and> ev_fd (gevents s ! i) = ev_fd (gevents s ! j) \<longrightarrow> i = j)
     \<and> (\<forall>f ev i. interest s f = Some (ev, i) \<longrightarrow> i \<le> MAX_EVENTS \<and> registered s i \<and> ev_fd (gevents s ! i) = f)"

text \<open>The two changes the callbacks make: a client's slot is given up, or (re)used for a descriptor.\<close>

definition drop_slot :: "nat \<Rightarrow> reactor \<Rightarrow> reactor" where
  "drop_slot i s = (let e = gevents s ! i in
     s\<lparr>gevents := (gevents s)[i := e\<lparr>ev_status := 0\<rparr>], interest := (interest s)(ev_fd e := None),
       open_fds := open_fds s - {ev_fd e}\<rparr>)"

definition use_slot :: "bool \<Rightarrow> nat \<Rightarrow> myevent_s \<Rightarrow> reactor \<Rightarrow> reactor" where
  "use_slot ok i e s =
     s\<lparr>gevents := (gevents s)[i := e], interest := (interest s)(ev_fd e := if ok then Some (ev_events e, i) else None),
       open_fds := insert (ev_fd e) (open_fds s), ctl_failed := (if ok then ctl_failed s - {i} else insert i (ctl_failed s))\<rparr>"

lemma table_ok_slot: "table_ok s \<Longrightarrow> i \<le> MAX_EVENTS \<Longrightarrow> slot_ok s i"
  unfolding table_ok_def by blast

lemma table_ok_facts:
  assumes "table_ok s"
  shows "length (gevents s) = Suc MAX_EVENTS" "checkpos s \<le> MAX_EVENTS" "sent s = []" "registered s MAX_EVENTS"
  using assms unfolding table_ok_def by blast+

lemma table_okI:
  assumes "length (gevents s) = Suc MAX_EVENTS" "checkpos s \<le> MAX_EVENTS" "sent s = []" "registered s MAX_EVENTS"
    and "\<And>i. i \<le> MAX_EVENTS \<Longrightarrow> slot_ok s i"
    and "\<And>i j. i \<le> MAX_EVENTS \<Longrightarrow> j \<le> MAX_EVENTS \<Longrightarrow> registered s i \<Longrightarrow> registered s j \<Longrightarrow>
           ev_fd (gevents s ! i) = ev_fd (gevents s ! j) \<Longrightarrow> i = j"
    and "\<And>f ev i. interest s f = Some (ev, i) \<Longrightarrow> i \<le> MAX_EVENTS \<and> registered s i \<and> ev_fd (gevents s ! i) = f"
  shows "table_ok s"
  unfolding table_ok_def using assms by blast

lemma table_ok_interest:
  "table_ok s \<Longrightarrow> interest s f = Some (ev, i) \<Longrightarrow>
     i \<le> MAX_EVENTS \<and> registered s i \<and> ev_fd (gevents s ! i) = f \<and> ev_events (gevents s ! i) = ev
       \<and> i \<notin> ctl_failed s"
proof -
  assume ok: "table_ok s" and it: "interest s f = Some (ev, i)"
  then have i: "i \<le> MAX_EVENTS" "registered s i" "ev_fd (gevents s ! i) = f"
    unfolding table_ok_def by blast+
  with table_ok_slot [OF ok i(1)] it show ?thesis by (auto simp: slot_ok_def registered_def Let_def split: if_splits)
qed

lemma registered_facts:
  assumes "table_ok s" "i \<le> MAX_EVENTS" "registered s i"
  shows "ev_arg (gevents s ! i) = i" "role_ok i (gevents s ! i)" "ev_fd (gevents s ! i) \<in> open_fds s"
    "interest s (ev_fd (gevents s ! i)) = (if i \<in> ctl_failed s then None else Some (ev_events (gevents s ! i), i))"
    "i < length (gevents s)"
proof -
  have "slot_ok s i" using assms(1,2) by (rule table_ok_slot)
  with assms(3) show "ev_arg (gevents s ! i) = i" "role_ok i (gevents s ! i)" "ev_fd (gevents s ! i) \<in> open_fds s"
    "interest s (ev_fd (gevents s ! i)) = (if i \<in> ctl_failed s then None else Some (ev_events (gevents s ! i), i))"
    by (simp_all add: slot_ok_def registered_def Let_def)
  show "i < length (gevents s)" using assms(2) table_ok_facts(1) [OF assms(1)] by simp
qed

text \<open>Two slots in use have different descriptors.\<close>

lemma registered_inj:
  assumes "table_ok s" "i \<le> MAX_EVENTS" "j \<le> MAX_EVENTS" "registered s i" "registered s j"
    and "ev_fd (gevents s ! i) = ev_fd (gevents s ! j)"
  shows "i = j"
  using assms unfolding table_ok_def by blast

lemma drop_slot_ok:
  assumes "table_ok s" "i < MAX_EVENTS" "registered s i"
  shows "table_ok (drop_slot i s)" "\<not> registered (drop_slot i s) i"
    "\<And>j. j \<noteq> i \<Longrightarrow> gevents (drop_slot i s) ! j = gevents s ! j"
proof -
  let ?e = "gevents s ! i" and ?s = "drop_slot i s"
  have i: "i \<le> MAX_EVENTS" "i < length (gevents s)" using assms(2) table_ok_facts(1) [OF assms(1)] by simp_all
  show other: "gevents ?s ! j = gevents s ! j" if "j \<noteq> i" for j
    using that by (simp add: drop_slot_def Let_def)
  show dropped: "\<not> registered ?s i" using i by (simp add: registered_def drop_slot_def Let_def)
  have "slot_ok ?s j" if j: "j \<le> MAX_EVENTS" for j
  proof (cases "j = i \<or> \<not> registered s j")
    case True
    then show ?thesis using dropped other [of j] table_ok_slot [OF assms(1) j] i
      by (cases "j = i") (auto simp: slot_ok_def registered_def drop_slot_def Let_def)
  next
    case False
    then have "ev_fd (gevents s ! j) \<noteq> ev_fd ?e"
      using registered_inj [OF assms(1) j i(1) _ assms(3)] by auto
    then show ?thesis using False other [of j] table_ok_slot [OF assms(1) j]
      by (simp add: slot_ok_def drop_slot_def Let_def)
  qed
  moreover have "k \<le> MAX_EVENTS \<and> registered ?s k \<and> ev_fd (gevents ?s ! k) = f"
    if "interest ?s f = Some (ev, k)" for f ev k
  proof -
    from that have f: "f \<noteq> ev_fd ?e" "interest s f = Some (ev, k)"
      by (auto simp: drop_slot_def Let_def split: if_splits)
    from table_ok_interest [OF assms(1) f(2)] f(1) have "k \<noteq> i" "k \<le> MAX_EVENTS" "registered s k" "ev_fd (gevents s ! k) = f"
      by auto
    with other [of k] show ?thesis by (simp add: registered_def)
  qed
  moreover have "registered ?s MAX_EVENTS"
    using assms(2) table_ok_facts(4) [OF assms(1)] other [of MAX_EVENTS] by (simp add: registered_def)
  moreover have "j = k" if "j \<le> MAX_EVENTS" "k \<le> MAX_EVENTS" "registered ?s j" "registered ?s k"
    "ev_fd (gevents ?s ! j) = ev_fd (gevents ?s ! k)" for j k
  proof -
    from that dropped have "j \<noteq> i" "k \<noteq> i" by auto
    with that other show ?thesis using registered_inj [OF assms(1) that(1,2)] by (simp add: registered_def)
  qed
  ultimately show "table_ok ?s"
    using table_ok_facts [OF assms(1)] by (intro table_okI) (simp_all add: drop_slot_def Let_def)
qed

lemma use_slot_ok:
  assumes "table_ok s" "i < MAX_EVENTS" "ev_status e = 1" "ev_arg e = i" "role_ok i e"
    and "if registered s i then ev_fd e = ev_fd (gevents s ! i) else ev_fd e \<notin> open_fds s"
  shows "table_ok (use_slot ok i e s)" "\<And>j. j \<noteq> i \<Longrightarrow> gevents (use_slot ok i e s) ! j = gevents s ! j"
proof -
  let ?s = "use_slot ok i e s"
  have i: "i \<le> MAX_EVENTS" "i < length (gevents s)" using assms(2) table_ok_facts(1) [OF assms(1)] by simp_all
  show other: "gevents ?s ! j = gevents s ! j" if "j \<noteq> i" for j
    using that by (simp add: use_slot_def)
  have this [simp]: "gevents ?s ! i = e" using i by (simp add: use_slot_def)
  have reg: "registered ?s i" using assms(3) by (simp add: registered_def)
  have apart: "ev_fd (gevents s ! j) \<noteq> ev_fd e" if "j \<le> MAX_EVENTS" "j \<noteq> i" "registered s j" for j
    using that registered_inj [OF assms(1) that(1) i(1) that(3)] registered_facts(3) [OF assms(1) that(1,3)] assms(6)
    by (auto split: if_splits)
  have "slot_ok ?s j" if j: "j \<le> MAX_EVENTS" for j
  proof (cases "j = i")
    case True
    then show ?thesis using assms(3-5) by (simp add: slot_ok_def Let_def) (simp add: use_slot_def)
  next
    case False
    then have "registered s j \<Longrightarrow> ev_fd (gevents s ! j) \<noteq> ev_fd e" using apart j by blast
    then show ?thesis using other [OF False] table_ok_slot [OF assms(1) j] False
      by (auto simp: slot_ok_def registered_def Let_def) (auto simp: use_slot_def split: if_splits)
  qed
  moreover have "k \<le> MAX_EVENTS \<and> registered ?s k \<and> ev_fd (gevents ?s ! k) = f"
    if "interest ?s f = Some (ev, k)" for f ev k
  proof (cases "f = ev_fd e")
    case True
    with that have "k = i" by (auto simp: use_slot_def split: if_splits)
    then show ?thesis using i reg True by simp
  next
    case False
    with that have f: "interest s f = Some (ev, k)" by (simp add: use_slot_def)
    show ?thesis
    proof (cases "k = i")
      case True
      with table_ok_interest [OF assms(1) f] False assms(6) show ?thesis by simp
    next
      case False
      with table_ok_interest [OF assms(1) f] other show ?thesis by (simp add: registered_def)
    qed
  qed
  moreover have "j = k" if "j \<le> MAX_EVENTS" "k \<le> MAX_EVENTS" "registered ?s j" "registered ?s k"
    "ev_fd (gevents ?s ! j) = ev_fd (gevents ?s ! k)" for j k
  proof -
    have r: "registered s l" if "registered ?s l" "l \<noteq> i" for l using that other by (simp add: registered_def)
    consider "j = i" "k = i" | "j = i" "k \<noteq> i" | "j \<noteq> i" "k = i" | "j \<noteq> i" "k \<noteq> i" by blast
    then show ?thesis
      using that r [of j] r [of k] apart [of j] apart [of k] other [of j] other [of k] registered_inj [OF assms(1) that(1,2)]
      by cases auto
  qed
  moreover have "registered ?s MAX_EVENTS"
    using assms(2) table_ok_facts(4) [OF assms(1)] other [of MAX_EVENTS] by (simp add: registered_def)
  ultimately show "table_ok ?s"
    using table_ok_facts [OF assms(1)] by (intro table_okI) (simp_all add: use_slot_def)
qed

section \<open>What the callbacks do to a well-formed table\<close>

lemma eventdel_eq:
  assumes "table_ok s" "i \<le> MAX_EVENTS" "registered s i"
  shows "eventdel i s = s\<lparr>gevents := (gevents s)[i := (gevents s ! i)\<lparr>ev_status := 0\<rparr>],
           interest := (interest s)(ev_fd (gevents s ! i) := None)\<rparr>"
  using registered_facts [OF assms] assms(3)
  by (simp add: eventdel_def registered_def Let_def epoll_ctl_del_def put_ev_def)

lemma find_free_props:
  "i \<le> MAX_EVENTS \<Longrightarrow> i \<le> find_free i gs \<and> find_free i gs \<le> MAX_EVENTS
     \<and> (find_free i gs < MAX_EVENTS \<longrightarrow> ev_status (gs ! find_free i gs) = 0)
     \<and> (\<forall>j. i \<le> j \<and> j < find_free i gs \<longrightarrow> ev_status (gs ! j) \<noteq> 0)"
proof (induction i gs rule: find_free.induct)
  case (1 i gs)
  show ?case
  proof (cases "i < MAX_EVENTS \<and> ev_status (gs ! i) \<noteq> 0")
    case True
    then have "find_free i gs = find_free (i + 1) gs" by (simp add: find_free.simps [of i])
    moreover from True "1.IH" have "i + 1 \<le> find_free (i + 1) gs \<and> find_free (i + 1) gs \<le> MAX_EVENTS
       \<and> (find_free (i + 1) gs < MAX_EVENTS \<longrightarrow> ev_status (gs ! find_free (i + 1) gs) = 0)
       \<and> (\<forall>j. i + 1 \<le> j \<and> j < find_free (i + 1) gs \<longrightarrow> ev_status (gs ! j) \<noteq> 0)" by simp
    moreover have "j = i \<or> i + 1 \<le> j" if "i \<le> j" for j using that by linarith
    ultimately show ?thesis using True by (metis add_leD1)
  next
    case False
    then have "find_free i gs = i" by (auto simp: find_free.simps [of i])
    with False "1.prems" show ?thesis by auto
  qed
qed

text \<open>The event struct after \<open>eventset\<close> and \<open>eventadd\<close>.\<close>

definition set_event :: "nat \<Rightarrow> int \<Rightarrow> handler \<Rightarrow> 32 word \<Rightarrow> int \<Rightarrow> myevent_s" where
  "set_event i f cb evs now = \<lparr>ev_fd = f, ev_events = evs, ev_arg = i, ev_call_back = cb, ev_status = 1,
     ev_buf = replicate BUFLEN 0, ev_len = 0, ev_last_active = now\<rparr>"

lemma set_event_eq:
  "(e :: myevent_s)\<lparr>ev_fd := f, ev_arg := i, ev_call_back := cb, ev_buf := replicate BUFLEN 0, ev_len := 0,
     ev_last_active := now, ev_events := evs, ev_status := 1\<rparr> = set_event i f cb evs now"
  by (cases e) (simp add: set_event_def)

lemma set_then_add:
  assumes "f \<in> open_fds s"
    and "i < length (gevents s)" "ev_status (gevents s ! i) = 0" "interest s f = None"
  shows "eventadd ok evs i (eventset i f cb now s) = Inr (use_slot ok i (set_event i f cb evs now) s)"
proof -
  have "s = s\<lparr>open_fds := insert f (open_fds s)\<rparr>" using assms(1) by (simp add: insert_absorb)
  with assms(2-4) assms(1) show ?thesis
    by (simp add: eventadd_def eventset_def put_ev_def Let_def epoll_ctl_add_def use_slot_def set_event_eq)
       (simp add: set_event_def insert_absorb fun_upd_idem)
qed

lemma set_then_add_used:
  assumes "i < length (gevents s)" "ev_status (gevents s ! i) \<noteq> 0"
  shows "eventadd ok evs i (eventset i f cb now s) = Inl Indeterminate"
  using assms by (auto simp: eventadd_def eventset_def put_ev_def Let_def)


lemma acceptconn_eq:
  assumes "table_ok s" "io_ok s j x"
  shows "acceptconn x s =
    (if io_accept x = -1 then Inr s
     else if io_fcntl x < 0 then Inr (s\<lparr>open_fds := insert (io_accept x) (open_fds s)\<rparr>)
     else if find_free 0 (gevents s) < MAX_EVENTS
     then Inr (use_slot (io_ctl x) (find_free 0 (gevents s))
            (set_event (find_free 0 (gevents s)) (io_accept x) Recvdata EPOLLIN (io_time x)) s)
     else Inl Indeterminate)"
proof (cases "io_accept x = -1 \<or> io_fcntl x < 0")
  case True
  then show ?thesis by (auto simp: acceptconn_def Let_def)
next
  case False
  let ?c = "io_accept x" and ?i = "find_free 0 (gevents s)"
  let ?s = "s\<lparr>open_fds := insert ?c (open_fds s)\<rparr>"
  note fp = find_free_props [of 0 "gevents s"]
  have c: "?c \<notin> open_fds s" using False assms(2) by (auto simp: io_ok_def)
  have i: "?i < length (gevents s)" using fp table_ok_facts(1) [OF assms(1)] by simp
  have acc: "acceptconn x s = eventadd (io_ctl x) EPOLLIN ?i (eventset ?i ?c Recvdata (io_time x) ?s)"
    using False by (simp add: acceptconn_def Let_def)
  show ?thesis
  proof (cases "?i < MAX_EVENTS")
    case True
    have "interest s ?c = None"
    proof (rule ccontr)
      assume "interest s ?c \<noteq> None"
      then obtain ev k where "interest s ?c = Some (ev, k)" by auto
      from table_ok_interest [OF assms(1) this]
      have "k \<le> MAX_EVENTS" "registered s k" and fd: "ev_fd (gevents s ! k) = ?c" by blast+
      from registered_facts(3) [OF assms(1) this(1,2)] fd c show False by simp
    qed
    with True fp i have "eventadd (io_ctl x) EPOLLIN ?i (eventset ?i ?c Recvdata (io_time x) ?s)
        = Inr (use_slot (io_ctl x) ?i (set_event ?i ?c Recvdata EPOLLIN (io_time x)) ?s)"
      by (intro set_then_add) auto
    with True False acc show ?thesis by (simp add: use_slot_def set_event_def)
  next
    case full: False
    with fp have "?i = MAX_EVENTS" by simp
    with table_ok_facts(4) [OF assms(1)] i have "eventadd (io_ctl x) EPOLLIN ?i (eventset ?i ?c Recvdata (io_time x) ?s) = Inl Indeterminate"
      by (intro set_then_add_used) (auto simp: registered_def)
    with full False acc show ?thesis by simp
  qed
qed

lemma put_buf_ok:
  assumes "table_ok s" "i \<le> MAX_EVENTS" "registered s i"
  shows "table_ok (put_ev i ((gevents s ! i)\<lparr>ev_buf := b\<rparr>) s) \<and> registered (put_ev i ((gevents s ! i)\<lparr>ev_buf := b\<rparr>) s) i"
proof -
  let ?s = "put_ev i ((gevents s ! i)\<lparr>ev_buf := b\<rparr>) s"
  have i: "i < length (gevents s)" by (rule registered_facts(5) [OF assms])
  have nth: "gevents ?s ! j = (if j = i then (gevents s ! i)\<lparr>ev_buf := b\<rparr> else gevents s ! j)" for j
    using i by (simp add: put_ev_def)
  have fld: "interest ?s = interest s" "open_fds ?s = open_fds s" "checkpos ?s = checkpos s" "sent ?s = sent s"
    "ctl_failed ?s = ctl_failed s" "length (gevents ?s) = length (gevents s)" by (simp_all add: put_ev_def)
  have role: "role_ok i (e\<lparr>ev_buf := b\<rparr>) = role_ok i e" for e by (simp add: role_ok_def)
  have reg: "registered ?s j = registered s j" "ev_fd (gevents ?s ! j) = ev_fd (gevents s ! j)" for j
    by (simp_all add: registered_def nth)
  have "slot_ok ?s j" if "j \<le> MAX_EVENTS" for j
    using table_ok_slot [OF assms(1) that]
    by (cases "j = i") (auto simp: slot_ok_def Let_def nth fld role split: if_splits)
  moreover have "k \<le> MAX_EVENTS \<and> registered ?s k \<and> ev_fd (gevents ?s ! k) = f" if "interest ?s f = Some (ev, k)" for f ev k
    using table_ok_interest [OF assms(1), of f ev k] that by (simp add: reg fld)
  moreover have "j = k" if "j \<le> MAX_EVENTS" "k \<le> MAX_EVENTS" "registered ?s j" "registered ?s k"
    "ev_fd (gevents ?s ! j) = ev_fd (gevents ?s ! k)" for j k
    using registered_inj [OF assms(1) that(1,2)] that(3-5) by (simp add: reg)
  ultimately have "table_ok ?s"
    using table_ok_facts [OF assms(1)] by (intro table_okI) (simp_all add: reg fld)
  with reg assms(3) show ?thesis by simp
qed

lemma recvdata_eq:
  assumes "table_ok s" "i < MAX_EVENTS" "registered s i" "f = ev_fd (gevents s ! i)"
  shows "recvdata f i x s =
    (if io_recv x \<le> 0 then Inr (drop_slot i s)
     else if nat (io_recv x) < BUFLEN
     then Inr (use_slot (io_ctl x) i (set_event i f Senddata EPOLLOUT (io_time x)) s)
     else Inl Out_of_bounds)"
proof (cases "io_recv x \<le> 0")
  case True
  have i: "i \<le> MAX_EVENTS" using assms(2) by simp
  note r = registered_facts [OF assms(1) i assms(3)]
  from True r show ?thesis
    by (simp add: recvdata_def Let_def eventdel_eq [OF assms(1) i assms(3)] close_fd_def drop_slot_def)
next
  case False
  have i: "i \<le> MAX_EVENTS" using assms(2) by simp
  note r = registered_facts [OF assms(1) i assms(3)]
  let ?n = "nat (io_recv x)"
  let ?b = "take ?n (io_data x) @ drop ?n (ev_buf (gevents s ! i))"
  let ?s1 = "put_ev i ((gevents s ! i)\<lparr>ev_buf := ?b\<rparr>) s"
  have s1: "table_ok ?s1" "registered ?s1 i" using put_buf_ok [OF assms(1) i assms(3)] by blast+
  let ?s2 = "eventdel i ?s1"
  have g1: "gevents ?s1 ! i = (gevents s ! i)\<lparr>ev_buf := ?b\<rparr>" using r(5) by (simp add: put_ev_def)
  have s2: "?s2 = s\<lparr>gevents := (gevents s)[i := (gevents s ! i)\<lparr>ev_buf := ?b, ev_status := 0\<rparr>], interest := (interest s)(f := None)\<rparr>"
    unfolding eventdel_eq [OF s1(1) i s1(2)] g1 by (simp add: put_ev_def assms(4))
  have pv: "put_ev i e ?s2 = s\<lparr>gevents := (gevents s)[i := e], interest := (interest s)(f := None)\<rparr>" for e
    unfolding s2 by (simp add: put_ev_def)
  show ?thesis
  proof (cases "?n < BUFLEN")
    case True
    let ?e = "(gevents s ! i)\<lparr>ev_buf := ?b, ev_status := 0, ev_len := io_recv x, ev_buf := ?b[?n := 0]\<rparr>"
    let ?s3 = "s\<lparr>gevents := (gevents s)[i := ?e], interest := (interest s)(f := None)\<rparr>"
    have "recvdata f i x s = eventadd (io_ctl x) EPOLLOUT i (eventset i f Senddata (io_time x) (put_ev i ?e ?s2))"
      using False True r(5) unfolding recvdata_def Let_def by (simp add: s2)
    also have "\<dots> = Inr (use_slot (io_ctl x) i (set_event i f Senddata EPOLLOUT (io_time x)) ?s3)"
      unfolding pv by (rule set_then_add) (use r assms(4) in auto)
    also have "use_slot (io_ctl x) i (set_event i f Senddata EPOLLOUT (io_time x)) ?s3
        = use_slot (io_ctl x) i (set_event i f Senddata EPOLLOUT (io_time x)) s"
      by (simp add: use_slot_def set_event_def)
    finally show ?thesis using False True by simp
  next
    case full: False
    then show ?thesis using False by (simp add: recvdata_def Let_def)
  qed
qed

lemma senddata_eq:
  assumes "table_ok s" "i < MAX_EVENTS" "registered s i" "io_send x \<le> 0"
  shows "senddata i x s = Inr (drop_slot i s)"
proof -
  have i: "i \<le> MAX_EVENTS" using assms(2) by simp
  show ?thesis using assms(4) registered_facts [OF assms(1) i assms(3)]
    by (simp add: senddata_def Let_def eventdel_eq [OF assms(1) i assms(3)] close_fd_def drop_slot_def)
qed

lemma check_slot_eq:
  assumes "table_ok s" "i < MAX_EVENTS"
  shows "check_slot now i s =
    (if registered s i \<and> now - ev_last_active (gevents s ! i) \<ge> 60 then drop_slot i s else s)"
proof (cases "registered s i")
  case True
  have i: "i \<le> MAX_EVENTS" using assms(2) by simp
  show ?thesis using True registered_facts [OF assms(1) i True]
    by (simp add: check_slot_def Let_def eventdel_def close_fd_def registered_def epoll_ctl_del_def put_ev_def drop_slot_def)
next
  case False
  then have "ev_status (gevents s ! i) = 0"
    using table_ok_slot [OF assms(1), of i] assms(2) by (simp add: slot_ok_def registered_def Let_def)
  with False show ?thesis by (simp add: check_slot_def registered_def)
qed


section \<open>The loop keeps the table well-formed\<close>

definition entry_ok :: "reactor \<Rightarrow> 32 word \<times> nat \<Rightarrow> bool" where
  "entry_ok s a \<longleftrightarrow> snd a \<le> MAX_EVENTS \<and> registered s (snd a)
     \<and> fst a AND NOT (ev_events (gevents s ! snd a) OR EPOLLERR OR EPOLLHUP) = 0"

definition batch_ok :: "reactor \<Rightarrow> (32 word \<times> nat) list \<Rightarrow> bool" where
  "batch_ok s es \<longleftrightarrow> distinct (map snd es) \<and> (\<forall>a\<in>set es. entry_ok s a)"

fun loop_ok :: "rsys \<Rightarrow> bool" where
  "loop_ok u = (table_ok (react u) \<and> (case phase u of Serving es \<Rightarrow> batch_ok (react u) es | _ \<Rightarrow> True))"

lemma mask_bits:
  "(m :: 32 word) AND NOT (EPOLLIN OR EPOLLERR OR EPOLLHUP) = 0 \<Longrightarrow> m AND EPOLLOUT = 0"
  "(m :: 32 word) AND NOT (EPOLLOUT OR EPOLLERR OR EPOLLHUP) = 0 \<Longrightarrow> m AND EPOLLIN = 0"
proof -
  have k: "NOT (1 OR 8 OR 16) AND 4 = (4 :: 32 word)" "NOT (4 OR 8 OR 16) AND 1 = (1 :: 32 word)" by simp_all
  show "m AND EPOLLOUT = 0" if "m AND NOT (EPOLLIN OR EPOLLERR OR EPOLLHUP) = 0"
  proof -
    have "m AND 4 = (m AND NOT (1 OR 8 OR 16)) AND 4" unfolding and.assoc k ..
    with that show ?thesis by (simp add: EPOLLIN_def EPOLLOUT_def EPOLLERR_def EPOLLHUP_def)
  qed
  show "m AND EPOLLIN = 0" if "m AND NOT (EPOLLOUT OR EPOLLERR OR EPOLLHUP) = 0"
  proof -
    have "m AND 1 = (m AND NOT (4 OR 8 OR 16)) AND 1" unfolding and.assoc k ..
    with that show ?thesis by (simp add: EPOLLIN_def EPOLLOUT_def EPOLLERR_def EPOLLHUP_def)
  qed
qed

lemma in_out [simp]: "EPOLLIN AND EPOLLIN \<noteq> 0" "EPOLLOUT AND EPOLLOUT \<noteq> 0" "EPOLLIN AND EPOLLOUT = 0" "EPOLLOUT AND EPOLLIN = 0"
  by (simp_all add: EPOLLIN_def EPOLLOUT_def)

text \<open>An entry makes its struct's callback run once, if the event the struct waits for is reported.\<close>

lemma dispatch_eq:
  assumes "table_ok s" "entry_ok s (m, i)"
  shows "dispatch m i x y s =
    (if m AND ev_events (gevents s ! i) = 0 then Inr s
     else call_back i (if ev_events (gevents s ! i) = EPOLLIN then x else y) s)"
proof -
  have "role_ok i (gevents s ! i)"
    using registered_facts(2) [OF assms(1)] assms(2) by (simp add: entry_ok_def)
  then consider "ev_events (gevents s ! i) = EPOLLIN" | "ev_events (gevents s ! i) = EPOLLOUT"
    by (auto simp: role_ok_def split: if_splits)
  then show ?thesis
  proof cases
    case 1
    then have "m AND EPOLLOUT = 0" using mask_bits(1) assms(2) by (simp add: entry_ok_def)
    with 1 show ?thesis by (cases "call_back i x s") (auto simp: dispatch_def)
  next
    case 2
    then have "m AND EPOLLIN = 0" using mask_bits(2) assms(2) by (simp add: entry_ok_def)
    with 2 show ?thesis by (auto simp: dispatch_def EPOLLIN_def EPOLLOUT_def)
  qed
qed

lemma open_more_ok:
  assumes "table_ok s"
  shows "table_ok (s\<lparr>open_fds := insert f (open_fds s)\<rparr>)"
proof (rule table_okI)
  show "slot_ok (s\<lparr>open_fds := insert f (open_fds s)\<rparr>) i" if "i \<le> MAX_EVENTS" for i
    using table_ok_slot [OF assms that] by (auto simp: slot_ok_def Let_def)
  show "i = j" if "i \<le> MAX_EVENTS" "j \<le> MAX_EVENTS" "registered (s\<lparr>open_fds := insert f (open_fds s)\<rparr>) i"
    "registered (s\<lparr>open_fds := insert f (open_fds s)\<rparr>) j"
    "ev_fd (gevents (s\<lparr>open_fds := insert f (open_fds s)\<rparr>) ! i) = ev_fd (gevents (s\<lparr>open_fds := insert f (open_fds s)\<rparr>) ! j)" for i j
    using registered_inj [OF assms that(1,2)] that(3-5) by (simp add: registered_def)
qed (use table_ok_facts [OF assms] table_ok_interest [OF assms] in \<open>simp_all add: registered_def\<close>)

text \<open>
  What one callback leads to: the state is unchanged but for descriptors, the served client's slot
  is given up or reused, or a free slot is filled; or it faults in one of two ways.
\<close>

definition served :: "nat \<Rightarrow> reactor \<Rightarrow> reactor \<Rightarrow> bool" where
  "served i s s' \<longleftrightarrow> table_ok s' \<and> (\<forall>j. j \<noteq> i \<longrightarrow> registered s j \<longrightarrow> gevents s' ! j = gevents s ! j)"

lemma call_back_cases:
  assumes "table_ok s" "i \<le> MAX_EVENTS" "registered s i" "io_ok s i x"
  shows "case call_back i x s of
      Inr s' \<Rightarrow> served i s s'
    | Inl f \<Rightarrow> f = Out_of_bounds \<and> i < MAX_EVENTS \<and> io_recv x = int BUFLEN
        \<or> f = Indeterminate \<and> i = MAX_EVENTS \<and> io_accept x \<noteq> -1 \<and> \<not> io_fcntl x < 0
          \<and> (\<forall>j<MAX_EVENTS. registered s j)"
proof -
  note r = registered_facts [OF assms(1-3)]
  from r(2) consider (acc) "i = MAX_EVENTS" "ev_call_back (gevents s ! i) = Acceptconn"
    | (rcv) "i < MAX_EVENTS" "ev_call_back (gevents s ! i) = Recvdata"
    | (snd) "i < MAX_EVENTS" "ev_call_back (gevents s ! i) = Senddata" "ev_len (gevents s ! i) = 0"
    using assms(2) by (auto simp: role_ok_def split: if_splits)
  then show ?thesis
  proof cases
    case acc
    let ?k = "find_free 0 (gevents s)"
    let ?e = "set_event ?k (io_accept x) Recvdata EPOLLIN (io_time x)"
    note fp = find_free_props [of 0 "gevents s"]
    have cb: "call_back i x s = acceptconn x s" using acc by (simp add: call_back_def Let_def)
    have full: "\<forall>j<MAX_EVENTS. registered s j" if "\<not> ?k < MAX_EVENTS"
    proof (intro allI impI)
      fix j assume j: "j < MAX_EVENTS"
      with fp that have "ev_status (gevents s ! j) \<noteq> 0" by auto
      with table_ok_slot [OF assms(1), of j] j show "registered s j"
        by (auto simp: slot_ok_def registered_def Let_def)
    qed
    have use: "served i s (use_slot (io_ctl x) ?k ?e s)"
      if k: "?k < MAX_EVENTS" and c: "io_accept x \<noteq> -1"
    proof -
      have free: "\<not> registered s ?k" using fp k by (simp add: registered_def)
      have new: "io_accept x \<notin> open_fds s" using assms(4) c by (auto simp: io_ok_def)
      then have "ev_fd ?e \<notin> open_fds s" by (simp add: set_event_def)
      then have u: "table_ok (use_slot (io_ctl x) ?k ?e s)" "\<And>j. j \<noteq> ?k \<Longrightarrow> gevents (use_slot (io_ctl x) ?k ?e s) ! j = gevents s ! j"
        using use_slot_ok [OF assms(1) k, of ?e] free k by (simp_all add: set_event_def role_ok_def)
      with free show ?thesis unfolding served_def by metis
    qed
    have "served i s s" "served i s (s\<lparr>open_fds := insert (io_accept x) (open_fds s)\<rparr>)"
      using assms(1) open_more_ok [OF assms(1)] by (auto simp: served_def)
    with use full show ?thesis unfolding cb acceptconn_eq [OF assms(1,4)] using acc(1) by simp
  next
    case rcv
    have cb: "call_back i x s = recvdata (ev_fd (gevents s ! i)) i x s"
      using rcv(2) r(1) by (simp add: call_back_def Let_def)
    let ?e = "set_event i (ev_fd (gevents s ! i)) Senddata EPOLLOUT (io_time x)"
    have "served i s (use_slot (io_ctl x) i ?e s)"
      using use_slot_ok [OF assms(1) rcv(1), of ?e] assms(3) rcv(1)
      by (auto simp: served_def set_event_def role_ok_def)
    moreover have "served i s (drop_slot i s)"
      using drop_slot_ok [OF assms(1) rcv(1) assms(3)] by (auto simp: served_def)
    moreover have "io_recv x = int BUFLEN" if "\<not> nat (io_recv x) < BUFLEN"
    proof -
      have "io_recv x \<le> int BUFLEN" using assms(4) by (simp add: io_ok_def)
      with that show ?thesis by (simp add: BUFLEN_def)
    qed
    ultimately show ?thesis using rcv(1)
      by (simp add: cb recvdata_eq [OF assms(1) rcv(1) assms(3) refl])
  next
    case snd
    then have "io_send x \<le> 0" using assms(4) by (simp add: io_ok_def)
    moreover have "served i s (drop_slot i s)"
      using drop_slot_ok [OF assms(1) snd(1) assms(3)] by (auto simp: served_def)
    ultimately show ?thesis using snd r(1)
      by (simp add: call_back_def Let_def senddata_eq [OF assms(1) snd(1) assms(3)])
  qed
qed


lemma served_batch:
  assumes "batch_ok s ((m, i) # es)" "served i s s'"
  shows "batch_ok s' es"
proof -
  have "entry_ok s' a" if a: "a \<in> set es" for a
  proof -
    have "snd a \<noteq> i" using assms(1) a by (force simp: batch_ok_def)
    moreover have e: "entry_ok s a" using assms(1) a by (simp add: batch_ok_def)
    ultimately have "gevents s' ! snd a = gevents s ! snd a"
      using assms(2) by (simp add: served_def entry_ok_def)
    with e show ?thesis by (simp add: entry_ok_def registered_def)
  qed
  with assms(1) show ?thesis by (simp add: batch_ok_def)
qed

lemma table_ok_checkpos: "table_ok s \<Longrightarrow> c \<le> MAX_EVENTS \<Longrightarrow> table_ok (s\<lparr>checkpos := c\<rparr>)"
proof (rule table_okI)
  assume ok: "table_ok s" and c: "c \<le> MAX_EVENTS"
  show "slot_ok (s\<lparr>checkpos := c\<rparr>) i" if "i \<le> MAX_EVENTS" for i
    using table_ok_slot [OF ok that] by (simp add: slot_ok_def Let_def)
  show "i \<le> MAX_EVENTS \<and> registered (s\<lparr>checkpos := c\<rparr>) i \<and> ev_fd (gevents (s\<lparr>checkpos := c\<rparr>) ! i) = f"
    if "interest (s\<lparr>checkpos := c\<rparr>) f = Some (ev, i)" for f ev i
    using table_ok_interest [OF ok, of f ev i] that by (simp add: registered_def)
  show "i = j" if "i \<le> MAX_EVENTS" "j \<le> MAX_EVENTS" "registered (s\<lparr>checkpos := c\<rparr>) i" "registered (s\<lparr>checkpos := c\<rparr>) j"
    "ev_fd (gevents (s\<lparr>checkpos := c\<rparr>) ! i) = ev_fd (gevents (s\<lparr>checkpos := c\<rparr>) ! j)" for i j
    using registered_inj [OF ok that(1,2)] that(3-5) by (simp add: registered_def)
qed (use table_ok_facts in \<open>simp_all add: registered_def\<close>)

section \<open>The timeout scan\<close>

definition idle :: "int \<Rightarrow> reactor \<Rightarrow> nat \<Rightarrow> bool" where
  "idle now s i \<longleftrightarrow> registered s i \<and> now - ev_last_active (gevents s ! i) \<ge> 60"

text \<open>The slots a scan of \<open>n\<close> slots looks at: those from \<open>checkpos\<close> on, cyclically, without the listener's.\<close>

definition visited :: "nat \<Rightarrow> nat \<Rightarrow> nat \<Rightarrow> bool" where
  "visited c n i \<longleftrightarrow> (\<exists>j<n. (c + j) mod MAX_EVENTS = i)"

lemma visited_Suc: "visited c (Suc n) i \<longleftrightarrow> c mod MAX_EVENTS = i \<or> visited (c mod MAX_EVENTS + 1) n i"
proof -
  have "visited c (Suc n) i \<longleftrightarrow> (\<exists>j<Suc n. (c + j) mod MAX_EVENTS = i)" by (simp add: visited_def)
  also have "\<dots> \<longleftrightarrow> c mod MAX_EVENTS = i \<or> (\<exists>j<n. (c + Suc j) mod MAX_EVENTS = i)"
    by (auto simp: less_Suc_eq_0_disj)
  finally have l: "visited c (Suc n) i \<longleftrightarrow> c mod MAX_EVENTS = i \<or> (\<exists>j<n. (c + Suc j) mod MAX_EVENTS = i)" .
  have "(c mod MAX_EVENTS + 1 + j) mod MAX_EVENTS = (c + Suc j) mod MAX_EVENTS" for j
    using mod_add_left_eq [of c MAX_EVENTS "Suc j"] by simp
  then have "(\<exists>j<n. (c + Suc j) mod MAX_EVENTS = i) \<longleftrightarrow> visited (c mod MAX_EVENTS + 1) n i"
    by (simp only: visited_def)
  with l show ?thesis by simp
qed

lemma check_slot_ok:
  assumes "table_ok s" "i < MAX_EVENTS"
  shows "table_ok (check_slot now i s)"
    "gevents (check_slot now i s) ! j = (if j = i \<and> idle now s i then (gevents s ! i)\<lparr>ev_status := 0\<rparr> else gevents s ! j)"
  using assms drop_slot_ok [OF assms] table_ok_facts(1) [OF assms(1)]
  by (auto simp: check_slot_eq idle_def drop_slot_def Let_def)

lemma scan_effect:
  assumes "table_ok s"
  shows "table_ok (scan n now s)
    \<and> (\<forall>i\<le>MAX_EVENTS. gevents (scan n now s) ! i =
         (if visited (checkpos s) n i \<and> idle now s i then (gevents s ! i)\<lparr>ev_status := 0\<rparr> else gevents s ! i))
    \<and> checkpos (scan n now s) mod MAX_EVENTS = (checkpos s + n) mod MAX_EVENTS"
  using assms
proof (induction n arbitrary: s)
  case 0
  then show ?case by (simp add: visited_def)
next
  case (Suc n)
  define c where "c = (if checkpos s = MAX_EVENTS then 0 else checkpos s)"
  let ?t = "(check_slot now c s)\<lparr>checkpos := c + 1\<rparr>"
  have c: "c = checkpos s mod MAX_EVENTS" "c < MAX_EVENTS"
    using table_ok_facts(2) [OF Suc.prems] by (auto simp: c_def MAX_EVENTS_def)
  have sc: "scan (Suc n) now s = scan n now ?t" by (simp add: Let_def c_def)
  have t: "table_ok ?t" using check_slot_ok(1) [OF Suc.prems c(2)] c(2) by (intro table_ok_checkpos) auto
  have g: "gevents ?t ! i = (if i = c \<and> idle now s c then (gevents s ! c)\<lparr>ev_status := 0\<rparr> else gevents s ! i)" for i
    using check_slot_ok(2) [OF Suc.prems c(2)] by simp
  then have id: "idle now ?t i \<longleftrightarrow> i \<noteq> c \<and> idle now s i" for i
    by (cases "i = c") (auto simp: idle_def registered_def)
  have v: "visited (checkpos s) (Suc n) i \<longleftrightarrow> i = c \<or> visited (c + 1) n i" for i
    using visited_Suc [of "checkpos s" n i] c(1) by auto
  note ih = Suc.IH [OF t]
  have "gevents (scan (Suc n) now s) ! i =
      (if visited (checkpos s) (Suc n) i \<and> idle now s i then (gevents s ! i)\<lparr>ev_status := 0\<rparr> else gevents s ! i)"
    if "i \<le> MAX_EVENTS" for i
  proof -
    have "gevents (scan n now ?t) ! i =
       (if visited (c + 1) n i \<and> idle now ?t i then (gevents ?t ! i)\<lparr>ev_status := 0\<rparr> else gevents ?t ! i)"
      using ih that by simp
    then show ?thesis unfolding sc id v g by (cases "i = c") auto
  qed
  moreover have "checkpos (scan n now ?t) mod MAX_EVENTS = (checkpos s + Suc n) mod MAX_EVENTS"
    using ih c(1) mod_add_left_eq [of "checkpos s" MAX_EVENTS "Suc n"] by simp
  ultimately show ?case using ih unfolding sc by blast
qed

section \<open>The invariant of the loop\<close>

lemma loop_ok_step: "loop_ok u \<Longrightarrow> main_step l u = Some (Inr u') \<Longrightarrow> loop_ok u'"
proof -
  assume ok: "loop_ok u" and st: "main_step l u = Some (Inr u')"
  then have t: "table_ok (react u)" by simp
  show "loop_ok u'"
  proof (cases l)
    case (Scan now)
    with st scan_effect [OF t, of 100 now] show ?thesis by (auto split: if_splits)
  next
    case (Wait fs)
    let ?s = "react u"
    let ?es = "map (\<lambda>(f, m). (m, snd (the (interest ?s f)))) fs"
    from st Wait have w: "wait_ok ?s fs" and u': "u' = u\<lparr>phase := Serving ?es\<rparr>" by (auto split: if_splits)
    have fd: "\<exists>ev i. interest ?s f = Some (ev, i) \<and> m AND NOT (ev OR EPOLLERR OR EPOLLHUP) = 0
        \<and> i \<le> MAX_EVENTS \<and> registered ?s i \<and> ev_fd (gevents ?s ! i) = f \<and> ev_events (gevents ?s ! i) = ev"
      if "(f, m) \<in> set fs" for f m
    proof -
      from w that have "case interest ?s f of None \<Rightarrow> False | Some (e, i) \<Rightarrow> m AND NOT (e OR EPOLLERR OR EPOLLHUP) = 0"
        unfolding wait_ok_def list_all_iff by fastforce
      then obtain ev i where "interest ?s f = Some (ev, i)" "m AND NOT (ev OR EPOLLERR OR EPOLLHUP) = 0"
        by (cases "interest ?s f") auto
      with table_ok_interest [OF t this(1)] show ?thesis by blast
    qed
    have "entry_ok ?s a" if "a \<in> set ?es" for a
    proof -
      from that obtain f m where fm: "(f, m) \<in> set fs" "a = (m, snd (the (interest ?s f)))" by auto
      from fd [OF fm(1)] fm(2) show ?thesis by (auto simp: entry_ok_def)
    qed
    moreover have "map snd ?es = map (\<lambda>f. snd (the (interest ?s f))) (map fst fs)"
      by (simp add: case_prod_unfold)
    moreover have "inj_on (\<lambda>f. snd (the (interest ?s f))) (set (map fst fs))"
    proof (rule inj_onI)
      fix f g assume "f \<in> set (map fst fs)" "g \<in> set (map fst fs)"
        and eq: "snd (the (interest ?s f)) = snd (the (interest ?s g))"
      then obtain m n where "(f, m) \<in> set fs" "(g, n) \<in> set fs" by auto
      from fd [OF this(1)] fd [OF this(2)] eq show "f = g" by auto
    qed
    ultimately have "batch_ok ?s ?es"
      using w by (simp only: batch_ok_def distinct_map wait_ok_def simp_thms) (simp add: distinct_map)
    with t u' show ?thesis by simp
  next
    case Wait_error
    with st t show ?thesis by (auto split: if_splits)
  next
    case (Serve x y)
    with st obtain m i es where p: "phase u = Serving ((m, i) # es)" and io: "io_ok (react u) i x" "io_ok (react u) i y"
      by (auto split: phase.splits list.splits if_splits)
    with st Serve obtain s' where d: "dispatch m i x y (react u) = Inr s'" "u' = u\<lparr>react := s', phase := Serving es\<rparr>"
      by auto
    from ok p have b: "batch_ok (react u) ((m, i) # es)" by simp
    then have e: "entry_ok (react u) (m, i)" by (simp add: batch_ok_def)
    then have i: "i \<le> MAX_EVENTS" "registered (react u) i" by (simp_all add: entry_ok_def)
    have "served i (react u) s'"
      using d(1) call_back_cases [OF t i io(1)] call_back_cases [OF t i io(2)] t
      unfolding dispatch_eq [OF t e] by (auto simp: served_def split: if_splits)
    with served_batch [OF b this] d(2) show ?thesis by (simp add: served_def)
  next
    case Again
    with st t show ?thesis by (auto split: if_splits)
  qed
qed

lemma listen_eq:
  assumes "0 \<le> lfd" "lfd \<notin> fds"
  shows "initListenSocket ok lfd now (zero_reactor fds) =
    Inr (use_slot ok MAX_EVENTS (set_event MAX_EVENTS lfd Acceptconn EPOLLIN now) (zero_reactor fds))"
proof -
  have "initListenSocket ok lfd now (zero_reactor fds) =
    Inr (use_slot ok MAX_EVENTS (set_event MAX_EVENTS lfd Acceptconn EPOLLIN now)
      ((zero_reactor fds)\<lparr>open_fds := insert lfd (open_fds (zero_reactor fds))\<rparr>))"
    unfolding initListenSocket_def by (rule set_then_add) (simp_all add: zero_reactor_def zero_event_def del: replicate_Suc)
  then show ?thesis by (simp add: use_slot_def set_event_def)
qed

lemma listen_ok: "table_ok (use_slot ok MAX_EVENTS (set_event MAX_EVENTS lfd Acceptconn EPOLLIN now) (zero_reactor fds))"
proof -
  let ?s = "use_slot ok MAX_EVENTS (set_event MAX_EVENTS lfd Acceptconn EPOLLIN now) (zero_reactor fds)"
  have g: "gevents ?s ! i = (if i = MAX_EVENTS then set_event MAX_EVENTS lfd Acceptconn EPOLLIN now else zero_event)"
    if "i \<le> MAX_EVENTS" for i
    using that by (simp add: use_slot_def zero_reactor_def nth_list_update del: replicate_Suc)
  show ?thesis
  proof (rule table_okI)
    show "slot_ok ?s i" if "i \<le> MAX_EVENTS" for i
      using that by (simp add: slot_ok_def Let_def g)
        (simp add: zero_event_def set_event_def role_ok_def use_slot_def)
    show "i \<le> MAX_EVENTS \<and> registered ?s i \<and> ev_fd (gevents ?s ! i) = f" if "interest ?s f = Some (ev, i)" for f ev i
    proof -
      from that have "i = MAX_EVENTS" "f = lfd"
        by (auto simp: use_slot_def zero_reactor_def set_event_def split: if_splits)
      then show ?thesis by (simp add: registered_def g) (simp add: set_event_def)
    qed
    show "i = j" if "i \<le> MAX_EVENTS" "j \<le> MAX_EVENTS" "registered ?s i" "registered ?s j" for i j
    proof -
      have "k = MAX_EVENTS" if "k \<le> MAX_EVENTS" "registered ?s k" for k
        using that by (auto simp: registered_def g zero_event_def split: if_splits)
      with that show ?thesis by blast
    qed
  qed (simp_all add: use_slot_def zero_reactor_def registered_def set_event_def del: replicate_Suc)
qed

interpretation loop: inductive_invariant init_reactor "fires main_step" loop_ok
proof
  show "loop_ok u" if "init_reactor u" for u
    using that listen_ok by (auto simp: init_reactor_def listen_eq)
  show "loop_ok u'" if "loop_ok u" "fires main_step l u u'" for u l u'
    using loop_ok_step that by (simp only: fires_def)
qed

end
