(* ===== verification/Reactor_Theorems.thy ===== *)
theory Reactor_Theorems
  imports Reactor_Proofs
begin

text \<open>
  What the invariant of Reactor_Proofs gives for socket/epoll/Reactor/main.cpp: the table and the
  interest list agree, no byte is ever echoed, what a read event does, the two ways to fault, and the
  timeout scan with the number of passes it needs to find every idle connection.
\<close>

section \<open>A run of the server\<close>

lemma scan_quiet:
  assumes "table_ok s" "checkpos s + n \<le> MAX_EVENTS" "\<forall>i<MAX_EVENTS. \<not> idle now s i"
  shows "scan n now s = s\<lparr>checkpos := checkpos s + n\<rparr>"
  using assms
proof (induction n arbitrary: s)
  case (Suc n)
  let ?t = "s\<lparr>checkpos := checkpos s + 1\<rparr>"
  have "checkpos s < MAX_EVENTS" using Suc.prems(2) by simp
  then have "check_slot now (checkpos s) s = s"
    using check_slot_eq [OF Suc.prems(1), of "checkpos s" now] Suc.prems(3) by (auto simp: idle_def)
  then have "scan (Suc n) now s = scan n now ?t"
    using Suc.prems(2) by (auto simp: Let_def)
  also have "\<dots> = ?t\<lparr>checkpos := checkpos ?t + n\<rparr>"
    by (rule Suc.IH) (use Suc.prems in \<open>auto intro: table_ok_checkpos simp: idle_def registered_def\<close>)
  finally show ?case by simp
qed simp

text \<open>
  The server listens on descriptor 3; a client connects and gets descriptor 4 and slot 0. The
  callbacks' inputs below are the ones that matter; \<open>quiet_io\<close> stands for the others.
\<close>

definition quiet_io :: io where
  "quiet_io = \<lparr>io_accept = -1, io_fcntl = 0, io_recv = 0, io_data = [], io_send = 0, io_time = 0, io_ctl = True\<rparr>"

definition listening :: reactor where
  "listening = use_slot True MAX_EVENTS (set_event MAX_EVENTS 3 Acceptconn EPOLLIN 0) (zero_reactor {0, 1, 2})"

text \<open>The same connection, with the two outcomes of \<open>epoll_ctl\<close>.\<close>

definition connected_with :: "bool \<Rightarrow> reactor" where
  "connected_with ok = use_slot ok 0 (set_event 0 4 Recvdata EPOLLIN 0) (listening\<lparr>checkpos := 100\<rparr>)"

definition connected :: reactor where
  "connected = connected_with True"

lemma connected_eq: "connected = use_slot True 0 (set_event 0 4 Recvdata EPOLLIN 0) (listening\<lparr>checkpos := 100\<rparr>)"
  by (simp add: connected_def connected_with_def)

lemma listening_ok: "table_ok listening"
  unfolding listening_def by (rule listen_ok)

lemma listening_slot:
  "i < MAX_EVENTS \<Longrightarrow> gevents listening ! i = zero_event"
  "gevents listening ! MAX_EVENTS = set_event MAX_EVENTS 3 Acceptconn EPOLLIN 0"
  by (simp_all add: listening_def use_slot_def zero_reactor_def del: replicate_Suc)

lemma listening_init: "init_reactor \<lparr>react = listening, phase = At_scan\<rparr>"
proof -
  have "initListenSocket True 3 0 (zero_reactor {0, 1, 2}) = Inr listening"
    using listen_eq [of 3 "{0, 1, 2}" True 0] by (simp add: listening_def)
  then show ?thesis
    unfolding init_reactor_def by (intro exI [of _ "{0, 1, 2}"] exI [of _ 3] exI [of _ 0] exI [of _ True]) auto
qed

lemma listening_reach: "reactor_reach \<lparr>react = listening, phase = At_scan\<rparr>"
  by (rule reach_init, rule listening_init)

lemma reach_fun: "reach init (fires f) u \<Longrightarrow> f l u = Some (Inr v) \<Longrightarrow> reach init (fires f) v"
  by (rule reach.reach_step) (simp_all add: fires_def)

lemma connected_with_reach: "reactor_reach \<lparr>react = connected_with ok, phase = Serving []\<rparr>"
proof -
  let ?s = "listening\<lparr>checkpos := 100\<rparr>" and ?x = "quiet_io\<lparr>io_accept := 4, io_ctl := ok\<rparr>"
  have c0: "checkpos listening = 0" by (simp add: listening_def use_slot_def zero_reactor_def)
  have it: "interest ?s 3 = Some (EPOLLIN, MAX_EVENTS)" "open_fds ?s = {0, 1, 2, 3}" "sent ?s = []"
    by (auto simp: listening_def use_slot_def zero_reactor_def set_event_def)
  have ok: "table_ok ?s" using listening_ok by (intro table_ok_checkpos) (simp_all add: MAX_EVENTS_def)
  have "\<not> idle 0 listening i" if "i < MAX_EVENTS" for i
    using that by (simp add: idle_def registered_def listening_slot zero_event_def)
  then have sc: "scan 100 0 listening = ?s"
    using scan_quiet [OF listening_ok, of 100 0] c0 by (simp add: MAX_EVENTS_def)
  have "reactor_reach \<lparr>react = ?s, phase = At_wait\<rparr>"
    by (rule reach_fun [OF listening_reach, where l = "Scan 0"]) (simp add: sc del: scan.simps)
  then have r: "reactor_reach \<lparr>react = ?s, phase = Serving [(EPOLLIN, MAX_EVENTS)]\<rparr>"
    by (rule reach_fun [where l = "Wait [(3, EPOLLIN)]"])
       (use it in \<open>simp add: wait_ok_def EPOLLIN_def EPOLLERR_def EPOLLHUP_def\<close>)
  have io: "io_ok ?s MAX_EVENTS ?x"
    using it by (simp add: io_ok_def quiet_io_def listening_slot set_event_def)
  have "find_free 0 (gevents ?s) = 0"
    by (simp add: find_free.simps [of 0] listening_slot zero_event_def MAX_EVENTS_def)
  then have acc: "acceptconn ?x ?s = Inr (connected_with ok)"
    using acceptconn_eq [OF ok io] by (simp add: quiet_io_def connected_with_def MAX_EVENTS_def)
  have "entry_ok ?s (EPOLLIN, MAX_EVENTS)"
    by (simp add: entry_ok_def registered_def listening_slot set_event_def EPOLLIN_def EPOLLERR_def EPOLLHUP_def)
  then have d: "dispatch EPOLLIN MAX_EVENTS ?x ?x ?s = Inr (connected_with ok)"
    using acc by (simp add: dispatch_eq [OF ok]) (simp add: call_back_def Let_def listening_slot set_event_def EPOLLIN_def)
  show ?thesis by (rule reach_fun [OF r, where l = "Serve ?x ?x"]) (use io d in simp)
qed

lemma connected_reach: "reactor_reach \<lparr>react = connected, phase = Serving []\<rparr>"
  unfolding connected_def by (rule connected_with_reach)

text \<open>Where \<open>epoll_ctl\<close> fails for a new client, its struct is marked and its descriptor open, but not watched.\<close>

lemma unwatched_client:
  "reactor_reach \<lparr>react = connected_with False, phase = Serving []\<rparr>
     \<and> ev_status (gevents (connected_with False) ! 0) = 1 \<and> 4 \<in> open_fds (connected_with False)
     \<and> interest (connected_with False) 4 = None"
  using connected_with_reach [of False] table_ok_facts(1) [OF listening_ok]
  by (simp add: connected_with_def use_slot_def set_event_def)

lemma connected_slot: "gevents connected ! 0 = set_event 0 4 Recvdata EPOLLIN 0"
  using table_ok_facts(1) [OF listening_ok] by (simp add: connected_eq use_slot_def)

section \<open>Properties\<close>

lemma reach_table: "reactor_reach u \<Longrightarrow> table_ok (react u)"
  by (drule loop.inv_reach) simp

text \<open>C16. The table and the kernel agree, up to the failures of \<open>epoll_ctl\<close> that \<open>eventadd\<close> only prints: in every reachable
  state a descriptor is on the interest list with some events and struct exactly when that struct is marked as registered
  with that descriptor and those events and the last \<open>eventadd\<close> on it did not print a failure (a struct it failed for is
  marked but not watched, so no event can serve it). No two structs marked as registered share a descriptor, and
  the listener's struct, which clients must not use, stays marked.\<close>

theorem reactor_table:
  assumes "reactor_reach u"
  shows "(interest (react u) f = Some (ev, i)) =
      (i \<le> MAX_EVENTS \<and> ev_status (gevents (react u) ! i) = 1 \<and> ev_fd (gevents (react u) ! i) = f
        \<and> ev_events (gevents (react u) ! i) = ev \<and> i \<notin> ctl_failed (react u))
    \<and> (i \<le> MAX_EVENTS \<and> j \<le> MAX_EVENTS \<and> ev_status (gevents (react u) ! i) = 1 \<and> ev_status (gevents (react u) ! j) = 1
        \<and> ev_fd (gevents (react u) ! i) = ev_fd (gevents (react u) ! j) \<longrightarrow> i = j)
    \<and> ev_status (gevents (react u) ! MAX_EVENTS) = 1 \<and> ev_call_back (gevents (react u) ! MAX_EVENTS) = Acceptconn"
proof -
  note t = reach_table [OF assms]
  have l: "registered (react u) MAX_EVENTS" using table_ok_facts(4) [OF t] .
  from registered_facts(2) [OF t le_refl l] have "ev_call_back (gevents (react u) ! MAX_EVENTS) = Acceptconn"
    by (simp add: role_ok_def)
  moreover have "(interest (react u) f = Some (ev, i)) =
      (i \<le> MAX_EVENTS \<and> registered (react u) i \<and> ev_fd (gevents (react u) ! i) = f \<and> ev_events (gevents (react u) ! i) = ev
        \<and> i \<notin> ctl_failed (react u))"
    using table_ok_interest [OF t, of f ev i] registered_facts(4) [OF t, of i] by auto
  moreover have "i \<le> MAX_EVENTS \<and> j \<le> MAX_EVENTS \<and> registered (react u) i \<and> registered (react u) j
      \<and> ev_fd (gevents (react u) ! i) = ev_fd (gevents (react u) ! j) \<longrightarrow> i = j"
    using registered_inj [OF t] by blast
  ultimately show ?thesis using l by (simp add: registered_def)
qed

theorem reactor_table_witness: "interest connected 4 = Some (EPOLLIN, 0)"
proof -
  have "0 \<notin> ctl_failed connected" by (simp add: connected_eq use_slot_def)
  then show ?thesis using reactor_table [OF connected_reach, of 4 EPOLLIN 0]
    by (simp add: connected_slot set_event_def)
qed

text \<open>C17. The echo server never echoes: in no reachable state has a byte been sent. \<open>recvdata\<close> calls
  \<open>eventset\<close> after it has stored the data, which clears the buffer and its length; \<open>senddata\<close> then
  sends zero bytes and closes the connection.\<close>

theorem reactor_never_echoes:
  assumes "reactor_reach u"
  shows "sent (react u) = []"
  using table_ok_facts(3) [OF reach_table [OF assms]] .

theorem reactor_never_echoes_witness: "sent connected = []"
  using reactor_never_echoes [OF connected_reach] by simp

text \<open>A client's read event: nothing read or an error closes the descriptor, frees the slot and leaves
  the others as they are; data that leaves room in the buffer makes the slot wait for a write
  event with \<open>senddata\<close>, its buffer zeroed and its length 0, or for nothing at all where \<open>epoll_ctl\<close> fails; 4096 bytes overrun the buffer.\<close>

theorem recvdata_spec:
  assumes "reactor_reach u" "s = react u" "i < MAX_EVENTS" "ev_status (gevents s ! i) = 1" "io_recv x \<le> int BUFLEN"
  shows "recvdata (ev_fd (gevents s ! i)) i x s =
    (if io_recv x \<le> 0 then Inr (s\<lparr>gevents := (gevents s)[i := (gevents s ! i)\<lparr>ev_status := 0\<rparr>],
        interest := (interest s)(ev_fd (gevents s ! i) := None), open_fds := open_fds s - {ev_fd (gevents s ! i)}\<rparr>)
     else if io_recv x < int BUFLEN then Inr (s\<lparr>gevents := (gevents s)[i := \<lparr>ev_fd = ev_fd (gevents s ! i),
          ev_events = EPOLLOUT, ev_arg = i, ev_call_back = Senddata, ev_status = 1, ev_buf = replicate BUFLEN 0,
          ev_len = 0, ev_last_active = io_time x\<rparr>],
        interest := (interest s)(ev_fd (gevents s ! i) := if io_ctl x then Some (EPOLLOUT, i) else None),
        ctl_failed := (if io_ctl x then ctl_failed s - {i} else insert i (ctl_failed s))\<rparr>)
     else Inl Out_of_bounds)"
proof -
  have t: "table_ok s" using reach_table [OF assms(1)] assms(2) by simp
  have r: "registered s i" using assms(4) by (simp add: registered_def)
  have "insert (ev_fd (gevents s ! i)) (open_fds s) = open_fds s"
    using registered_facts(3) [OF t _ r] assms(3) by (simp add: insert_absorb)
  moreover have "(nat (io_recv x) < BUFLEN) = (io_recv x < int BUFLEN)" by (auto simp: BUFLEN_def)
  ultimately show ?thesis
    by (simp add: recvdata_eq [OF t assms(3) r refl] drop_slot_def use_slot_def set_event_def Let_def)
qed

theorem recvdata_spec_witness:
  "recvdata 4 0 (quiet_io\<lparr>io_recv := 4096\<rparr>) connected = Inl Out_of_bounds"
  using recvdata_spec [OF connected_reach refl, of 0 "quiet_io\<lparr>io_recv := 4096\<rparr>"]
  by (simp add: connected_slot set_event_def MAX_EVENTS_def BUFLEN_def quiet_io_def)

text \<open>A full table is not refused: when every struct is registered and a client connects, \<open>acceptconn\<close>
  overwrites the listener's struct and passes an uninitialised operation to \<open>epoll_ctl\<close>.\<close>

theorem accept_full_table:
  assumes "length (gevents s) = MAX_EVENTS + 1" "\<forall>e\<in>set (gevents s). ev_status e \<noteq> 0"
    and "io_accept x \<noteq> -1" "\<not> io_fcntl x < 0"
  shows "acceptconn x s = Inl Indeterminate \<and> find_free 0 (gevents s) = MAX_EVENTS"
proof -
  let ?i = "find_free 0 (gevents s)"
  note fp = find_free_props [of 0 "gevents s"]
  have st: "ev_status (gevents s ! j) \<noteq> 0" if "j \<le> MAX_EVENTS" for j
    using assms(1,2) that nth_mem [of j "gevents s"] by auto
  then have i: "?i = MAX_EVENTS" using fp by (metis le_neq_implies_less zero_le)
  then show ?thesis using assms(1,3,4) st [of MAX_EVENTS]
    by (simp add: acceptconn_def Let_def set_then_add_used)
qed

theorem accept_full_table_witness:
  "acceptconn (quiet_io\<lparr>io_accept := 9\<rparr>)
     ((zero_reactor {})\<lparr>gevents := replicate (MAX_EVENTS + 1) (zero_event\<lparr>ev_status := 1\<rparr>)\<rparr>) = Inl Indeterminate"
  using accept_full_table [of "(zero_reactor {})\<lparr>gevents := replicate (MAX_EVENTS + 1) (zero_event\<lparr>ev_status := 1\<rparr>)\<rparr>"
      "quiet_io\<lparr>io_accept := 9\<rparr>"]
  by (simp add: quiet_io_def del: replicate_Suc)

text \<open>C18. The only faults: serving an entry in a reachable state faults only when \<open>recv\<close> has filled the
  whole buffer, or when a client connects while every client slot is registered.\<close>

theorem serve_faults_only:
  assumes "reactor_reach u" "phase u = Serving ((m, i) # es)" "main_step (Serve x y) u = Some (Inl f)"
  shows "f = Out_of_bounds \<and> (io_recv x = int BUFLEN \<or> io_recv y = int BUFLEN)
    \<or> f = Indeterminate \<and> length (filter (\<lambda>e. ev_status e = 1) (take MAX_EVENTS (gevents (react u)))) = MAX_EVENTS"
proof -
  let ?s = "react u"
  from loop.inv_reach [OF assms(1)] assms(2) have t: "table_ok ?s" and e: "entry_ok ?s (m, i)"
    by (auto simp: batch_ok_def)
  then have i: "i \<le> MAX_EVENTS" "registered ?s i" by (simp_all add: entry_ok_def)
  from assms(2,3) have io: "io_ok ?s i x" "io_ok ?s i y" and d: "dispatch m i x y ?s = Inl f"
    by (auto simp: obind_Inl_iff split: if_splits)
  have full: "length (filter (\<lambda>e. ev_status e = 1) (take MAX_EVENTS (gevents ?s))) = MAX_EVENTS"
    if "\<forall>j<MAX_EVENTS. registered ?s j"
  proof -
    have "\<forall>e\<in>set (take MAX_EVENTS (gevents ?s)). ev_status e = 1"
      using that table_ok_facts(1) [OF t] by (auto simp: in_set_conv_nth registered_def)
    then show ?thesis using table_ok_facts(1) [OF t] by simp
  qed
  obtain z where "z = x \<or> z = y" "call_back i z ?s = Inl f"
    using d unfolding dispatch_eq [OF t e] by (auto split: if_splits)
  moreover have "io_ok ?s i z" using calculation(1) io by auto
  ultimately show ?thesis using call_back_cases [OF t i, of z] full by auto
qed


lemma reading_reach: "reactor_reach \<lparr>react = connected\<lparr>checkpos := 200\<rparr>, phase = Serving [(EPOLLIN, 0)]\<rparr>"
proof -
  let ?s = "connected\<lparr>checkpos := 200\<rparr>"
  have t: "table_ok connected" using reach_table [OF connected_reach] by simp
  have c0: "checkpos connected = 100" by (simp add: connected_eq use_slot_def)
  have sl: "gevents connected ! i = (if i = 0 then set_event 0 4 Recvdata EPOLLIN 0 else zero_event)"
    if "i < MAX_EVENTS" for i
    using that connected_slot listening_slot(1) [of i] by (simp add: connected_eq use_slot_def)
  have "\<not> idle 0 connected i" if "i < MAX_EVENTS" for i
    using that by (simp add: idle_def registered_def sl) (simp add: set_event_def zero_event_def)
  then have sc: "scan 100 0 connected = ?s"
    using scan_quiet [OF t, of 100 0] c0 by (simp add: MAX_EVENTS_def)
  have "reactor_reach \<lparr>react = connected, phase = At_scan\<rparr>"
    by (rule reach_fun [OF connected_reach, where l = Again]) simp
  then have "reactor_reach \<lparr>react = ?s, phase = At_wait\<rparr>"
    by (rule reach_fun [where l = "Scan 0"]) (simp add: sc del: scan.simps)
  then show ?thesis
    by (rule reach_fun [where l = "Wait [(4, EPOLLIN)]"])
       (simp add: wait_ok_def connected_eq use_slot_def set_event_def EPOLLIN_def EPOLLERR_def EPOLLHUP_def)
qed

theorem serve_faults_only_witness:
  "main_step (Serve (quiet_io\<lparr>io_recv := 4096, io_data := replicate 4096 7\<rparr>) quiet_io)
     \<lparr>react = connected\<lparr>checkpos := 200\<rparr>, phase = Serving [(EPOLLIN, 0)]\<rparr> \<noteq> Some (Inl Null_deref)"
  (is "?r \<noteq> _")
proof
  assume "?r = Some (Inl Null_deref)"
  from serve_faults_only [OF reading_reach _ this] show False by simp
qed

section \<open>Timeouts\<close>

lemma check_slot_open:
  assumes "table_ok s" "i < MAX_EVENTS"
  shows "open_fds (check_slot now i s) \<subseteq> open_fds s"
    "idle now s i \<Longrightarrow> ev_fd (gevents s ! i) \<notin> open_fds (check_slot now i s)"
  using assms by (auto simp: check_slot_eq idle_def drop_slot_def Let_def)

lemma scan_closes:
  "table_ok s \<Longrightarrow> open_fds (scan n now s) \<subseteq> open_fds s
     \<and> (\<forall>i<MAX_EVENTS. visited (checkpos s) n i \<and> idle now s i \<longrightarrow> ev_fd (gevents s ! i) \<notin> open_fds (scan n now s))"
proof (induction n arbitrary: s)
  case 0
  then show ?case by (simp add: visited_def)
next
  case (Suc n)
  define c where "c = (if checkpos s = MAX_EVENTS then 0 else checkpos s)"
  let ?t = "(check_slot now c s)\<lparr>checkpos := c + 1\<rparr>"
  have c: "c = checkpos s mod MAX_EVENTS" "c < MAX_EVENTS"
    using table_ok_facts(2) [OF Suc.prems] by (auto simp: c_def MAX_EVENTS_def)
  have sc: "scan (Suc n) now s = scan n now ?t" by (simp add: Let_def c_def)
  have t: "table_ok ?t" using check_slot_ok(1) [OF Suc.prems c(2)] c(2) by (intro table_ok_checkpos) auto
  note ih = Suc.IH [OF t] and op = check_slot_open [OF Suc.prems c(2), of now]
  have "ev_fd (gevents s ! i) \<notin> open_fds (scan n now ?t)"
    if i: "i < MAX_EVENTS" "visited (checkpos s) (Suc n) i" "idle now s i" for i
  proof (cases "i = c")
    case True
    with op(2) i(3) ih show ?thesis by auto
  next
    case False
    then have "visited (c + 1) n i" using i(2) c(1) visited_Suc by auto
    moreover have "gevents ?t ! i = gevents s ! i"
      using False check_slot_ok(2) [OF Suc.prems c(2)] by simp
    moreover from this have "idle now ?t i" using i(3) by (simp add: idle_def registered_def)
    ultimately show ?thesis using ih i(1) by auto
  qed
  with op(1) ih show ?case unfolding sc by auto
qed

lemma cyclic_distance:
  assumes "c \<le> m" "j < (m::nat)"
  shows "((c + j) mod m + m - c) mod m = j"
proof (cases "c + j < m")
  case False
  then have "(c + j) mod m = c + j - m" using assms by (simp add: le_mod_geq)
  with False assms show ?thesis by simp
qed (use assms in simp)

text \<open>The timeout scan: of the 100 slots from \<open>checkpos\<close> on, cyclically and never the listener's, it frees
  exactly the registered ones that have been inactive for 60 seconds and closes their descriptors; all
  other structs are left as they are, and \<open>checkpos\<close> moves on by 100.\<close>

theorem timeout_scan:
  assumes "reactor_reach u" "s = react u" "s' = scan 100 now s"
    and "i < MAX_EVENTS" "old = gevents s ! i"
    and "stale = (ev_status old = 1 \<and> now - ev_last_active old \<ge> 60 \<and> (i + MAX_EVENTS - checkpos s) mod MAX_EVENTS < 100)"
  shows "gevents s' ! i = (if stale then old\<lparr>ev_status := 0\<rparr> else old)
    \<and> (ev_status old = 1 \<longrightarrow> (ev_fd old \<in> open_fds s') = (\<not> stale))
    \<and> gevents s' ! MAX_EVENTS = gevents s ! MAX_EVENTS
    \<and> checkpos s' mod MAX_EVENTS = (checkpos s + 100) mod MAX_EVENTS"
proof -
  have t: "table_ok s" using reach_table [OF assms(1)] assms(2) by simp
  have c: "checkpos s \<le> MAX_EVENTS" by (rule table_ok_facts(2) [OF t])
  have v: "visited (checkpos s) 100 i \<longleftrightarrow> (i + MAX_EVENTS - checkpos s) mod MAX_EVENTS < 100"
  proof
    assume "visited (checkpos s) 100 i"
    then obtain j where j: "j < 100" "(checkpos s + j) mod MAX_EVENTS = i" by (auto simp: visited_def)
    then have "(i + MAX_EVENTS - checkpos s) mod MAX_EVENTS = j"
      using cyclic_distance [OF c, of j] by (auto simp: MAX_EVENTS_def)
    with j(1) show "(i + MAX_EVENTS - checkpos s) mod MAX_EVENTS < 100" by simp
  next
    assume j: "(i + MAX_EVENTS - checkpos s) mod MAX_EVENTS < 100"
    have "(checkpos s + (i + MAX_EVENTS - checkpos s) mod MAX_EVENTS) mod MAX_EVENTS = i"
      using c assms(4) by (simp add: mod_add_right_eq)
    with j show "visited (checkpos s) 100 i" unfolding visited_def by blast
  qed
  have stale: "stale \<longleftrightarrow> visited (checkpos s) 100 i \<and> idle now s i"
    using assms(5,6) v by (auto simp: idle_def registered_def)
  note eff = scan_effect [OF t, of 100 now] and cl = scan_closes [OF t, of 100 now]
  have g: "gevents s' ! i = (if stale then old\<lparr>ev_status := 0\<rparr> else old)"
    using eff assms(3-5) stale by simp
  have "ev_fd old \<in> open_fds s'" if "ev_status old = 1" "\<not> stale"
  proof -
    have "table_ok s'" using eff assms(3) by simp
    from registered_facts(3) [OF this, of i] g that assms(4) show ?thesis by (simp add: registered_def)
  qed
  moreover have "ev_fd old \<notin> open_fds s'" if stale
    using cl assms(3-5) that stale by simp
  moreover have "\<not> visited (checkpos s) 100 MAX_EVENTS"
    unfolding visited_def by (metis MAX_EVENTS_def mod_less_divisor less_irrefl zero_less_numeral)
  ultimately show ?thesis using g eff assms(3) by auto
qed

theorem timeout_scan_witness:
  "gevents (scan 100 60 listening) ! 5 = gevents listening ! 5
     \<and> ev_status (gevents (scan 100 60 (connected\<lparr>checkpos := 200\<rparr>)) ! 0) = 1"
proof -
  have "gevents (scan 100 60 listening) ! 5 = gevents listening ! 5"
    using timeout_scan [OF listening_reach refl refl _ refl refl, of 5 60]
    by (simp add: listening_slot zero_event_def MAX_EVENTS_def)
  moreover have "ev_status (gevents (scan 100 60 (connected\<lparr>checkpos := 200\<rparr>)) ! 0) = 1"
    using timeout_scan [OF reading_reach refl refl _ refl refl, of 0 60]
    by (simp add: connected_slot set_event_def MAX_EVENTS_def)
  ultimately show ?thesis ..
qed

lemma unregistered_scan:
  assumes "table_ok s" "\<not> registered s i" "i < MAX_EVENTS"
  shows "\<not> registered (scan n now s) i"
  using scan_effect [OF assms(1), of n now] assms(2,3) by (simp add: registered_def)

lemma passes_table: "table_ok s \<Longrightarrow> table_ok (fold (scan 100) ts s)"
  by (induction ts arbitrary: s) (simp_all add: scan_effect)

lemma passes_unregistered:
  "table_ok s \<Longrightarrow> \<not> registered s i \<Longrightarrow> i < MAX_EVENTS \<Longrightarrow> \<not> registered (fold (scan 100) ts s) i"
  by (induction ts arbitrary: s) (simp_all add: unregistered_scan scan_effect)

lemma passes_close:
  "table_ok s \<Longrightarrow> i < MAX_EVENTS \<Longrightarrow> idle now s i \<Longrightarrow> \<forall>t\<in>set ts. now \<le> t \<Longrightarrow>
     visited (checkpos s) (100 * length ts) i \<Longrightarrow> \<not> registered (fold (scan 100) ts s) i"
proof (induction ts arbitrary: s)
  case Nil
  then show ?case by (simp add: visited_def)
next
  case (Cons t ts)
  let ?s = "scan 100 t s"
  note eff = scan_effect [OF Cons.prems(1), of 100 t]
  have id: "idle t s i" using Cons.prems(3,4) by (auto simp: idle_def)
  show ?case
  proof (cases "visited (checkpos s) 100 i")
    case True
    then have "\<not> registered ?s i" using eff id Cons.prems(2) by (simp add: registered_def)
    with eff Cons.prems(2) show ?thesis by (simp add: passes_unregistered)
  next
    case False
    then have g: "gevents ?s ! i = gevents s ! i" using eff Cons.prems(2) by simp
    from Cons.prems(5) obtain j where j: "j < 100 + 100 * length ts" "(checkpos s + j) mod MAX_EVENTS = i"
      by (auto simp: visited_def)
    have "100 \<le> j"
    proof (rule ccontr)
      assume "\<not> 100 \<le> j"
      with j(2) have "visited (checkpos s) 100 i" unfolding visited_def by (intro exI [of _ j]) simp
      with False show False ..
    qed
    then have "(checkpos ?s + (j - 100)) mod MAX_EVENTS = (checkpos s + 100 + (j - 100)) mod MAX_EVENTS"
      using eff mod_add_left_eq by metis
    with j \<open>100 \<le> j\<close> have "(checkpos ?s + (j - 100)) mod MAX_EVENTS = i" "j - 100 < 100 * length ts" by auto
    then have "visited (checkpos ?s) (100 * length ts) i" by (auto simp: visited_def)
    moreover have "idle now ?s i" using g Cons.prems(3) by (simp add: idle_def registered_def)
    ultimately show ?thesis using Cons.IH [of ?s] eff Cons.prems(2,4) by simp
  qed
qed

text \<open>Every idle connection is found: a client slot that has been inactive for 60 seconds at some time
  is freed by any eleven passes of the scan made from then on, wherever the scan starts.\<close>

theorem timeout_sweep:
  assumes "reactor_reach u" "i < MAX_EVENTS" "ev_status (gevents (react u) ! i) = 1"
    and "now - ev_last_active (gevents (react u) ! i) \<ge> 60" "length ts = 11" "\<forall>t\<in>set ts. now \<le> t"
  shows "ev_status (gevents (fold (scan 100) ts (react u)) ! i) = 0"
proof -
  let ?s = "react u"
  have t: "table_ok ?s" using reach_table [OF assms(1)] .
  have c: "checkpos ?s \<le> MAX_EVENTS" by (rule table_ok_facts(2) [OF t])
  let ?j = "(i + MAX_EVENTS - checkpos ?s) mod MAX_EVENTS"
  have "(checkpos ?s + ?j) mod MAX_EVENTS = i" using c assms(2) by (simp add: mod_add_right_eq)
  moreover have "?j < 100 * length ts"
    using assms(5) by (intro less_trans [OF mod_less_divisor]) (simp_all add: MAX_EVENTS_def)
  ultimately have "visited (checkpos ?s) (100 * length ts) i" unfolding visited_def by blast
  with passes_close [OF t assms(2) _ assms(6)] assms(3,4) have "\<not> registered (fold (scan 100) ts ?s) i"
    by (simp add: idle_def registered_def)
  with table_ok_slot [OF passes_table [OF t, of ts], of i] assms(2) show ?thesis
    by (auto simp: slot_ok_def registered_def Let_def)
qed

theorem timeout_sweep_witness:
  "ev_status (gevents (fold (scan 100) [60, 61, 62, 63, 64, 65, 66, 67, 68, 69, 70] connected) ! 0) = 0"
  using timeout_sweep [OF connected_reach, of 0 60 "[60, 61, 62, 63, 64, 65, 66, 67, 68, 69, 70]"]
  by (simp add: connected_slot set_event_def MAX_EVENTS_def)

end
