(* ===== verification/C11_Pool.thy ===== *)
theory C11_Pool
  imports Prelude
begin

text \<open>
  The class \<open>ThreadPool\<close> of socket/thread_Pool/C11/ThreadPool.h: a mutex, one condition variable, a
  queue of closures and a stop flag, shared by the workers the constructor starts, the clients in
  \<open>enqueue\<close> and the destructor. A thread is a program counter and a step takes it from one
  synchronisation point to the next.
\<close>

section \<open>States\<close>

text \<open>
  A queued closure is a number: what \<open>packaged_task\<close> makes of the function and its arguments is not
  looked at by the pool. The wait with a predicate is a loop: test, wait, get the lock back, test.
\<close>

datatype thread =
    Client                    \<comment> \<open>between calls\<close>
  | Enq_lock nat              \<comment> \<open>enqueue: about to lock \<open>queue_mutex\<close>\<close>
  | Enq_test nat              \<comment> \<open>enqueue: lock held, about to test \<open>stop\<close>\<close>
  | Enq_notify                \<comment> \<open>enqueue: task queued, lock given back, about to notify one\<close>
  | Wk_lock                   \<comment> \<open>worker: about to lock\<close>
  | Wk_test                   \<comment> \<open>worker: lock held, about to test the predicate\<close>
  | Wk_wait                   \<comment> \<open>worker: waiting on \<open>condition\<close>\<close>
  | Wk_run nat                \<comment> \<open>worker: running a task\<close>
  | Wk_end                    \<comment> \<open>worker: returned\<close>
  | Dt_lock                   \<comment> \<open>destructor: about to lock\<close>
  | Dt_set                    \<comment> \<open>destructor: lock held, about to set \<open>stop\<close>\<close>
  | Dt_notify                 \<comment> \<open>destructor: about to notify all\<close>
  | Dt_join nat               \<comment> \<open>destructor: joining the worker with this index\<close>
  | Dt_done                   \<comment> \<open>destructor: returned\<close>

text \<open>
  \<open>workers\<close> holds the threads the constructor started. The last four fields are ghost state: the
  tasks accepted, taken and executed so far, and those \<open>enqueue\<close> refused with an exception.
\<close>

record cpool =
  queue_mutex :: "nat option"
  tasks :: "nat list"
  stop :: bool
  workers :: "nat list"
  threads_of :: "thread list"
  accepted :: "nat list"
  popped :: "nat list"
  executed :: "nat list"
  refused :: "nat list"

definition at :: "cpool \<Rightarrow> nat \<Rightarrow> thread \<Rightarrow> bool" where
  "at s t c \<longleftrightarrow> t < length (threads_of s) \<and> threads_of s ! t = c"

definition go_to :: "nat \<Rightarrow> thread \<Rightarrow> cpool \<Rightarrow> cpool" where
  "go_to t c s = s\<lparr>threads_of := (threads_of s)[t := c]\<rparr>"

text \<open>\<open>notify_all\<close>: a notified worker has to get the lock back and tests the predicate again.\<close>

definition wake_all :: "thread list \<Rightarrow> thread list" where
  "wake_all = map (\<lambda>c. if c = Wk_wait then Wk_lock else c)"

text \<open>An object is destroyed once.\<close>

fun destroying :: "thread \<Rightarrow> bool" where
  "destroying Dt_lock = True" | "destroying Dt_set = True" | "destroying Dt_notify = True"
| "destroying (Dt_join i) = True" | "destroying Dt_done = True" | "destroying c = False"

section \<open>Steps\<close>

inductive c11_step :: "nat \<Rightarrow> cpool \<Rightarrow> cpool \<Rightarrow> bool" where
  worker_lock: "at s t Wk_lock \<Longrightarrow> queue_mutex s = None \<Longrightarrow>
    c11_step t s (go_to t Wk_test (s\<lparr>queue_mutex := Some t\<rparr>))"
| worker_wait: "at s t Wk_test \<Longrightarrow> \<not> (stop s \<or> tasks s \<noteq> []) \<Longrightarrow>
    c11_step t s (go_to t Wk_wait (s\<lparr>queue_mutex := None\<rparr>))"
| worker_return: "at s t Wk_test \<Longrightarrow> stop s \<Longrightarrow> tasks s = [] \<Longrightarrow>
    c11_step t s (go_to t Wk_end (s\<lparr>queue_mutex := None\<rparr>))"
| worker_pop: "at s t Wk_test \<Longrightarrow> tasks s = k # ks \<Longrightarrow>
    c11_step t s (go_to t (Wk_run k) (s\<lparr>queue_mutex := None, tasks := ks, popped := popped s @ [k]\<rparr>))"
| worker_run: "at s t (Wk_run k) \<Longrightarrow>
    c11_step t s (go_to t Wk_lock (s\<lparr>executed := executed s @ [k]\<rparr>))"
| spurious: "at s t Wk_wait \<Longrightarrow> c11_step t s (go_to t Wk_lock s)"
| enqueue_call: "at s t Client \<Longrightarrow> c11_step t s (go_to t (Enq_lock k) s)"
| enqueue_lock: "at s t (Enq_lock k) \<Longrightarrow> queue_mutex s = None \<Longrightarrow>
    c11_step t s (go_to t (Enq_test k) (s\<lparr>queue_mutex := Some t\<rparr>))"
| enqueue_throw: "at s t (Enq_test k) \<Longrightarrow> stop s \<Longrightarrow>
    c11_step t s (go_to t Client (s\<lparr>queue_mutex := None, refused := refused s @ [k]\<rparr>))"
| enqueue_emplace: "at s t (Enq_test k) \<Longrightarrow> \<not> stop s \<Longrightarrow>
    c11_step t s (go_to t Enq_notify
      (s\<lparr>queue_mutex := None, tasks := tasks s @ [k], accepted := accepted s @ [k]\<rparr>))"
| enqueue_notify_one: "at s t Enq_notify \<Longrightarrow> at s u Wk_wait \<Longrightarrow>
    c11_step t s (go_to t Client (go_to u Wk_lock s))"
| enqueue_notify_none: "at s t Enq_notify \<Longrightarrow> Wk_wait \<notin> set (threads_of s) \<Longrightarrow>
    c11_step t s (go_to t Client s)"
| destroy_call: "at s t Client \<Longrightarrow> \<not> list_ex destroying (threads_of s) \<Longrightarrow>
    c11_step t s (go_to t Dt_lock s)"
| destroy_lock: "at s t Dt_lock \<Longrightarrow> queue_mutex s = None \<Longrightarrow>
    c11_step t s (go_to t Dt_set (s\<lparr>queue_mutex := Some t\<rparr>))"
| destroy_set: "at s t Dt_set \<Longrightarrow>
    c11_step t s (go_to t Dt_notify (s\<lparr>queue_mutex := None, stop := True\<rparr>))"
| destroy_notify: "at s t Dt_notify \<Longrightarrow>
    c11_step t s (go_to t (Dt_join 0) (s\<lparr>threads_of := wake_all (threads_of s)\<rparr>))"
| destroy_join: "at s t (Dt_join i) \<Longrightarrow> i < length (workers s) \<Longrightarrow> at s (workers s ! i) Wk_end \<Longrightarrow>
    c11_step t s (go_to t (Dt_join (Suc i)) s)"
| destroy_return: "at s t (Dt_join i) \<Longrightarrow> i = length (workers s) \<Longrightarrow>
    c11_step t s (go_to t Dt_done s)"

inductive_cases c11_stepE: "c11_step t s s'"

text \<open>
  After the constructor: \<open>n\<close> workers, started in order, and \<open>c\<close> clients.
\<close>

definition c11_start :: "nat \<Rightarrow> nat \<Rightarrow> cpool" where
  "c11_start c n = \<lparr>queue_mutex = None, tasks = [], stop = False, workers = [c..<c + n],
     threads_of = replicate c Client @ replicate n Wk_lock,
     accepted = [], popped = [], executed = [], refused = []\<rparr>"

definition c11_init :: "cpool \<Rightarrow> bool" where
  "c11_init s \<longleftrightarrow> (\<exists>c n. s = c11_start c n)"

abbreviation c11_reach :: "cpool \<Rightarrow> bool" where
  "c11_reach \<equiv> reach c11_init c11_step"

section \<open>The invariant\<close>

fun has_lock :: "thread \<Rightarrow> bool" where
  "has_lock Wk_test = True" | "has_lock (Enq_test k) = True" | "has_lock Dt_set = True" | "has_lock c = False"

fun running :: "thread \<Rightarrow> nat multiset" where
  "running (Wk_run k) = {#k#}" | "running c = {#}"

text \<open>Workers that will look at the queue again, and notifications still to be sent.\<close>

fun awake :: "thread \<Rightarrow> bool" where
  "awake Wk_lock = True" | "awake Wk_test = True" | "awake (Wk_run k) = True" | "awake Enq_notify = True"
| "awake c = False"

fun is_worker :: "thread \<Rightarrow> bool" where
  "is_worker Wk_lock = True" | "is_worker Wk_test = True" | "is_worker Wk_wait = True"
| "is_worker (Wk_run k) = True" | "is_worker Wk_end = True" | "is_worker c = False"

text \<open>What a thread's program counter says of the pool.\<close>

fun place_ok :: "cpool \<Rightarrow> thread \<Rightarrow> bool" where
  "place_ok s Wk_end = (stop s \<and> tasks s = [])"
| "place_ok s Dt_notify = stop s"
| "place_ok s (Dt_join i) = (stop s \<and> i \<le> length (workers s) \<and> Wk_wait \<notin> set (threads_of s)
     \<and> (\<forall>j<i. at s (workers s ! j) Wk_end))"
| "place_ok s Dt_done = (stop s \<and> (\<forall>j<length (workers s). at s (workers s ! j) Wk_end))"
| "place_ok s c = True"

definition c11_inv :: "cpool \<Rightarrow> bool" where
  "c11_inv s \<longleftrightarrow>
     (\<forall>t<length (threads_of s). has_lock (threads_of s ! t) \<longleftrightarrow> queue_mutex s = Some t)
     \<and> (case queue_mutex s of None \<Rightarrow> True | Some u \<Rightarrow> u < length (threads_of s))
     \<and> accepted s = popped s @ tasks s
     \<and> mset (popped s) = mset (executed s) + gather running (threads_of s)
     \<and> (\<forall>t<length (threads_of s). place_ok s (threads_of s ! t))
     \<and> (\<forall>t<length (threads_of s). is_worker (threads_of s ! t) \<longleftrightarrow> t \<in> set (workers s))
     \<and> set (workers s) \<subseteq> {..<length (threads_of s)}
     \<and> (stop s \<and> Wk_wait \<in> set (threads_of s) \<longrightarrow> Dt_notify \<in> set (threads_of s))
     \<and> (\<not> stop s \<and> Wk_wait \<in> set (threads_of s) \<longrightarrow> int (length (tasks s)) \<le> cnt awake (threads_of s))"

end
