(* ===== verification/C11_Proofs.thy ===== *)
theory C11_Proofs
  imports C11_Pool
begin

text \<open>
  The invariant of the C++11 pool, by cases on its step relation, and what it gives: mutual
  exclusion, every task executed once and in order, a destructor that drains the queue and does not
  hang, no wake-up lost.
\<close>

lemmas go_defs = at_def go_to_def nth_list_update

lemma wake_all_simps [simp]:
  "length (wake_all cs) = length cs" "Wk_wait \<notin> set (wake_all cs)"
  "t < length cs \<Longrightarrow> wake_all cs ! t = (if cs ! t = Wk_wait then Wk_lock else cs ! t)"
  by (auto simp: wake_all_def)

lemma step_frame:
  assumes "c11_step t s s'"
  shows "workers s' = workers s" "length (threads_of s') = length (threads_of s)"
    "at s w Wk_end \<Longrightarrow> at s' w Wk_end" "stop s \<Longrightarrow> stop s'"
  using assms by (auto elim!: c11_stepE simp: go_defs)

lemma step_lock:
  assumes "c11_step t s s'" "\<forall>t<length (threads_of s). has_lock (threads_of s ! t) \<longleftrightarrow> queue_mutex s = Some t"
  shows "\<forall>t<length (threads_of s'). has_lock (threads_of s' ! t) \<longleftrightarrow> queue_mutex s' = Some t"
  using assms(1)
proof cases
  case (enqueue_notify_one u)
  with assms(2) show ?thesis by (auto simp: go_defs)
next
  case destroy_notify
  with assms(2) show ?thesis by (auto simp: go_defs)
qed (use assms(2) in \<open>auto simp: go_defs\<close>)

lemma step_owner:
  assumes "c11_step t s s'" "case queue_mutex s of None \<Rightarrow> True | Some u \<Rightarrow> u < length (threads_of s)"
  shows "case queue_mutex s' of None \<Rightarrow> True | Some u \<Rightarrow> u < length (threads_of s')"
  using assms by (auto elim!: c11_stepE simp: go_to_def at_def split: option.splits)

lemma step_history:
  assumes "c11_step t s s'" "accepted s = popped s @ tasks s"
  shows "accepted s' = popped s' @ tasks s'"
  using assms by (auto elim!: c11_stepE simp: go_to_def)

lemma gather_same: "t < length cs \<Longrightarrow> f c = f (cs ! t) \<Longrightarrow> gather f (cs[t := c]) = gather f cs"
  using gather_update [of t cs f c] by simp

lemma gather_wake [simp]: "gather running (wake_all cs) = gather running cs"
  by (induction cs) (auto simp: wake_all_def)

lemma step_flight:
  assumes "c11_step t s s'" "mset (popped s) = mset (executed s) + gather running (threads_of s)"
  shows "mset (popped s') = mset (executed s') + gather running (threads_of s')"
  using assms(1)
proof cases
  case (worker_pop k ks)
  with assms(2) gather_update [of t "threads_of s" running "Wk_run k"] show ?thesis by (auto simp: go_defs)
next
  case (worker_run k)
  with assms(2) gather_update [of t "threads_of s" running Wk_lock] show ?thesis by (auto simp: go_defs)
next
  case destroy_notify
  with assms(2) show ?thesis by (auto simp: go_defs gather_same)
qed (use assms(2) in \<open>auto simp: go_defs gather_same\<close>)

lemma step_workers:
  assumes "c11_step t s s'" "\<forall>t<length (threads_of s). is_worker (threads_of s ! t) \<longleftrightarrow> t \<in> set (workers s)"
  shows "\<forall>t<length (threads_of s'). is_worker (threads_of s' ! t) \<longleftrightarrow> t \<in> set (workers s')"
  using assms(1)
proof cases
  case (enqueue_notify_one u)
  with assms(2) show ?thesis by (auto simp: go_defs)
next
  case destroy_notify
  with assms(2) show ?thesis by (auto simp: go_defs)
qed (use assms(2) in \<open>auto simp: go_defs\<close>)

lemma wait_update: "Wk_wait \<in> set (cs[t := c]) \<Longrightarrow> c = Wk_wait \<or> Wk_wait \<in> set cs"
  using set_update_subset_insert by fastforce

lemma keep_elem: "d \<in> set cs \<Longrightarrow> t < length cs \<Longrightarrow> cs ! t \<noteq> d \<Longrightarrow> d \<in> set (cs[t := c])"
  by (metis in_set_conv_nth length_list_update nth_list_update_neq)

lemma set_updateI: "t < length cs \<Longrightarrow> c \<in> set (cs[t := c])"
  by (rule set_update_memI)

lemma step_stop_wait:
  assumes "c11_step t s s'" "stop s \<and> Wk_wait \<in> set (threads_of s) \<longrightarrow> Dt_notify \<in> set (threads_of s)"
  shows "stop s' \<and> Wk_wait \<in> set (threads_of s') \<longrightarrow> Dt_notify \<in> set (threads_of s')"
  using assms(1)
proof cases
  case (enqueue_notify_one u)
  with assms(2) show ?thesis
    by (auto simp: go_defs dest!: wait_update intro!: keep_elem split: if_splits)
next
  case destroy_set
  then show ?thesis by (auto simp: at_def go_to_def intro: set_updateI)
next
  case destroy_notify
  then show ?thesis by (auto simp: at_def go_to_def dest!: wait_update)
qed (use assms(2) in \<open>auto simp: at_def go_to_def dest!: wait_update intro!: keep_elem\<close>)

lemma step_enough:
  assumes "c11_step t s s'"
    and "\<not> stop s \<and> Wk_wait \<in> set (threads_of s) \<longrightarrow> int (length (tasks s)) \<le> cnt awake (threads_of s)"
  shows "\<not> stop s' \<and> Wk_wait \<in> set (threads_of s') \<longrightarrow> int (length (tasks s')) \<le> cnt awake (threads_of s')"
  using assms(1)
proof cases
  case worker_wait
  then show ?thesis using cnt_nonneg by (auto simp: go_to_def)
next
  case (enqueue_notify_one u)
  then have "t \<noteq> u" by (auto simp: at_def)
  with enqueue_notify_one assms(2) show ?thesis
    by (auto simp: at_def go_to_def cnt_update nth_list_update dest!: wait_update)
next
  case enqueue_notify_none
  then show ?thesis by (auto simp: go_to_def dest!: wait_update)
next
  case destroy_notify
  then show ?thesis by (auto simp: go_to_def dest!: wait_update)
qed (use assms(2) in \<open>auto simp: at_def go_to_def cnt_update dest!: wait_update\<close>)


text \<open>
  What the other threads' program counters say survives a step: ended workers stay ended, nobody
  starts to wait once \<open>stop\<close> is set, and nothing is queued then.
\<close>

lemma place_other:
  assumes "c11_step t s s'" "place_ok s c"
    and "stop s \<and> Wk_wait \<in> set (threads_of s) \<longrightarrow> Dt_notify \<in> set (threads_of s)"
  shows "place_ok s' c"
proof -
  note fr = step_frame [OF assms(1)]
  have tk: "stop s \<Longrightarrow> tasks s = [] \<Longrightarrow> tasks s' = []"
    using assms(1) by (auto elim!: c11_stepE simp: go_to_def)
  have wt: "stop s \<Longrightarrow> Wk_wait \<notin> set (threads_of s) \<Longrightarrow> Wk_wait \<notin> set (threads_of s')"
    using assms(1) by (auto elim!: c11_stepE simp: go_to_def at_def dest!: wait_update)
  show ?thesis using assms(2) fr tk wt by (cases c) auto
qed

lemma place_mover:
  assumes "c11_step t s s'" "place_ok s (threads_of s ! t)"
  shows "place_ok s' (threads_of s' ! t)"
  using assms(1)
proof cases
  case (destroy_join i)
  have "at s' (workers s ! j) Wk_end" if "j < Suc i" for j
    using step_frame(3) [OF assms(1)] assms(2) destroy_join that by (auto simp: less_Suc_eq at_def)
  moreover have "Wk_wait \<notin> set (threads_of s')"
    using assms(2) destroy_join by (auto simp: at_def go_to_def dest!: wait_update)
  ultimately show ?thesis using destroy_join assms(2) by (auto simp: at_def go_to_def)
next
  case (destroy_return i)
  have "at s' (workers s ! j) Wk_end" if "j < i" for j
    using step_frame(3) [OF assms(1)] assms(2) destroy_return that by (auto simp: at_def)
  then show ?thesis using destroy_return assms(2) by (auto simp: at_def go_to_def)
next
  case destroy_notify
  with assms(2) show ?thesis by (auto simp: at_def go_to_def dest!: wait_update)
qed (use assms(2) in \<open>auto simp: at_def go_to_def\<close>)

lemma woken_place: "c11_step t s s' \<Longrightarrow> u \<noteq> t \<Longrightarrow> u < length (threads_of s) \<Longrightarrow>
    threads_of s' ! u = threads_of s ! u \<or> threads_of s' ! u = Wk_lock"
  by (auto elim!: c11_stepE simp: go_defs)

lemma step_place:
  assumes "c11_step t s s'" "\<forall>u<length (threads_of s). place_ok s (threads_of s ! u)"
    and "stop s \<and> Wk_wait \<in> set (threads_of s) \<longrightarrow> Dt_notify \<in> set (threads_of s)"
  shows "\<forall>u<length (threads_of s'). place_ok s' (threads_of s' ! u)"
proof (intro allI impI)
  fix u assume "u < length (threads_of s')"
  then have u: "u < length (threads_of s)" using step_frame(2) [OF assms(1)] by simp
  show "place_ok s' (threads_of s' ! u)"
  proof (cases "u = t")
    case True
    with place_mover [OF assms(1)] assms(2) u show ?thesis by simp
  next
    case False
    from woken_place [OF assms(1) this u] place_other [OF assms(1) _ assms(3)] assms(2) u show ?thesis by auto
  qed
qed

lemma c11_inv_step: "c11_inv s \<Longrightarrow> c11_step t s s' \<Longrightarrow> c11_inv s'"
  using step_lock [of t s s'] step_owner [of t s s'] step_history [of t s s'] step_flight [of t s s'] step_place [of t s s']
    step_workers [of t s s'] step_frame(1,2) [of t s s'] step_stop_wait [of t s s'] step_enough [of t s s']
  unfolding c11_inv_def by simp

lemma c11_inv_start: "c11_inv (c11_start c n)"
proof -
  have "is_worker ((replicate c Client @ replicate n Wk_lock) ! t) \<longleftrightarrow> c \<le> t" if "t < c + n" for t
    using that by (simp add: nth_append)
  moreover have "\<not> has_lock ((replicate c Client @ replicate n Wk_lock) ! t)"
    "place_ok (c11_start c n) ((replicate c Client @ replicate n Wk_lock) ! t)" if "t < c + n" for t
    using that by (auto simp: nth_append)
  ultimately show ?thesis unfolding c11_inv_def by (auto simp: c11_start_def)
qed

interpretation c11: inductive_invariant c11_init c11_step c11_inv
  by unfold_locales (auto simp: c11_init_def c11_inv_start intro: c11_inv_step)

section \<open>A run\<close>

inductive_simps c11_step_iff: "c11_step t s s'"

text \<open>One client (thread 0) and one worker (thread 1), which waits; the client enqueues a task, then destroys the pool.\<close>

definition shot :: "nat option \<Rightarrow> nat list \<Rightarrow> bool \<Rightarrow> thread list \<Rightarrow> nat list \<Rightarrow> nat list \<Rightarrow> nat list \<Rightarrow> cpool" where
  "shot m ts b cs ac pp ex = \<lparr>queue_mutex = m, tasks = ts, stop = b, workers = [1], threads_of = cs,
     accepted = ac, popped = pp, executed = ex, refused = []\<rparr>"

lemma next_shot: "c11_reach s \<Longrightarrow> c11_step t s s' \<Longrightarrow> c11_reach s'"
  by (rule reach.reach_step)

lemmas shot_step = c11_step_iff shot_def at_def go_to_def nth_Cons' wake_all_def

lemma shot0: "c11_reach (shot None [] False [Client, Wk_lock] [] [] [])"
proof (rule reach_init)
  have "shot None [] False [Client, Wk_lock] [] [] [] = c11_start 1 1" by (simp add: shot_def c11_start_def)
  then show "c11_init (shot None [] False [Client, Wk_lock] [] [] [])" unfolding c11_init_def by blast
qed

lemma shot1: "c11_reach (shot None [] False [Client, Wk_wait] [] [] [])"
  by (rule next_shot [OF next_shot [OF shot0, of 1 "shot (Some 1) [] False [Client, Wk_test] [] [] []"], of 1])
     (simp_all add: shot_step)

lemma shot2: "c11_reach (shot (Some 0) [] False [Enq_test 7, Wk_wait] [] [] [])"
  by (rule next_shot [OF next_shot [OF shot1, of 0 "shot None [] False [Enq_lock 7, Wk_wait] [] [] []"], of 0])
     (simp_all add: shot_step)

lemma shot3: "c11_reach (shot None [7] False [Enq_notify, Wk_wait] [7] [] [])"
  by (rule next_shot [OF shot2, of 0]) (simp add: shot_step)

lemma shot4: "c11_reach (shot None [7] False [Client, Wk_lock] [7] [] [])"
  by (rule next_shot [OF shot3, of 0])
     (use c11_step.enqueue_notify_one [of "shot None [7] False [Enq_notify, Wk_wait] [7] [] []" 0 1] in
       \<open>simp add: shot_def at_def go_to_def\<close>)

lemma shot5: "c11_reach (shot None [] False [Client, Wk_run 7] [7] [7] [])"
  by (rule next_shot [OF next_shot [OF shot4, of 1 "shot (Some 1) [7] False [Client, Wk_test] [7] [] []"], of 1])
     (simp_all add: shot_step)

lemma shot6: "c11_reach (shot None [] False [Dt_lock, Wk_lock] [7] [7] [7])"
  by (rule next_shot [OF next_shot [OF shot5, of 1 "shot None [] False [Client, Wk_lock] [7] [7] [7]"], of 0])
     (simp_all add: shot_step)

lemma shot7: "c11_reach (shot None [] True [Dt_join 0, Wk_lock] [7] [7] [7])"
  by (rule next_shot [OF next_shot [OF next_shot [OF shot6, of 0 "shot (Some 0) [] False [Dt_set, Wk_lock] [7] [7] [7]"],
      of 0 "shot None [] True [Dt_notify, Wk_lock] [7] [7] [7]"], of 0])
     (simp_all add: shot_step)

lemma shot8: "c11_reach (shot None [] True [Dt_join 0, Wk_end] [7] [7] [7])"
  by (rule next_shot [OF next_shot [OF shot7, of 1 "shot (Some 1) [] True [Dt_join 0, Wk_test] [7] [7] [7]"], of 1])
     (simp_all add: shot_step)

lemma shot9: "c11_reach (shot None [] True [Dt_done, Wk_end] [7] [7] [7])"
  by (rule next_shot [OF next_shot [OF shot8, of 0 "shot None [] True [Dt_join 1, Wk_end] [7] [7] [7]"], of 0])
     (simp_all add: shot_step)

section \<open>Properties\<close>

lemma c11_facts:
  assumes "c11_reach s"
  shows "accepted s = popped s @ tasks s" "mset (popped s) = mset (executed s) + gather running (threads_of s)"
    "at s t c \<Longrightarrow> place_ok s c" "at s t c \<Longrightarrow> has_lock c \<longleftrightarrow> queue_mutex s = Some t"
    "t \<in> set (workers s) \<Longrightarrow> t < length (threads_of s)"
    "t < length (threads_of s) \<Longrightarrow> is_worker (threads_of s ! t) \<longleftrightarrow> t \<in> set (workers s)"
    "queue_mutex s = Some t \<Longrightarrow> t < length (threads_of s)"
  using c11.inv_reach [OF assms] unfolding c11_inv_def by (auto simp: at_def)

text \<open>Mutual exclusion in the C++11 pool: at most one thread is between locking and unlocking
  \<open>queue_mutex\<close>, and that thread owns it.\<close>

theorem c11_mutex:
  assumes "c11_reach s" "at s t c" "at s u d" "has_lock c" "has_lock d"
  shows "t = u \<and> queue_mutex s = Some t"
  using c11_facts(4) [OF assms(1,2)] c11_facts(4) [OF assms(1,3)] assms(4,5) by simp

theorem c11_mutex_witness: "queue_mutex (shot (Some 0) [] False [Enq_test 7, Wk_wait] [] [] []) = Some 0"
  using c11_mutex [OF shot2, of 0 "Enq_test 7" 0 "Enq_test 7"] by (simp add: shot_def at_def)

text \<open>C19. The C++11 pool runs tasks in order and once: the accepted tasks are those taken, in the order they
  were accepted, followed by those queued; a taken task has been executed or is run by one worker.\<close>

theorem c11_exactly_once:
  assumes "c11_reach s"
  shows "accepted s = popped s @ tasks s \<and> mset (popped s) = mset (executed s) + gather running (threads_of s)"
  using c11_facts(1,2) [OF assms] by blast

theorem c11_exactly_once_witness:
  "gather running (threads_of (shot None [] False [Client, Wk_run 7] [7] [7] [])) = {#7#}"
  using c11_exactly_once [OF shot5] by (simp add: shot_def)

lemma idle_running: "\<not> is_worker c \<Longrightarrow> running c = {#}"
  by (cases c) auto

text \<open>C20. The destructor finishes the work: when it has returned, in a pool with at least one worker, every
  accepted task has been executed exactly once, none is left in the queue and every worker has ended.\<close>

theorem c11_destructor_drains:
  assumes "c11_reach s" "at s t Dt_done" "workers s \<noteq> []"
  shows "tasks s = [] \<and> mset (executed s) = mset (accepted s)
    \<and> list_all (\<lambda>w. threads_of s ! w = Wk_end) (workers s)"
proof -
  have ended: "\<forall>j<length (workers s). at s (workers s ! j) Wk_end"
    using c11_facts(3) [OF assms(1,2)] by simp
  with assms(3) have "at s (workers s ! 0) Wk_end" by simp
  then have empty: "tasks s = []" using c11_facts(3) [OF assms(1)] by fastforce
  have in_end: "threads_of s ! w = Wk_end" if "w \<in> set (workers s)" for w
    using ended that by (metis at_def in_set_conv_nth)
  have "running c = {#}" if "c \<in> set (threads_of s)" for c
  proof -
    from that obtain u where u: "u < length (threads_of s)" "c = threads_of s ! u" by (metis in_set_conv_nth)
    show ?thesis
    proof (cases "u \<in> set (workers s)")
      case True
      with in_end u(2) show ?thesis by simp
    next
      case False
      with c11_facts(6) [OF assms(1) u(1)] u(2) show ?thesis by (simp add: idle_running)
    qed
  qed
  then have "gather running (threads_of s) = {#}" by (rule gather_empty)
  with empty in_end c11_facts(1,2) [OF assms(1)] show ?thesis by (simp add: list_all_iff)
qed

theorem c11_destructor_drains_witness:
  "tasks (shot None [] True [Dt_done, Wk_end] [7] [7] [7]) = []
     \<and> executed (shot None [] True [Dt_done, Wk_end] [7] [7] [7]) = [7]"
  using c11_destructor_drains [OF shot9, of 0] by (simp add: shot_def at_def)

text \<open>C21. No lost wake-up: while the pool is open and a worker waits, there are at least as many workers on
  their way to the queue (or notifications on their way to a worker) as there are queued tasks.\<close>

theorem c11_no_lost_wakeup:
  assumes "c11_reach s" "\<not> stop s" "at s t Wk_wait"
  shows "length (tasks s) \<le> length (filter awake (threads_of s))"
proof -
  have "Wk_wait \<in> set (threads_of s)" using assms(3) by (metis at_def nth_mem)
  with c11.inv_reach [OF assms(1)] assms(2) show ?thesis unfolding c11_inv_def by (simp add: cnt_length)
qed

theorem c11_no_lost_wakeup_witness: "1 \<le> length (filter awake [Enq_notify, Wk_wait])"
  using c11_no_lost_wakeup [OF shot3, of 1] by (simp add: shot_def at_def)

text \<open>The destructor does not hang: while it joins a worker, that worker has ended or is awake, and either
  it or the thread that holds the lock can take a step.\<close>

theorem c11_join_progress:
  assumes "c11_reach s" "at s t (Dt_join i)" "i < length (workers s)"
  shows "at s (workers s ! i) Wk_end \<or> (\<exists>s'. c11_step (workers s ! i) s s')
    \<or> (\<exists>u s'. queue_mutex s = Some u \<and> c11_step u s s')"
proof -
  let ?w = "workers s ! i"
  have w: "?w < length (threads_of s)" "is_worker (threads_of s ! ?w)"
    using c11_facts(5,6) [OF assms(1)] assms(3) by auto
  have nw: "Wk_wait \<notin> set (threads_of s)" and st: "stop s" using c11_facts(3) [OF assms(1,2)] by auto
  have holder: "\<exists>s'. c11_step u s s'" if u: "at s u c" "has_lock c" for u c
  proof (cases c)
    case Wk_test
    with u(1) st show ?thesis by (cases "tasks s") (auto intro: c11_step.intros)
  next
    case (Enq_test k)
    with u(1) st show ?thesis by (auto intro: c11_step.intros)
  next
    case Dt_set
    with u(1) show ?thesis by (auto intro: c11_step.intros)
  qed (use u(2) in auto)
  have at_w: "at s ?w (threads_of s ! ?w)" using w(1) by (simp add: at_def)
  show ?thesis
  proof (cases "threads_of s ! ?w")
    case Wk_lock
    show ?thesis
    proof (cases "queue_mutex s")
      case None
      with Wk_lock at_w show ?thesis by (auto intro: c11_step.intros)
    next
      case (Some u)
      then have "at s u (threads_of s ! u)" using c11_facts(7) [OF assms(1)] by (simp add: at_def)
      with Some holder c11_facts(4) [OF assms(1) this] show ?thesis by blast
    qed
  next
    case Wk_test
    with holder at_w show ?thesis by auto
  next
    case Wk_wait
    with nw w(1) show ?thesis by (metis nth_mem)
  next
    case (Wk_run k)
    with at_w show ?thesis by (auto intro: c11_step.intros)
  next
    case Wk_end
    with at_w show ?thesis by simp
  qed (use w(2) in auto)
qed

theorem c11_join_progress_witness:
  "\<exists>s'. c11_step 1 (shot None [] True [Dt_join 0, Wk_lock] [7] [7] [7]) s'"
  using c11_join_progress [OF shot7, of 0 0] by (simp add: shot_def at_def)

end
