(* ===== verification/Server_Pool.thy ===== *)
theory Server_Pool
  imports Pool_Progress
begin

text \<open>
  The class variant of the thread pool in socket/Server/ThreadPoll.cpp. Its methods \<open>addTask\<close>,
  \<open>createThread\<close>, \<open>createManagerThread\<close> and \<open>is_thread_alive\<close> have, statement by statement, the bodies
  of \<open>threadpool_add\<close>, \<open>threadpool_thread\<close>, \<open>adjust_thread\<close> and \<open>is_thread_alive\<close>; the objects are
  the same struct. What differs is how the pool is made: \<open>ThreadPoolInit\<close>, modelled here, and what
  becomes of a pool made that way when its threads run.
\<close>

section \<open>ThreadPoolInit\<close>

definition MIN_THREAD_NUM :: int where "MIN_THREAD_NUM = 4"
definition MAX_THREAD_NUM :: int where "MAX_THREAD_NUM = 100"

text \<open>Sizes in bytes, as the code's \<open>sizeof\<close> gives them on the platform it was written for.\<close>

definition sizeof_pthread_t :: nat where "sizeof_pthread_t = 8"
definition sizeof_task :: nat where "sizeof_task = 16"

text \<open>\<open>bzero\<close> of a number of bytes at the start of an array of thread ids.\<close>

definition bzero_ids :: "nat list \<Rightarrow> nat \<Rightarrow> nat list outcome" where
  "bzero_ids ts n =
     (if n \<le> sizeof_pthread_t * length ts
      then Inr (replicate (n div sizeof_pthread_t) 0 @ drop (n div sizeof_pthread_t) ts)
      else Inl Out_of_bounds)"

text \<open>
  The object before the call is an argument: \<open>queue_max_size\<close> is assigned to itself, so it keeps the
  value it had. \<open>new\<close> throws where \<open>malloc\<close> returns null. The second \<open>bzero\<close> is on \<open>threads\<close> again,
  with the size of the task queue.
\<close>

definition ThreadPoolInit :: "create_env \<Rightarrow> threadpool_t \<Rightarrow> (bool \<times> threadpool_t) outcome" where
  "ThreadPoolInit e this =
     (let p = this\<lparr>min_thr_num := MIN_THREAD_NUM, max_thr_num := MAX_THREAD_NUM, busy_thr_num := 0,
                live_thr_num := MIN_THREAD_NUM, wait_exit_thr_num := 0, queue_size := 0,
                queue_max_size := queue_max_size this, queue_front := 0, queue_rear := 0, shutdown := False\<rparr> in
      case new_threads e (max_thr_num p) of
        None \<Rightarrow> Inl Bad_alloc
      | Some ts \<Rightarrow>
          (case new_queue e (queue_max_size p) of
             None \<Rightarrow> Inl Bad_alloc
           | Some q \<Rightarrow>
               obind (bzero_ids ts (sizeof_pthread_t * nat (max_thr_num p))) (\<lambda>ts.
               obind (bzero_ids ts (sizeof_task * nat (queue_max_size p))) (\<lambda>ts.
               case init_locks (init_ret e) (p\<lparr>threads := Arr ts, task_queue := Arr q\<rparr>) of
                 (False, p) \<Rightarrow> Inr (False, p)
               | (True, p) \<Rightarrow>
                   obind (start_workers (new_tid e) 0 (nat (min_thr_num p)) (threads p)) (\<lambda>ts.
                   Inr (True, p\<lparr>threads := ts, adjust_tid := new_tid e (nat (min_thr_num p))\<rparr>))))))"

lemma bzero_all: "int (length ts) = n \<Longrightarrow> bzero_ids ts (sizeof_pthread_t * nat n) = Inr (replicate (length ts) 0)"
  by (auto simp: bzero_ids_def sizeof_pthread_t_def)

lemma bzero_again:
  "m * sizeof_task \<le> sizeof_pthread_t * n \<Longrightarrow> bzero_ids (replicate n 0) (sizeof_task * m) = Inr (replicate n 0)"
  by (simp add: bzero_ids_def sizeof_pthread_t_def sizeof_task_def mult.commute [of m] replicate_add [symmetric])

text \<open>Up to 50 tasks the call makes the pool that \<open>threadpool_create(4, 100, queue_max_size)\<close> makes.\<close>

lemma server_create:
  assumes "malloc_ok e" "ThreadPoolInit e this = Inr (True, p)" "queue_max_size this \<le> 50"
  shows "threadpool_create (e\<lparr>new_pool := Some this\<rparr>) t 4 100 (queue_max_size this) = Inr (Some p)"
proof -
  let ?q = "queue_max_size this"
  from assms(2) obtain ts q where a: "new_threads e 100 = Some ts" "new_queue e ?q = Some q"
    by (auto simp: ThreadPoolInit_def Let_def MAX_THREAD_NUM_def split: option.splits)
  with assms(1) have l: "int (length ts) = 100" "int (length q) = ?q" by (auto simp: malloc_ok_def)
  have "bzero_ids ts (sizeof_pthread_t * nat 100) = Inr (replicate (length ts) 0)" by (rule bzero_all [OF l(1)])
  moreover have "bzero_ids (replicate (length ts) 0) (sizeof_task * nat ?q) = Inr (replicate (length ts) 0)"
    by (rule bzero_again) (use l assms(3) in \<open>simp add: sizeof_task_def sizeof_pthread_t_def\<close>)
  ultimately show ?thesis using assms(2) a
    by (auto simp: ThreadPoolInit_def threadpool_create_def Let_def MIN_THREAD_NUM_def MAX_THREAD_NUM_def
        init_locks_def split: if_splits)
qed

section \<open>A pool without room\<close>

text \<open>
  \<open>new threadpool_t()\<close> zeroes the object, so \<open>queue_max_size\<close> is 0 after \<open>ThreadPoolInit\<close>: full and
  empty at once. The state of the running pool then: nothing queued, nothing ever stored.
\<close>

fun past_guard :: "pc \<Rightarrow> bool" where
  "past_guard (A_shut k) = True" | "past_guard W_shut = True" | "past_guard c = False"

fun at_ring :: "pc \<Rightarrow> bool" where
  "at_ring (A_put k) = True" | "at_ring W_take = True" | "at_ring c = False"

definition server_init :: "psys \<Rightarrow> bool" where
  "server_init s \<longleftrightarrow> (\<exists>e this p n. malloc_ok e \<and> queue_max_size this = 0
     \<and> ThreadPoolInit e this = Inr (True, p) \<and> s = start_state p n)"

definition calm :: "bool \<Rightarrow> pc list \<Rightarrow> bool" where
  "calm sh cs \<longleftrightarrow> (\<forall>c\<in>set cs. \<not> at_ring c) \<and> (\<not> sh \<longrightarrow> (\<forall>c\<in>set cs. \<not> past_guard c))"

text \<open>The struct, whole or already being taken apart.\<close>

definition pool_struct :: "psys \<Rightarrow> threadpool_t option" where
  "pool_struct s = (case the_pool s of None \<Rightarrow> dying s | Some p \<Rightarrow> Some p)"

lemma pool_struct_simps [simp]:
  "pool_struct (goto t c s) = pool_struct s" "pool_struct (set_pool p s) = Some p"
  "pool_struct (still_dying s) = pool_struct s" "pool_struct (s\<lparr>the_pool := None, dying := d\<rparr>) = d"
  "pool_struct (s\<lparr>pcs := cs\<rparr>) = pool_struct s" "the_pool s = Some p \<Longrightarrow> pool_struct s = Some p"
  by (auto simp: pool_struct_def still_dying_def state_simps split: option.splits)

definition no_room :: "psys \<Rightarrow> bool" where
  "no_room s \<longleftrightarrow> added s = [] \<and> taken s = []
     \<and> (\<forall>p. pool_struct s = Some p \<longrightarrow> queue_size p = 0 \<and> queue_max_size p = 0 \<and> calm (shutdown p) (pcs s))"

lemma calm_map:
  assumes "\<And>c. at_ring (f c) = at_ring c" "\<And>c. past_guard (f c) = past_guard c"
  shows "calm sh (map f cs) = calm sh cs"
  using assms by (simp add: calm_def)

lemma calm_simps [simp]:
  "calm sh (wake_workers cs) = calm sh cs" "calm sh (wake_adders cs) = calm sh cs"
  "calm sh (cs @ replicate n W_lock) = calm sh cs"
proof -
  show "calm sh (wake_workers cs) = calm sh cs"
    unfolding wake_workers_def by (rule calm_map) auto
  have "at_ring (case c of A_wait k \<Rightarrow> A_wake k | _ \<Rightarrow> c) = at_ring c"
    "past_guard (case c of A_wait k \<Rightarrow> A_wake k | _ \<Rightarrow> c) = past_guard c" for c by (cases c; simp)+
  then show "calm sh (wake_adders cs) = calm sh cs"
    unfolding wake_adders_def by (rule calm_map)
qed (auto simp: calm_def)

lemma calm_update: "calm sh cs \<Longrightarrow> \<not> at_ring c \<Longrightarrow> sh \<or> \<not> past_guard c \<Longrightarrow> calm sh (cs[t := c])"
  unfolding calm_def using set_update_subset_insert [of cs t c] by auto

lemma calm_wake: "wake_worker w cs = Some cs' \<Longrightarrow> calm sh cs \<Longrightarrow> calm sh cs'"
  by (auto simp: wake_worker_def intro!: calm_update split: option.splits if_splits)

lemma calm_nth:
  assumes "calm sh cs" "t < length cs"
  shows "\<not> at_ring (cs ! t)" "past_guard (cs ! t) \<Longrightarrow> sh"
  using assms nth_mem by (auto simp: calm_def)

lemma calm_shut: "calm False cs \<Longrightarrow> calm sh cs"
  by (simp add: calm_def)

lemma adjust_grow_keeps:
  "adjust_grow kl i p = Inr (n, p') \<Longrightarrow>
     queue_size p' = queue_size p \<and> queue_max_size p' = queue_max_size p \<and> shutdown p' = shutdown p"
  using adjust_grow_size [of kl i p n p'] arg_cong [OF grow_loop_frame [of kl i 0 0 p n p' 0 Null], of shutdown]
  by (simp add: adjust_grow_def)

lemma worker_woken_keeps:
  "worker_woken p = (e, p') \<Longrightarrow>
     queue_size p' = queue_size p \<and> queue_max_size p' = queue_max_size p \<and> shutdown p' = shutdown p"
  by (auto simp: worker_woken_def Let_def split: if_splits)

text \<open>One thread's step: nothing is stored or taken, and nobody gets past a guard before \<open>shutdown\<close>.\<close>

lemma free_queue_keeps:
  "free_queue p = Inr p' \<Longrightarrow>
     queue_size p' = queue_size p \<and> queue_max_size p' = queue_max_size p \<and> shutdown p' = shutdown p"
  by (auto simp: free_queue_def split: arr.splits)

lemma no_room_thread:
  assumes st: "pool_thread t w z c p s = Some (Inr s')" and c: "c = pcs s ! t" and t: "t < length (pcs s)"
    and p: "the_pool s = Some p" and q: "queue_size p = 0" "queue_max_size p = 0" and calm: "calm (shutdown p) (pcs s)"
  shows "added s' = added s \<and> taken s' = taken s
    \<and> (\<forall>p'. pool_struct s' = Some p' \<longrightarrow> queue_size p' = 0 \<and> queue_max_size p' = 0 \<and> calm (shutdown p') (pcs s'))"
proof -
  note n = calm_nth [OF calm t, folded c]
  show ?thesis
  proof (cases c)
    case (M_signal k)
    with st p q calm show ?thesis
      by (cases k) (auto simp: pool_thread_def intro!: calm_update split: option.splits dest: calm_wake)
  next
    case D_set
    with st p q calm show ?thesis
      by (auto simp: pool_thread_def intro!: calm_update) (simp add: calm_def)
  qed (use st n p q calm in \<open>auto simp: pool_thread_def critical_def adjust_shrink_def add_guard_def worker_guard_def
      intro!: calm_update
      dest!: acquireE releaseE worker_woken_keeps adjust_grow_keeps free_queue_keeps
      split: option.splits if_splits sum.splits fault.splits prod.splits bool.splits arr.splits\<close>)
qed

lemma no_room_quiet:
  assumes "no_room s" "quiet_step t (pcs s ! t) s = Some (Inr s')"
  shows "no_room s'"
proof -
  have "calm sh ((pcs s)[t := W_uncount])" "calm sh ((pcs s)[t := W_gone])" if "calm sh (pcs s)" for sh
    using that by (auto intro!: calm_update)
  moreover have "pool_struct (s\<lparr>finished := x\<rparr>) = pool_struct s" for x
    by (simp add: pool_struct_def split: option.split)
  ultimately show ?thesis using assms by (cases "pcs s ! t") (auto simp: no_room_def)
qed

lemma no_room_step: "no_room s \<Longrightarrow> pool_step l s = Some (Inr s') \<Longrightarrow> no_room s'"
proof -
  assume nr: "no_room s" and st: "pool_step l s = Some (Inr s')"
  show "no_room s'"
  proof (cases l)
    case (Step t w z)
    with st have t: "t < length (pcs s)" "thread_step t w z (pcs s ! t) s = Some (Inr s')"
      by (auto split: if_splits)
    show ?thesis
    proof (cases "quiet (pcs s ! t)")
      case True
      with no_room_quiet [OF nr] t(2) show ?thesis by (simp add: thread_step_def)
    next
      case False
      with t(2) have "on_pool (pool_thread t w z (pcs s ! t)) s = Some (Inr s')" by (simp add: thread_step_def)
      then show ?thesis
      proof (cases rule: on_poolE)
        case (1 p)
        with no_room_thread [OF 1(2) refl t(1) 1(1)] nr show ?thesis by (simp add: no_room_def)
      next
        case (2 p u)
        then have "pool_struct s = Some p" by (simp add: pool_struct_def)
        with no_room_thread [OF 2(3)] t(1) nr 2(4) show ?thesis by (simp add: no_room_def)
      qed
    qed
  qed (use st nr in \<open>auto simp: no_room_def intro!: calm_update split: if_splits pc.splits\<close>)
qed

lemma server_start: "server_init s \<Longrightarrow> no_room s"
proof -
  assume "server_init s"
  then obtain e this p n where i: "queue_max_size this = 0" "ThreadPoolInit e this = Inr (True, p)" "s = start_state p n"
    by (auto simp: server_init_def)
  then have "queue_size p = 0 \<and> queue_max_size p = 0 \<and> \<not> shutdown p"
    by (auto simp: ThreadPoolInit_def Let_def init_locks_def split: option.splits if_splits)
  moreover have "calm False (pcs s)" using i(3) by (auto simp: start_state_def calm_def)
  ultimately show ?thesis using i(3) by (auto simp: no_room_def start_state_def)
qed

interpretation server: inductive_invariant server_init "fires pool_step" no_room
  by unfold_locales (auto simp: fires_def intro: server_start no_room_step)

section \<open>Properties\<close>

text \<open>An object with room for \<open>q\<close> tasks before the call.\<close>

definition server_this :: "int \<Rightarrow> threadpool_t" where
  "server_this q = sample_raw\<lparr>queue_max_size := q\<rparr>"

lemma server_starts:
  assumes "malloc_ok e" "new_tid e = Suc" "0 < queue_max_size this" "queue_max_size this \<le> 50"
    and "ThreadPoolInit e this = Inr (True, p)"
  shows "init_sys (start_state p n) \<and> min_thr_num p = 4 \<and> max_thr_num p = 100 \<and> queue_max_size p = queue_max_size this"
proof -
  let ?e = "e\<lparr>new_pool := Some this\<rparr>"
  have c: "threadpool_create ?e 0 4 100 (queue_max_size this) = Inr (Some p)"
    by (rule server_create [OF assms(1,5,4)])
  have e: "malloc_ok ?e" "new_tid ?e = Suc" using assms(1,2) by (simp_all add: malloc_ok_def)
  have "init_sys (start_state p n)"
    unfolding init_sys_def using c e assms(3)
    by (intro exI [of _ ?e] exI [of _ 4] exI [of _ 100] exI [of _ "queue_max_size this"] exI [of _ p] exI [of _ n]) simp
  with create_fresh(2-4) [OF c e(1)] assms(3) show ?thesis by simp
qed

text \<open>\<open>ThreadPoolInit\<close> on an object whose \<open>queue_max_size\<close> is already between 1 and 50: when it succeeds,
  the running pool starts in a state of the pool \<open>threadpool_create\<close> makes with 4 to 100 threads, so
  everything proved of that pool holds of it.\<close>

theorem server_pool_starts:
  assumes "malloc_ok e" "new_tid e = Suc" "0 < queue_max_size this" "queue_max_size this \<le> 50"
    and "ThreadPoolInit e this = Inr (True, p)"
  shows "init_sys (start_state p n) \<and> min_thr_num p = 4 \<and> max_thr_num p = 100 \<and> queue_max_size p = queue_max_size this"
  using server_starts [OF assms] .

lemma server_sample: "\<exists>p. ThreadPoolInit sample_env (server_this 8) = Inr (True, p)"
proof -
  have "start_workers Suc 0 4 (Arr (replicate 100 0)) = Inr (Arr (map Suc [0..<4] @ replicate 96 0))"
    using start_workers_fills [of 0 4 "replicate 100 0" Suc] by simp
  then show ?thesis
    by (simp add: ThreadPoolInit_def server_this_def sample_env_def Let_def init_locks_def sample_raw_def
        bzero_ids_def sizeof_pthread_t_def sizeof_task_def MIN_THREAD_NUM_def MAX_THREAD_NUM_def replicate_add [symmetric])
qed

theorem server_pool_starts_witness: "\<exists>p. init_sys (start_state p 2) \<and> min_thr_num p = 4 \<and> queue_max_size p = 8"
proof -
  obtain p where "ThreadPoolInit sample_env (server_this 8) = Inr (True, p)" using server_sample by blast
  from server_pool_starts [OF sample_env_ok(1) _ _ _ this, of 2] show ?thesis
    by (auto simp: sample_env_def server_this_def)
qed

text \<open>A pool initialised on a zeroed object (\<open>new threadpool_t()\<close>) never accepts a task: its
  \<open>queue_max_size\<close> is assigned to itself and stays 0, so whatever its threads and clients do, no task
  is ever stored or taken.\<close>

theorem server_pool_never_accepts:
  assumes "reach server_init (fires pool_step) s"
  shows "added s = [] \<and> taken s = []"
  using server.inv_reach [OF assms] by (simp add: no_room_def)

lemma server_zeroed: "\<exists>p. ThreadPoolInit sample_env (server_this 0) = Inr (True, p) \<and> min_thr_num p = 4"
proof -
  have "start_workers Suc 0 4 (Arr (replicate 100 0)) = Inr (Arr (map Suc [0..<4] @ replicate 96 0))"
    using start_workers_fills [of 0 4 "replicate 100 0" Suc] by simp
  then show ?thesis
    by (simp add: ThreadPoolInit_def server_this_def sample_env_def Let_def init_locks_def sample_raw_def
        bzero_ids_def sizeof_pthread_t_def sizeof_task_def MIN_THREAD_NUM_def MAX_THREAD_NUM_def)
qed

theorem server_pool_never_accepts_witness:
  "\<exists>s. reach server_init (fires pool_step) s \<and> added s = [] \<and> length (pcs s) = 6"
proof -
  obtain p where p: "ThreadPoolInit sample_env (server_this 0) = Inr (True, p)" "min_thr_num p = 4"
    using server_zeroed by blast
  then have "server_init (start_state p 0)"
    unfolding server_init_def using sample_env_ok(1) by (auto simp: server_this_def intro!: exI)
  then have r: "reach server_init (fires pool_step) (start_state p 0)" by (rule reach_init)
  with server_pool_never_accepts [OF r] p(2) show ?thesis
    by (intro exI [of _ "start_state p 0"]) (simp add: start_state_def)
qed

text \<open>With more than 50 tasks the second \<open>bzero\<close>, meant for the task queue, runs past the end of the
  thread array.\<close>

theorem server_init_overrun:
  assumes "malloc_ok e" "new_threads e 100 = Some ts" "new_queue e (queue_max_size this) = Some q"
    and "50 < queue_max_size this"
  shows "ThreadPoolInit e this = Inl Out_of_bounds"
proof -
  have l: "int (length ts) = 100" using assms(1,2) by (auto simp: malloc_ok_def)
  have "bzero_ids ts (sizeof_pthread_t * nat 100) = Inr (replicate (length ts) 0)" by (rule bzero_all [OF l])
  moreover have "bzero_ids (replicate (length ts) 0) (sizeof_task * nat (queue_max_size this)) = Inl Out_of_bounds"
    using l assms(4) by (simp add: bzero_ids_def sizeof_task_def sizeof_pthread_t_def)
  ultimately show ?thesis using assms(2,3)
    by (simp add: ThreadPoolInit_def Let_def MIN_THREAD_NUM_def MAX_THREAD_NUM_def)
qed

theorem server_init_overrun_witness: "ThreadPoolInit sample_env (server_this 100) = Inl Out_of_bounds"
  by (rule server_init_overrun [OF sample_env_ok(1)]) (auto simp: sample_env_def server_this_def)

end
