(* ===== verification/Server_Thread.thy ===== *)
theory Server_Thread
  imports Server_Pool
begin

text \<open>
  The free functions of src/socket/Server/Thread.cpp, which the server is linked with: \<open>TcpNet::InitNet\<close> creates
  its pool with them, the threads that the manager of the class adds run \<open>threadpool_thread\<close>, and
  \<open>threadpool_destory\<close> takes a pool down. Each is written from its own text, statement by statement where several
  statements make up one step; they are shown to do what the functions of the free-standing pool do.
\<close>

section \<open>threadpool_free and threadpool_destory\<close>

text \<open>\<open>delete\<close> of an array and the null pointer that is stored after it.\<close>

fun delete_arr :: "'a arr \<Rightarrow> 'a arr outcome" where
  "delete_arr Wild = Inl Wild_pointer" | "delete_arr a = Inr Null"

text \<open>The calls on the mutexes and condition variables, once \<open>threads\<close> is deleted and null.\<close>

definition s_locks :: "nat \<Rightarrow> threadpool_t \<Rightarrow> threadpool_t outcome" where
  "s_locks t pool =
     obind (mutex_lock t (lock pool)) (\<lambda>m. let pool = pool\<lparr>lock := m\<rparr> in
     obind (mutex_destroy (lock pool)) (\<lambda>m. let pool = pool\<lparr>lock := m\<rparr> in
     obind (mutex_lock t (thread_counter pool)) (\<lambda>m. let pool = pool\<lparr>thread_counter := m\<rparr> in
     obind (mutex_destroy (thread_counter pool)) (\<lambda>m. let pool = pool\<lparr>thread_counter := m\<rparr> in
     obind (cond_destroy (queue_not_empty pool)) (\<lambda>c. let pool = pool\<lparr>queue_not_empty := c\<rparr> in
     obind (cond_destroy (queue_not_full pool)) (\<lambda>c. Inr (pool\<lparr>queue_not_full := c\<rparr>)))))))"

definition s_free :: "nat \<Rightarrow> threadpool_t option \<Rightarrow> (int \<times> threadpool_t option) outcome" where
  "s_free t po =
     (case po of
        None \<Rightarrow> Inr (-1, None)
      | Some pool \<Rightarrow>
          obind (if task_queue pool \<noteq> Null
                 then obind (delete_arr (task_queue pool)) (\<lambda>q. Inr (pool\<lparr>task_queue := q\<rparr>))
                 else Inr pool) (\<lambda>pool.
          obind (if threads pool \<noteq> Null
                 then obind (delete_arr (threads pool)) (\<lambda>ts. s_locks t (pool\<lparr>threads := ts\<rparr>))
                 else Inr pool) (\<lambda>pool.
          Inr (0, None))))"

text \<open>Within \<open>threadpool_destory\<close> the freeing is three steps: the lock is asked for after both deletions.\<close>

fun s_destory :: "nat \<Rightarrow> pc \<Rightarrow> threadpool_t \<Rightarrow> psys \<Rightarrow> psys outcome option" where
  "s_destory t D_set pool s = Some (Inr (goto t D_join_manager (set_pool (pool\<lparr>shutdown := True\<rparr>) s)))"
| "s_destory t D_join_manager pool s =
     (let u = adjust_tid pool in
      if u < length (pcs s) \<and> ended (pcs s ! u) then Some (Inr (goto t (D_wake 0) s)) else None)"
| "s_destory t (D_wake i) pool s =
     Some (Inr (if i < live_thr_num pool
       then goto t (D_wake (i + 1)) (s\<lparr>pcs := wake_workers (pcs s)\<rparr>) else goto t (D_join 0) s))"
| "s_destory t (D_join i) pool s =
     (if \<not> i < live_thr_num pool then Some (Inr (goto t D_free s))
      else case arr_read (threads pool) i of
        Inl f \<Rightarrow> Some (Inl f)
      | Inr u \<Rightarrow>
          if u = 0 \<or> length (pcs s) \<le> u then Some (Inl Bad_join)
          else if ended (pcs s ! u) then Some (Inr (goto t (D_join (i + 1)) s))
          else None)"
| "s_destory t D_free pool s =
     Some (obind (if task_queue pool \<noteq> Null
         then obind (delete_arr (task_queue pool)) (\<lambda>q. Inr (pool\<lparr>task_queue := q\<rparr>)) else Inr pool) (\<lambda>pool.
       Inr (goto t D_free_threads (s\<lparr>the_pool := None, dying := Some pool\<rparr>))))"
| "s_destory t D_free_threads pool s =
     Some (if threads pool \<noteq> Null
       then obind (delete_arr (threads pool)) (\<lambda>ts.
         Inr (goto t D_free_locks (s\<lparr>the_pool := None, dying := Some (pool\<lparr>threads := ts\<rparr>)\<rparr>)))
       else Inr (goto t Idle (s\<lparr>the_pool := None, dying := None\<rparr>)))"
| "s_destory t D_free_locks pool s =
     (case s_locks t pool of
        Inl Would_block \<Rightarrow> None
      | r \<Rightarrow> Some (obind r (\<lambda>pool. Inr (goto t Idle (s\<lparr>the_pool := None, dying := None\<rparr>)))))"
| "s_destory t c pool s = None"

section \<open>threadpool_create\<close>

fun s_workers :: "(nat \<Rightarrow> nat) \<Rightarrow> nat list \<Rightarrow> threadpool_t \<Rightarrow> threadpool_t outcome" where
  "s_workers tid [] pool = Inr pool"
| "s_workers tid (i # is) pool =
     obind (arr_write (threads pool) (int i) (tid i)) (\<lambda>ts. s_workers tid is (pool\<lparr>threads := ts\<rparr>))"

text \<open>The body of the \<open>do while(0)\<close>: left by \<open>break\<close> with the pool so far, or by \<open>return pool\<close>.\<close>

datatype create_exit = Break "threadpool_t option" | Return_pool threadpool_t

definition s_create_body :: "create_env \<Rightarrow> int \<Rightarrow> int \<Rightarrow> int \<Rightarrow> create_exit outcome" where
  "s_create_body e mn mx qmx =
     (case new_pool e of None \<Rightarrow> Inr (Break None) | Some pool \<Rightarrow>
      let pool = pool\<lparr>min_thr_num := mn\<rparr>; pool = pool\<lparr>max_thr_num := mx\<rparr>; pool = pool\<lparr>busy_thr_num := 0\<rparr>;
          pool = pool\<lparr>live_thr_num := mn\<rparr>; pool = pool\<lparr>wait_exit_thr_num := 0\<rparr>; pool = pool\<lparr>queue_size := 0\<rparr>;
          pool = pool\<lparr>queue_max_size := qmx\<rparr>; pool = pool\<lparr>queue_front := 0\<rparr>; pool = pool\<lparr>queue_rear := 0\<rparr>;
          pool = pool\<lparr>shutdown := False\<rparr> in
      case new_threads e mx of None \<Rightarrow> Inr (Break (Some (pool\<lparr>threads := Null\<rparr>))) | Some ts \<Rightarrow>
      obind (bzero_ids ts (sizeof_pthread_t * nat mx)) (\<lambda>ts. let pool = pool\<lparr>threads := Arr ts\<rparr> in
      case new_queue e qmx of None \<Rightarrow> Inr (Break (Some (pool\<lparr>task_queue := Null\<rparr>))) | Some q \<Rightarrow>
      case init_locks (init_ret e) (pool\<lparr>task_queue := Arr q\<rparr>) of
        (False, pool) \<Rightarrow> Inr (Break (Some pool))
      | (True, pool) \<Rightarrow>
          obind (s_workers (new_tid e) [0..<nat mn] pool) (\<lambda>pool.
          Inr (Return_pool (pool\<lparr>adjust_tid := new_tid e (nat mn)\<rparr>)))))"

definition s_create :: "create_env \<Rightarrow> nat \<Rightarrow> int \<Rightarrow> int \<Rightarrow> int \<Rightarrow> threadpool_t option outcome" where
  "s_create e t mn mx qmx =
     obind (s_create_body e mn mx qmx) (\<lambda>r. case r of
       Return_pool pool \<Rightarrow> Inr (Some pool)
     | Break pool \<Rightarrow> obind (s_free t pool) (\<lambda>_. Inr None))"

section \<open>threadpool_thread\<close>

definition next_task :: "threadpool_t \<Rightarrow> (threadpool_task_t \<times> threadpool_t) outcome" where
  "next_task pool =
     obind (map_sum id tfunction (arr_read (task_queue pool) (queue_front pool))) (\<lambda>f.
     obind (map_sum id targ (arr_read (task_queue pool) (queue_front pool))) (\<lambda>a.
     obind (cmod (queue_front pool + 1) (queue_max_size pool)) (\<lambda>i.
     let pool = pool\<lparr>queue_front := i\<rparr>; pool = pool\<lparr>queue_size := queue_size pool - 1\<rparr> in
     Inr (\<lparr>tfunction = f, targ = a\<rparr>, pool))))"

fun s_thread :: "nat \<Rightarrow> pc \<Rightarrow> threadpool_t \<Rightarrow> psys \<Rightarrow> psys outcome option" where
  "s_thread t W_lock pool s = acquire t W_test pool s"
| "s_thread t W_test pool s =
     (if queue_size pool = 0 \<and> \<not> shutdown pool then Some (Inr (goto t W_park s)) else Some (Inr (goto t W_shut s)))"
| "s_thread t W_park pool s = Some (obind (release t pool) (\<lambda>pool. Inr (goto t W_wait (set_pool pool s))))"
| "s_thread t W_wake pool s = acquire t W_woken pool s"
| "s_thread t W_woken pool s =
     (if \<not> wait_exit_thr_num pool > 0 then Some (Inr (goto t W_test (set_pool pool s)))
      else let pool = pool\<lparr>wait_exit_thr_num := wait_exit_thr_num pool - 1\<rparr> in
        if \<not> live_thr_num pool > min_thr_num pool then Some (Inr (goto t W_test (set_pool pool s)))
        else let pool = pool\<lparr>live_thr_num := live_thr_num pool - 1\<rparr> in
          Some (obind (release t pool) (\<lambda>pool. Inr (goto t W_left (set_pool pool s)))))"
| "s_thread t W_shut pool s =
     (if \<not> shutdown pool then Some (Inr (goto t W_take s))
      else Some (obind (release t pool) (\<lambda>pool. Inr (goto t W_bye (set_pool pool s)))))"
| "s_thread t W_take pool s =
     Some (obind (next_task pool) (\<lambda>(task, pool).
       let s = s\<lparr>pcs := wake_adders (pcs s), taken := taken s @ [task]\<rparr> in
       obind (release t pool) (\<lambda>pool. Inr (goto t (W_count task) (set_pool pool s)))))"
| "s_thread t (W_count task) pool s =
     Some (Inr (goto t (W_run task) (set_pool (pool\<lparr>busy_thr_num := busy_thr_num pool + 1\<rparr>) s)))"
| "s_thread t W_uncount pool s =
     Some (Inr (goto t W_lock (set_pool (pool\<lparr>busy_thr_num := busy_thr_num pool - 1\<rparr>) s)))"
| "s_thread t c pool s = None"

section \<open>threadpool_add\<close>

definition arr_upd :: "'a arr \<Rightarrow> int \<Rightarrow> ('a \<Rightarrow> 'a) \<Rightarrow> 'a arr outcome" where
  "arr_upd a i f = obind (arr_read a i) (\<lambda>x. arr_write a i (f x))"

definition put_task :: "ptr \<Rightarrow> ptr \<Rightarrow> threadpool_t \<Rightarrow> threadpool_t outcome" where
  "put_task f a pool =
     obind (arr_read (task_queue pool) (queue_rear pool)) (\<lambda>old.
     obind (if targ old \<noteq> 0 then arr_upd (task_queue pool) (queue_rear pool) (\<lambda>x. x\<lparr>targ := 0\<rparr>)
            else Inr (task_queue pool)) (\<lambda>q.
     obind (arr_upd q (queue_rear pool) (\<lambda>x. x\<lparr>tfunction := f\<rparr>)) (\<lambda>q.
     obind (arr_upd q (queue_rear pool) (\<lambda>x. x\<lparr>targ := a\<rparr>)) (\<lambda>q.
     obind (cmod (queue_rear pool + 1) (queue_max_size pool)) (\<lambda>i.
     Inr (pool\<lparr>task_queue := q, queue_rear := i, queue_size := queue_size pool + 1\<rparr>))))))"

fun s_add :: "nat \<Rightarrow> nat option \<Rightarrow> pc \<Rightarrow> threadpool_t \<Rightarrow> psys \<Rightarrow> psys outcome option" where
  "s_add t w (A_lock k) pool s = acquire t (A_test k) pool s"
| "s_add t w (A_test k) pool s =
     (if queue_size pool = queue_max_size pool \<and> \<not> shutdown pool
      then Some (obind (release t pool) (\<lambda>pool. Inr (goto t (A_wait k) (set_pool pool s))))
      else Some (Inr (goto t (A_shut k) s)))"
| "s_add t w (A_wake k) pool s = acquire t (A_test k) pool s"
| "s_add t w (A_shut k) pool s =
     (if \<not> shutdown pool then Some (Inr (goto t (A_put k) s))
      else let s = s\<lparr>pcs := wake_workers (pcs s)\<rparr> in
        Some (obind (release t pool) (\<lambda>pool. Inr (goto t Idle (set_pool pool s)))))"
| "s_add t w (A_put k) pool s =
     (case wake_worker w (pcs s) of
        None \<Rightarrow> None
      | Some cs \<Rightarrow> Some (obind (put_task (tfunction k) (targ k) pool) (\<lambda>pool. obind (release t pool) (\<lambda>pool.
          Inr (goto t Idle (set_pool pool (s\<lparr>pcs := cs, added := added s @ [k]\<rparr>)))))))"
| "s_add t w c pool s = None"

section \<open>is_thread_alive and adjust_thread\<close>

definition s_alive :: "(nat \<Rightarrow> int) \<Rightarrow> nat \<Rightarrow> int" where
  "s_alive kl tid = (let ret = kl tid in if ret = ESRCH then 0 else 1)"

text \<open>The \<open>for\<close> loop over the slots, with its counter \<open>add\<close>.\<close>

fun add_threads :: "(nat \<Rightarrow> int) \<Rightarrow> nat \<Rightarrow> nat list \<Rightarrow> int \<Rightarrow> threadpool_t \<Rightarrow> (int \<times> threadpool_t) outcome" where
  "add_threads kl tid0 [] add pool = Inr (add, pool)"
| "add_threads kl tid0 (i # is) add pool =
     (if add < DEFAULT_THREAD_VARY \<and> live_thr_num pool < max_thr_num pool then
        obind (arr_read (threads pool) (int i)) (\<lambda>tid.
        if tid = 0 \<or> s_alive kl tid = 0
        then obind (arr_write (threads pool) (int i) (tid0 + nat add)) (\<lambda>ts.
             let pool = pool\<lparr>threads := ts\<rparr> in
             add_threads kl tid0 is (add + 1) (pool\<lparr>live_thr_num := live_thr_num pool + 1\<rparr>))
        else add_threads kl tid0 is add pool)
      else Inr (add, pool))"

fun s_adjust :: "nat \<Rightarrow> nat option \<Rightarrow> nat list \<Rightarrow> pc \<Rightarrow> threadpool_t \<Rightarrow> psys \<Rightarrow> psys outcome option" where
  "s_adjust t w z M_loop pool s =
     (if \<not> shutdown pool then Some (Inr (goto t M_snap s)) else Some (Inr (goto t M_gone s)))"
| "s_adjust t w z M_snap pool s =
     critical t pool (let q = queue_size pool; l = live_thr_num pool in Inr (goto t (M_busy q l) s))"
| "s_adjust t w z (M_busy q l) pool s = Some (let b = busy_thr_num pool in Inr (goto t (M_decide q l b) s))"
| "s_adjust t w z (M_decide q l b) pool s =
     (if MIN_WAIT_TASK_NUM \<le> q \<and> l < max_thr_num pool
      then Some (Inr (goto t (M_grow q l b) s)) else Some (Inr (goto t (M_shrink q l b) s)))"
| "s_adjust t w z (M_grow q l b) pool s =
     critical t pool (obind (add_threads (kill0 (pcs s) z) (length (pcs s)) [0..<nat (max_thr_num pool)] 0 pool) (\<lambda>(n, pool).
       Inr (goto t (M_shrink q l b) (set_pool pool (s\<lparr>pcs := pcs s @ replicate (nat n) W_lock\<rparr>)))))"
| "s_adjust t w z (M_shrink q l b) pool s =
     (if b * 2 < l \<and> l > min_thr_num pool then Some (Inr (goto t M_set s)) else Some (Inr (goto t M_loop s)))"
| "s_adjust t w z M_set pool s =
     critical t pool (let pool = pool\<lparr>wait_exit_thr_num := DEFAULT_THREAD_VARY\<rparr> in
       Inr (goto t (M_signal (nat DEFAULT_THREAD_VARY)) (set_pool pool s)))"
| "s_adjust t w z (M_signal i) pool s =
     (if i \<noteq> 0
      then case wake_worker w (pcs s) of
        None \<Rightarrow> None
      | Some cs \<Rightarrow> Some (Inr (goto t (M_signal (i - 1)) (s\<lparr>pcs := cs\<rparr>)))
      else Some (Inr (goto t M_loop s)))"
| "s_adjust t w z c pool s = None"

section \<open>They do what the functions of the free-standing pool do\<close>

lemma s_locks_locks: "s_locks t p = free_locks t p"
  by (simp add: s_locks_def free_locks_def Let_def)

lemma s_delete_queue:
  "(if task_queue p \<noteq> Null then obind (delete_arr (task_queue p)) (\<lambda>q. Inr (p\<lparr>task_queue := q\<rparr>)) else Inr p) = free_queue p"
  by (cases "task_queue p") (simp_all add: free_queue_def)

lemma s_free_free: "s_free t po = threadpool_free t po"
proof (cases po)
  case (Some p)
  have "(if threads q \<noteq> Null then obind (delete_arr (threads q)) (\<lambda>ts. s_locks t (q\<lparr>threads := ts\<rparr>)) else Inr q)
      = free_threads t q" for q
    by (cases "threads q") (simp_all add: free_threads_def s_locks_locks)
  then show ?thesis unfolding Some s_free_def threadpool_free_def option.case s_delete_queue by simp
qed (simp add: s_free_def threadpool_free_def)

lemma s_destory_destroy: "s_destory t c p s = destroy_step t c p s"
proof (cases c)
  case D_free
  then show ?thesis by (simp only: s_destory.simps destroy_step.simps s_delete_queue)
next
  case D_free_threads
  then show ?thesis by (cases "threads p") simp_all
next
  case D_free_locks
  then show ?thesis by (cases "free_locks t p") (auto simp: s_locks_locks split: fault.split)
qed (auto simp: Let_def split: sum.split)

lemma s_workers_start:
  "s_workers tid [i..<i + m] p = obind (start_workers tid i m (threads p)) (\<lambda>ts. Inr (p\<lparr>threads := ts\<rparr>))"
proof (induction m arbitrary: i p)
  case (Suc m)
  have "[i..<i + Suc m] = i # [Suc i..<Suc i + m]" by (simp add: upt_conv_Cons)
  moreover have "s_workers tid [Suc i..<Suc i + m] q = obind (start_workers tid (Suc i) m (threads q)) (\<lambda>ts. Inr (q\<lparr>threads := ts\<rparr>))" for q
    by (rule Suc.IH)
  ultimately show ?case by (cases "arr_write (threads p) (int i) (tid i)") (simp_all del: upt_Suc)
qed simp

lemma s_create_create:
  assumes "malloc_ok e"
  shows "s_create e t mn mx qmx = threadpool_create e t mn mx qmx"
proof -
  have z: "bzero_ids ts (sizeof_pthread_t * nat mx) = Inr (replicate (length ts) 0)" if "new_threads e mx = Some ts" for ts
    using assms that by (intro bzero_all) (auto simp: malloc_ok_def)
  have w: "s_workers tid [0..<nat mn] p = obind (start_workers tid 0 (nat mn) (threads p)) (\<lambda>ts. Inr (p\<lparr>threads := ts\<rparr>))" for tid p
    using s_workers_start [of tid 0 "nat mn"] by simp
  have a: "obind (obind m k) k' = obind m (\<lambda>x. obind (k x) k')" for m k k' by (cases m) simp_all
  show ?thesis
    by (auto simp: s_create_def s_create_body_def threadpool_create_def Let_def z w a s_free_free
        split: option.split prod.split bool.split)
qed

lemma task_fields: "\<lparr>tfunction = tfunction k, targ = targ k\<rparr> = (k :: threadpool_task_t)"
  by (cases k) simp

lemma next_task_take: "next_task p = worker_take p"
  by (cases "arr_read (task_queue p) (queue_front p)") (simp_all add: next_task_def worker_take_def Let_def task_fields)

lemma put_task_put: "put_task (tfunction k) (targ k) p = add_put p k"
proof (cases "arr_read (task_queue p) (queue_rear p)")
  case (Inl f)
  then show ?thesis by (simp add: put_task_def add_put_def)
next
  case (Inr old)
  then obtain q where q: "task_queue p = Arr q" "0 \<le> queue_rear p" "queue_rear p < int (length q)"
    by (cases "task_queue p") (auto split: if_splits)
  have u: "arr_upd (Arr xs) (queue_rear p) f = Inr (Arr (xs[nat (queue_rear p) := f (xs ! nat (queue_rear p))]))"
    if "length xs = length q" for xs :: "threadpool_task_t list" and f
    using that q by (simp add: arr_upd_def)
  from q show ?thesis by (auto simp: put_task_def add_put_def u Let_def)
qed

lemma s_alive_alive: "s_alive kl t = is_thread_alive kl t"
  by (simp add: s_alive_def is_thread_alive_def Let_def)

lemma add_threads_grow:
  "i + m = nat (max_thr_num p) \<Longrightarrow> add_threads kl tid0 [i..<i + m] add p = grow_loop kl tid0 (int i) add p"
proof (induction m arbitrary: i add p)
  case 0
  then have "\<not> int i < max_thr_num p" by simp
  then show ?case by (subst grow_loop.simps) simp
next
  case (Suc m)
  have l: "[i..<i + Suc m] = i # [Suc i..<Suc i + m]" by (simp add: upt_conv_Cons)
  from Suc.prems have i: "int i < max_thr_num p" by simp
  have step: "add_threads kl tid0 [Suc i..<Suc (i + m)] add' p' = grow_loop kl tid0 (int i + 1) add' p'"
    if "max_thr_num p' = max_thr_num p" for add' p'
    using Suc.IH [of "Suc i" p' add'] Suc.prems that by (simp add: add.commute del: upt_Suc)
  show ?case unfolding l using i
    by (subst grow_loop.simps) (auto simp: step s_alive_alive Let_def intro!: arg_cong2 [where f = obind] ext simp del: upt_Suc)
qed

lemma s_add_add: "s_add t w c p s = add_step t w c p s"
  by (cases c) (simp_all add: add_guard_def put_task_put Let_def split: option.split)

lemma s_thread_worker: "s_thread t c p s = worker_step t c p s"
  by (cases c) (auto simp: worker_guard_def worker_woken_def Let_def next_task_take)

lemma s_adjust_manager: "s_adjust t w z c p s = manager_step t w z c p s"
proof (cases c)
  case (M_signal n)
  then show ?thesis by (cases n) (simp_all split: option.split)
next
  case (M_grow q l b)
  then show ?thesis using add_threads_grow [of 0 "nat (max_thr_num p)" p] by (simp add: adjust_grow_def)
qed (auto simp: should_grow_def should_shrink_def adjust_shrink_def Let_def)

text \<open>C13. The free functions of src/socket/Server/Thread.cpp are those of src/socket/thread_Pool/main.cpp: with a
  \<open>malloc\<close> as documented the creation of a pool has the same outcome, error paths included, and in every state so does
  freeing it and each step of adding a task, of a worker, of the manager and of the destruction.\<close>

theorem server_functions_agree:
  assumes "malloc_ok e"
  shows "s_create e t mn mx qmx = threadpool_create e t mn mx qmx \<and> s_free t po = threadpool_free t po
    \<and> s_add t w c p s = add_step t w c p s \<and> s_thread t c p s = worker_step t c p s
    \<and> s_adjust t w z c p s = manager_step t w z c p s \<and> s_destory t c p s = destroy_step t c p s"
  using s_create_create [OF assms] by (simp add: s_free_free s_add_add s_thread_worker s_adjust_manager s_destory_destroy)

theorem server_functions_agree_witness:
  "s_create sample_env 0 1 3 4 = threadpool_create sample_env 0 1 3 4"
  using server_functions_agree [OF sample_env_ok(1)] by blast

end
