(* ===== verification/Server_Methods.thy ===== *)
theory Server_Methods
  imports Server_Thread
begin

text \<open>
  The methods of the class \<open>threadpool_t\<close> in src/socket/Server/ThreadPoll.cpp, step by step over the
  program counters of Pool_System, each written from its own text: \<open>addTask\<close> stores function and
  argument one after the other, \<open>createThread\<close> reads them one after the other. They are shown to do
  what the functions of the free-standing pool do, so what is proved of that pool holds of a pool
  made by \<open>ThreadPoolInit\<close> that has room.
\<close>

section \<open>addTask\<close>

text \<open>The three assignments to the slot at the rear, and the indices.\<close>

definition store_task :: "threadpool_task_t \<Rightarrow> threadpool_t \<Rightarrow> threadpool_t outcome" where
  "store_task k this =
     obind (arr_read (task_queue this) (queue_rear this)) (\<lambda>old.
     obind (if targ old \<noteq> 0 then arr_write (task_queue this) (queue_rear this) (old\<lparr>targ := 0\<rparr>)
            else Inr (task_queue this)) (\<lambda>q.
     obind (arr_read q (queue_rear this)) (\<lambda>x.
     obind (arr_write q (queue_rear this) (x\<lparr>tfunction := tfunction k\<rparr>)) (\<lambda>q.
     obind (arr_read q (queue_rear this)) (\<lambda>x.
     obind (arr_write q (queue_rear this) (x\<lparr>targ := targ k\<rparr>)) (\<lambda>q.
     obind (cmod (queue_rear this + 1) (queue_max_size this)) (\<lambda>r.
     Inr (this\<lparr>task_queue := q, queue_rear := r, queue_size := queue_size this + 1\<rparr>))))))))"

fun addTask :: "nat \<Rightarrow> nat option \<Rightarrow> pc \<Rightarrow> threadpool_t \<Rightarrow> psys \<Rightarrow> psys outcome option" where
  "addTask t w (A_lock k) this s = acquire t (A_test k) this s"
| "addTask t w (A_test k) this s =
     (if queue_size this = queue_max_size this \<and> \<not> shutdown this
      then Some (obind (release t this) (\<lambda>p. Inr (goto t (A_wait k) (set_pool p s))))
      else Some (Inr (goto t (A_shut k) s)))"
| "addTask t w (A_wake k) this s = acquire t (A_test k) this s"
| "addTask t w (A_shut k) this s =
     (if shutdown this
      then Some (obind (release t this) (\<lambda>p.
             Inr (goto t Idle (set_pool p (s\<lparr>pcs := wake_workers (pcs s)\<rparr>)))))
      else Some (Inr (goto t (A_put k) s)))"
| "addTask t w (A_put k) this s =
     (case wake_worker w (pcs s) of
        None \<Rightarrow> None
      | Some cs \<Rightarrow> Some (obind (store_task k this) (\<lambda>p. obind (release t p) (\<lambda>p.
             Inr (goto t Idle (set_pool p (s\<lparr>pcs := cs, added := added s @ [k]\<rparr>)))))))"
| "addTask t w c this s = None"

section \<open>createThread\<close>

definition fetch_task :: "threadpool_t \<Rightarrow> (threadpool_task_t \<times> threadpool_t) outcome" where
  "fetch_task p =
     obind (arr_read (task_queue p) (queue_front p)) (\<lambda>x.
     obind (arr_read (task_queue p) (queue_front p)) (\<lambda>y.
     obind (cmod (queue_front p + 1) (queue_max_size p)) (\<lambda>f.
     Inr (\<lparr>tfunction = tfunction x, targ = targ y\<rparr>, p\<lparr>queue_front := f, queue_size := queue_size p - 1\<rparr>))))"

fun createThread :: "nat \<Rightarrow> pc \<Rightarrow> threadpool_t \<Rightarrow> psys \<Rightarrow> psys outcome option" where
  "createThread t W_lock p s = acquire t W_test p s"
| "createThread t W_test p s =
     Some (Inr (goto t (if queue_size p = 0 \<and> \<not> shutdown p then W_park else W_shut) s))"
| "createThread t W_park p s =
     Some (obind (release t p) (\<lambda>p. Inr (goto t W_wait (set_pool p s))))"
| "createThread t W_wake p s = acquire t W_woken p s"
| "createThread t W_woken p s =
     (if wait_exit_thr_num p > 0
      then let p = p\<lparr>wait_exit_thr_num := wait_exit_thr_num p - 1\<rparr> in
        if live_thr_num p > min_thr_num p
        then Some (obind (release t (p\<lparr>live_thr_num := live_thr_num p - 1\<rparr>)) (\<lambda>p.
               Inr (goto t W_left (set_pool p s))))
        else Some (Inr (goto t W_test (set_pool p s)))
      else Some (Inr (goto t W_test (set_pool p s))))"
| "createThread t W_shut p s =
     (if shutdown p
      then Some (obind (release t p) (\<lambda>p. Inr (goto t W_bye (set_pool p s))))
      else Some (Inr (goto t W_take s)))"
| "createThread t W_take p s =
     Some (obind (fetch_task p) (\<lambda>(k, p). obind (release t p) (\<lambda>p.
       Inr (goto t (W_count k)
              (set_pool p (s\<lparr>pcs := wake_adders (pcs s), taken := taken s @ [k]\<rparr>))))))"
| "createThread t (W_count k) p s =
     Some (Inr (goto t (W_run k) (set_pool (p\<lparr>busy_thr_num := busy_thr_num p + 1\<rparr>) s)))"
| "createThread t W_uncount p s =
     Some (Inr (goto t W_lock (set_pool (p\<lparr>busy_thr_num := busy_thr_num p - 1\<rparr>) s)))"
| "createThread t c p s = None"

section \<open>createManagerThread\<close>

text \<open>\<open>threadpool_t::is_thread_alive\<close>, and the loop that starts threads in free or dead slots.\<close>

definition is_alive :: "(nat \<Rightarrow> int) \<Rightarrow> nat \<Rightarrow> bool" where
  "is_alive kl tid = (let ret = kl tid in \<not> ret = ESRCH)"

function start_more ::
    "(nat \<Rightarrow> int) \<Rightarrow> nat \<Rightarrow> int \<Rightarrow> int \<Rightarrow> threadpool_t \<Rightarrow> (int \<times> threadpool_t) outcome" where
  "start_more kl tid0 i add pool =
     (if \<not> (i < max_thr_num pool \<and> add < DEFAULT_THREAD_VARY \<and> live_thr_num pool < max_thr_num pool)
      then Inr (add, pool)
      else obind (arr_read (threads pool) i) (\<lambda>tid.
        if tid \<noteq> 0 \<and> is_alive kl tid then start_more kl tid0 (i + 1) add pool
        else obind (arr_write (threads pool) i (tid0 + nat add)) (\<lambda>ts.
          start_more kl tid0 (i + 1) (add + 1)
            (pool\<lparr>threads := ts, live_thr_num := live_thr_num pool + 1\<rparr>))))"
  by pat_completeness auto
termination
  by (relation "measure (\<lambda>(kl, tid0, i, add, p). nat (max_thr_num p - i))") auto

declare start_more.simps [simp del]

fun createManagerThread ::
    "nat \<Rightarrow> nat option \<Rightarrow> nat list \<Rightarrow> pc \<Rightarrow> threadpool_t \<Rightarrow> psys \<Rightarrow> psys outcome option" where
  "createManagerThread t w z M_loop pool s =
     Some (Inr (goto t (if \<not> shutdown pool then M_snap else M_gone) s))"
| "createManagerThread t w z M_snap pool s =
     critical t pool (Inr (goto t (M_busy (queue_size pool) (live_thr_num pool)) s))"
| "createManagerThread t w z (M_busy q l) pool s =
     Some (Inr (goto t (M_decide q l (busy_thr_num pool)) s))"
| "createManagerThread t w z (M_decide q l b) pool s =
     Some (Inr (goto t (if q \<ge> MIN_WAIT_TASK_NUM \<and> l < max_thr_num pool then M_grow q l b else M_shrink q l b) s))"
| "createManagerThread t w z (M_grow q l b) pool s =
     critical t pool (obind (start_more (kill0 (pcs s) z) (length (pcs s)) 0 0 pool) (\<lambda>(n, p).
       Inr (goto t (M_shrink q l b) (set_pool p (s\<lparr>pcs := pcs s @ replicate (nat n) W_lock\<rparr>)))))"
| "createManagerThread t w z (M_shrink q l b) pool s =
     Some (Inr (goto t (if b * 2 < l \<and> l > min_thr_num pool then M_set else M_loop) s))"
| "createManagerThread t w z M_set pool s =
     critical t pool (Inr (goto t (M_signal (nat DEFAULT_THREAD_VARY)) (set_pool (pool\<lparr>wait_exit_thr_num := DEFAULT_THREAD_VARY\<rparr>) s)))"
| "createManagerThread t w z (M_signal i) pool s =
     (if i = 0 then Some (Inr (goto t M_loop s))
      else case wake_worker w (pcs s) of
        None \<Rightarrow> None
      | Some cs \<Rightarrow> Some (Inr (goto t (M_signal (i - 1)) (s\<lparr>pcs := cs\<rparr>))))"
| "createManagerThread t w z c pool s = None"

section \<open>The methods do what the functions of the free-standing pool do\<close>

lemma store_task_put: "store_task k this = add_put this k"
proof (cases "arr_read (task_queue this) (queue_rear this)")
  case (Inl f)
  then show ?thesis by (simp add: store_task_def add_put_def)
next
  case (Inr old)
  then obtain q where q: "task_queue this = Arr q" "0 \<le> queue_rear this" "queue_rear this < int (length q)"
    by (cases "task_queue this") (auto split: if_splits)
  let ?i = "nat (queue_rear this)"
  from q have i: "?i < length q" by simp
  have r: "arr_read (Arr xs) (queue_rear this) = Inr (xs ! ?i)" if "length xs = length q" for xs :: "threadpool_task_t list"
    using that q by simp
  have w: "arr_write (Arr xs) (queue_rear this) x = Inr (Arr (xs[?i := x]))" if "length xs = length q" for xs and x :: threadpool_task_t
    using that q by simp
  from i show ?thesis
    by (simp add: store_task_def add_put_def q(1) r w Let_def del: arr_read.simps arr_write.simps)
qed

lemma fetch_task_take: "fetch_task p = worker_take p"
  by (cases "arr_read (task_queue p) (queue_front p)") (simp_all add: fetch_task_def worker_take_def task_fields)

lemma start_more_grow: "start_more k0 tid0 i add p = grow_loop k0 tid0 i add p"
proof (induction k0 tid0 i add p rule: grow_loop.induct)
  case (1 k0 tid0 i add p)
  have alive: "is_alive k0 t \<longleftrightarrow> is_thread_alive k0 t \<noteq> 0" for t
    by (simp add: is_alive_def is_thread_alive_def)
  show ?case
  proof (cases "i < max_thr_num p \<and> add < DEFAULT_THREAD_VARY \<and> live_thr_num p < max_thr_num p")
    case False
    then show ?thesis
      by (subst start_more.simps, subst grow_loop.simps) auto
  next
    case True
    then show ?thesis
      using 1 by (subst start_more.simps, subst grow_loop.simps)
        (auto simp: alive obind_def split: sum.splits)
  qed
qed

lemma addTask_add: "addTask t w c p s = add_step t w c p s"
  by (cases c) (simp_all add: add_guard_def store_task_put split: option.split)

lemma createThread_worker: "createThread t c p s = worker_step t c p s"
  by (cases c) (auto simp: worker_guard_def worker_woken_def Let_def fetch_task_take)

lemma createManagerThread_manager: "createManagerThread t w z c p s = manager_step t w z c p s"
proof (cases c)
  case (M_signal n)
  then show ?thesis by (cases n) (simp_all split: option.split)
qed (auto simp: should_grow_def should_shrink_def adjust_grow_def adjust_shrink_def start_more_grow)

section \<open>The running class\<close>

text \<open>
  The first \<open>MIN_THREAD_NUM\<close> workers run \<open>createThread\<close>; those the manager starts later run the function
  \<open>threadpool_thread\<close> of src/socket/Server/Thread.cpp, and \<open>threadpool_destory\<close> is that of the same file (Server\_Thread).
\<close>

definition class_thread ::
    "nat \<Rightarrow> nat option \<Rightarrow> nat list \<Rightarrow> pc \<Rightarrow> threadpool_t \<Rightarrow> psys \<Rightarrow> psys outcome option" where
  "class_thread t w z c p s =
     (if is_add c then addTask t w c p s
      else if is_manager c then createManagerThread t w z c p s
      else if is_destroy c then s_destory t c p s
      else if int t \<le> MIN_THREAD_NUM then createThread t c p s
      else s_thread t c p s)"

definition class_thread_step ::
    "nat \<Rightarrow> nat option \<Rightarrow> nat list \<Rightarrow> pc \<Rightarrow> psys \<Rightarrow> psys outcome option" where
  "class_thread_step t w z c s =
     (if quiet c then quiet_step t c s else on_pool (class_thread t w z c) s)"

fun class_step :: "label \<Rightarrow> psys \<Rightarrow> psys outcome option" where
  "class_step (Step t w z) s = (if t < length (pcs s) then class_thread_step t w z (pcs s ! t) s else None)"
| "class_step l s = pool_step l s"

definition class_init :: "psys \<Rightarrow> bool" where
  "class_init s \<longleftrightarrow> (\<exists>e this p n. malloc_ok e \<and> new_tid e = Suc \<and> 0 < queue_max_size this \<and> queue_max_size this \<le> 50
     \<and> ThreadPoolInit e this = Inr (True, p) \<and> s = start_state p n)"

lemma class_step_pool: "class_step l s = pool_step l s"
proof (cases l)
  case (Step t w z)
  have "class_thread t w z c = pool_thread t w z c" for c
    by (intro ext) (simp add: class_thread_def pool_thread_def addTask_add createThread_worker
        createManagerThread_manager s_thread_worker s_destory_destroy)
  then have "class_thread_step t w z c s = thread_step t w z c s" for c
    by (simp add: class_thread_step_def thread_step_def)
  with Step show ?thesis by simp
qed simp_all

lemma class_init_pool: "class_init s \<Longrightarrow> init_sys s"
  unfolding class_init_def using server_starts by blast

interpretation class_pool: refinement class_init "fires class_step" "\<lambda>s. True" "\<lambda>s. s" init_sys "fires pool_step"
  by unfold_locales (auto simp: class_step_pool fires_def intro: class_init_pool)

text \<open>C12. The methods of the class are the functions of the free-standing pool: in every state, each step of
  \<open>addTask\<close>, \<open>createThread\<close> and \<open>createManagerThread\<close> has the outcome, faults included, of the step of
  \<open>threadpool_add\<close>, \<open>threadpool_thread\<close> and \<open>adjust_thread\<close> at the same point.\<close>

theorem class_methods_agree:
  "addTask t w c p s = add_step t w c p s \<and> createThread t c p s = worker_step t c p s
   \<and> createManagerThread t w z c p s = manager_step t w z c p s"
  by (simp add: addTask_add createThread_worker createManagerThread_manager)

text \<open>C14. A pool of the class with room for 1 to 50 tasks runs every task exactly once and in order, as the
  free-standing pool does: in every reachable state of its workers, manager and clients the tasks added are
  those taken followed by those queued, every taken task is finished or held by one worker, and a
  thread between locking and unlocking owns the mutex.\<close>

theorem class_pool_exactly_once:
  assumes "reach class_init (fires class_step) s" "the_pool s = Some p"
  shows "added s = taken s @ pool_tasks p \<and> mset (taken s) = mset (finished s) + flights (pcs s)
     \<and> (\<forall>t<length (pcs s). holds (pcs s ! t) \<longrightarrow> lock p = M_held t)"
proof -
  have r: "pool_reach s" by (rule class_pool.reach_abs [OF assms(1)])
  show ?thesis
    using reach_core [OF r assms(2)] core_facts(7) [OF reach_core(1) [OF r assms(2)]]
    by (simp add: core_inv_def)
qed

theorem class_pool_exactly_once_witness:
  "\<exists>s p. reach class_init (fires class_step) s \<and> the_pool s = Some p \<and> queue_max_size p = 8
     \<and> added s = taken s @ pool_tasks p \<and> length (pcs s) = 8"
proof -
  obtain p where p: "ThreadPoolInit sample_env (server_this 8) = Inr (True, p)" using server_sample by blast
  have sz: "new_tid sample_env = Suc" "queue_max_size (server_this 8) = 8"
    by (simp_all add: sample_env_def server_this_def)
  have "class_init (start_state p 2)"
    unfolding class_init_def using sample_env_ok(1) sz p
    by (intro exI [of _ sample_env] exI [of _ "server_this 8"] exI [of _ p] exI [of _ 2]) simp
  then have r: "reach class_init (fires class_step) (start_state p 2)" by (rule reach_init)
  have tp: "the_pool (start_state p 2) = Some p" by (simp add: start_state_def)
  have "min_thr_num p = 4 \<and> queue_max_size p = 8"
    using server_starts [OF sample_env_ok(1) sz(1) _ _ p] sz(2) by simp
  with class_pool_exactly_once [OF r tp] r tp show ?thesis
    by (intro exI [of _ "start_state p 2"] exI [of _ p]) (simp add: start_state_def)
qed

end
