(* ===== verification/Server_Reactor.thy ===== *)
theory Server_Reactor
  imports Reactor
begin

text \<open>
  The event functions and the loop of src/socket/Server/Reactor.cpp (lines 1 to 247), over the event table and the
  kernel of Reactor. Each function is written from its own text, assignment by assignment, and is shown to do
  what the function of that name in src/socket/epoll/Reactor/main.cpp does.
\<close>

section \<open>eventset, eventadd, eventdel\<close>

definition set_ev :: "nat \<Rightarrow> (myevent_s \<Rightarrow> myevent_s) \<Rightarrow> reactor \<Rightarrow> reactor" where
  "set_ev i f s = s\<lparr>gevents := (gevents s)[i := f (gevents s ! i)]\<rparr>"

definition sv_eventset :: "nat \<Rightarrow> int \<Rightarrow> handler \<Rightarrow> int \<Rightarrow> reactor \<Rightarrow> reactor" where
  "sv_eventset i f cb now s =
     (let s = set_ev i (\<lambda>ev. ev\<lparr>ev_fd := f\<rparr>) s;
          s = set_ev i (\<lambda>ev. ev\<lparr>ev_arg := i\<rparr>) s;
          s = set_ev i (\<lambda>ev. ev\<lparr>ev_events := 0\<rparr>) s;
          s = set_ev i (\<lambda>ev. ev\<lparr>ev_call_back := cb\<rparr>) s;
          s = set_ev i (\<lambda>ev. ev\<lparr>ev_buf := replicate BUFLEN 0\<rparr>) s;
          s = set_ev i (\<lambda>ev. ev\<lparr>ev_len := 0\<rparr>) s in
      set_ev i (\<lambda>ev. ev\<lparr>ev_last_active := now\<rparr>) s)"

text \<open>The local \<open>op\<close>: unset, or \<open>EPOLL_CTL_ADD\<close>.\<close>

datatype ctl_op = Unset | Ctl_add

definition sv_eventadd :: "bool \<Rightarrow> 32 word \<Rightarrow> nat \<Rightarrow> reactor \<Rightarrow> reactor outcome" where
  "sv_eventadd ok events i s =
     (let s = set_ev i (\<lambda>ev. ev\<lparr>ev_events := events\<rparr>) s;
          (op, s) = (if ev_status (gevents s ! i) = 0
                     then (Ctl_add, set_ev i (\<lambda>ev. ev\<lparr>ev_status := 1\<rparr>) s) else (Unset, s)) in
      case op of
        Unset \<Rightarrow> Inl Indeterminate
      | Ctl_add \<Rightarrow>
          let (ret, s) = epoll_ctl_add ok (ev_fd (gevents s ! i)) events i s;
              mark = (if ret < 0 then insert i else (\<lambda>F. F - {i})) in
          Inr (s\<lparr>ctl_failed := mark (ctl_failed s)\<rparr>))"

definition sv_eventdel :: "nat \<Rightarrow> reactor \<Rightarrow> reactor" where
  "sv_eventdel i s =
     (if ev_status (gevents s ! i) \<noteq> 1 then s
      else let s = set_ev i (\<lambda>ev. ev\<lparr>ev_status := 0\<rparr>) s in epoll_ctl_del (ev_fd (gevents s ! i)) s)"

section \<open>The callbacks\<close>

fun free_pos :: "nat list \<Rightarrow> myevent_s list \<Rightarrow> nat" where
  "free_pos [] gs = MAX_EVENTS"
| "free_pos (i # is) gs = (if ev_status (gs ! i) = 0 then i else free_pos is gs)"

definition sv_acceptconn :: "io \<Rightarrow> reactor \<Rightarrow> reactor outcome" where
  "sv_acceptconn x s =
     (if io_accept x = -1 then Inr s
      else
        let s = s\<lparr>open_fds := insert (io_accept x) (open_fds s)\<rparr>;
            i = free_pos [0..<MAX_EVENTS] (gevents s) in
        if \<not> io_fcntl x < 0
        then let s = sv_eventset i (io_accept x) Recvdata (io_time x) s in sv_eventadd (io_ctl x) EPOLLIN i s
        else Inr s)"

text \<open>What \<open>recv\<close> puts into the buffer.\<close>

definition received :: "io \<Rightarrow> nat \<Rightarrow> reactor \<Rightarrow> reactor" where
  "received x i s =
     (if io_recv x \<le> 0 then s
      else set_ev i (\<lambda>ev. ev\<lparr>ev_buf := take (nat (io_recv x)) (io_data x) @ drop (nat (io_recv x)) (ev_buf ev)\<rparr>) s)"

definition sv_recvdata :: "int \<Rightarrow> nat \<Rightarrow> io \<Rightarrow> reactor \<Rightarrow> reactor outcome" where
  "sv_recvdata fd i x s =
     (let len = io_recv x;
          s = received x i s;
          s = sv_eventdel i s in
      if len > 0 then
        let s = set_ev i (\<lambda>ev. ev\<lparr>ev_len := len\<rparr>) s in
        if \<not> nat len < BUFLEN then Inl Out_of_bounds
        else
          let s = set_ev i (\<lambda>ev. ev\<lparr>ev_buf := (ev_buf ev)[nat len := 0]\<rparr>) s;
              s = sv_eventset i fd Senddata (io_time x) s in
          sv_eventadd (io_ctl x) EPOLLOUT i s
      else if len = 0 then Inr (close_fd (ev_fd (gevents s ! i)) s)
      else Inr (close_fd (ev_fd (gevents s ! i)) s))"

definition sv_senddata :: "nat \<Rightarrow> io \<Rightarrow> reactor \<Rightarrow> reactor outcome" where
  "sv_senddata i x s =
     (let len = io_send x;
          ev = gevents s ! i;
          s = (if len > 0 then s\<lparr>sent := sent s @ [(ev_fd ev, take (nat len) (ev_buf ev))]\<rparr> else s);
          s = sv_eventdel i s in
      if \<not> len > 0 then Inr (close_fd (ev_fd (gevents s ! i)) s) else sv_eventadd (io_ctl x) EPOLLIN i s)"

definition sv_call_back :: "nat \<Rightarrow> io \<Rightarrow> reactor \<Rightarrow> reactor outcome" where
  "sv_call_back i x s =
     (let ev = gevents s ! i; arg = ev_arg ev in
      case ev_call_back ev of
        Acceptconn \<Rightarrow> sv_acceptconn x s
      | Recvdata \<Rightarrow> sv_recvdata (ev_fd ev) arg x s
      | Senddata \<Rightarrow> sv_senddata arg x s
      | No_handler \<Rightarrow> Inl Null_deref)"

section \<open>initListenSocket and the loop of main\<close>

definition sv_initListenSocket :: "bool \<Rightarrow> int \<Rightarrow> int \<Rightarrow> reactor \<Rightarrow> reactor outcome" where
  "sv_initListenSocket ok lfd now s =
     (let s = s\<lparr>open_fds := insert lfd (open_fds s)\<rparr>;
          s = sv_eventset MAX_EVENTS lfd Acceptconn now s in
      sv_eventadd ok EPOLLIN MAX_EVENTS s)"

text \<open>One round of the timeout loop: wrap, skip or check the slot, and \<open>checkpos++\<close>.\<close>

definition sv_check :: "int \<Rightarrow> reactor \<Rightarrow> reactor" where
  "sv_check now s =
     (let s = (if checkpos s = MAX_EVENTS then s\<lparr>checkpos := 0\<rparr> else s);
          ev = gevents s ! checkpos s;
          s = (if ev_status ev = 0 then s
               else let duration = now - ev_last_active ev in
                 if duration < 60 then s
                 else let s = close_fd (ev_fd ev) s in sv_eventdel (checkpos s) s) in
      s\<lparr>checkpos := checkpos s + 1\<rparr>)"

definition sv_scan :: "int \<Rightarrow> reactor \<Rightarrow> reactor" where
  "sv_scan now s = fold (\<lambda>i. sv_check now) [0..<100] s"

definition sv_dispatch :: "32 word \<Rightarrow> nat \<Rightarrow> io \<Rightarrow> io \<Rightarrow> reactor \<Rightarrow> reactor outcome" where
  "sv_dispatch m i x y s =
     obind (if m AND EPOLLIN = 0 \<or> ev_events (gevents s ! i) AND EPOLLIN = 0 then Inr s else sv_call_back i x s) (\<lambda>s.
     if m AND EPOLLOUT = 0 \<or> ev_events (gevents s ! i) AND EPOLLOUT = 0 then Inr s else sv_call_back i y s)"

fun sv_step :: "rlabel \<Rightarrow> rsys \<Rightarrow> rsys outcome option" where
  "sv_step (Scan now) u =
     (case phase u of At_scan \<Rightarrow> Some (Inr \<lparr>react = sv_scan now (react u), phase = At_wait\<rparr>) | _ \<Rightarrow> None)"
| "sv_step (Wait fs) u =
     (case phase u of
        At_wait \<Rightarrow>
          if wait_ok (react u) fs
          then Some (Inr \<lparr>react = react u, phase = Serving (map (\<lambda>(f, m). (m, snd (the (interest (react u) f)))) fs)\<rparr>)
          else None
      | _ \<Rightarrow> None)"
| "sv_step Wait_error u = (case phase u of At_wait \<Rightarrow> Some (Inr \<lparr>react = react u, phase = Stopped\<rparr>) | _ \<Rightarrow> None)"
| "sv_step (Serve x y) u =
     (case phase u of
        Serving (e # rest) \<Rightarrow>
          let (m, i) = e in
          if io_ok (react u) i x \<and> io_ok (react u) i y
          then Some (map_sum id (\<lambda>s. \<lparr>react = s, phase = Serving rest\<rparr>) (sv_dispatch m i x y (react u)))
          else None
      | _ \<Rightarrow> None)"
| "sv_step Again u = (case phase u of Serving [] \<Rightarrow> Some (Inr \<lparr>react = react u, phase = At_scan\<rparr>) | _ \<Rightarrow> None)"

definition sv_init :: "rsys \<Rightarrow> bool" where
  "sv_init u \<longleftrightarrow> (\<exists>fds lfd now ok. 0 \<le> lfd \<and> lfd \<notin> fds \<and> phase u = At_scan
     \<and> sv_initListenSocket ok lfd now (zero_reactor fds) = Inr (react u))"

section \<open>They do what the functions of the other file do\<close>

lemma set_ev_put: "set_ev i f s = put_ev i (f (gevents s ! i)) s"
  by (simp add: set_ev_def put_ev_def)

lemma put_put [simp]: "put_ev i e (put_ev i e' s) = put_ev i e s"
  by (simp add: put_ev_def)

lemma set_set: "set_ev i g (set_ev i f s) = set_ev i (g \<circ> f) s"
  by (cases "i < length (gevents s)") (simp_all add: set_ev_def list_update_beyond)

lemma sv_eventset_eq: "sv_eventset i f cb now s = eventset i f cb now s"
  unfolding sv_eventset_def Let_def set_set by (simp add: eventset_def set_ev_put)

lemma slot_field: "(\<And>e. h (f e) = h e) \<Longrightarrow> h (gevents (set_ev i f s) ! i) = h (gevents s ! i)"
  by (cases "i < length (gevents s)") (auto simp: set_ev_def list_update_beyond)

lemma sv_eventadd_eq: "sv_eventadd ok events i s = eventadd ok events i s"
proof -
  have "ev_status (gevents (set_ev i (\<lambda>ev. ev\<lparr>ev_events := events\<rparr>) s) ! i) = ev_status (gevents s ! i)"
    "ev_fd (gevents (set_ev i ((\<lambda>ev. ev\<lparr>ev_status := 1\<rparr>) \<circ> (\<lambda>ev. ev\<lparr>ev_events := events\<rparr>)) s) ! i) = ev_fd (gevents s ! i)"
    by (rule slot_field, simp)+
  then show ?thesis
    by (simp add: sv_eventadd_def eventadd_def Let_def set_set) (auto simp: set_ev_put split: prod.split)
qed

lemma sv_eventdel_eq: "sv_eventdel i s = eventdel i s"
proof -
  have "ev_fd (gevents (set_ev i (\<lambda>ev. ev\<lparr>ev_status := 0\<rparr>) s) ! i) = ev_fd (gevents s ! i)"
    by (rule slot_field) simp
  then show ?thesis by (simp add: sv_eventdel_def eventdel_def Let_def) (simp add: set_ev_put)
qed

lemma free_pos_find: "i + m = MAX_EVENTS \<Longrightarrow> free_pos [i..<i + m] gs = find_free i gs"
proof (induction m arbitrary: i)
  case 0
  then show ?case by (subst find_free.simps) simp
next
  case (Suc m)
  then have "[i..<i + Suc m] = i # [Suc i..<Suc i + m]" "i < MAX_EVENTS" by (simp_all add: upt_conv_Cons)
  with Suc.IH [of "Suc i"] Suc.prems show ?case by (subst find_free.simps) (simp del: upt_Suc)
qed

lemma sv_acceptconn_eq: "sv_acceptconn x s = acceptconn x s"
  using free_pos_find [of 0 MAX_EVENTS] by (simp add: sv_acceptconn_def acceptconn_def sv_eventset_eq sv_eventadd_eq Let_def)

lemma sv_recvdata_eq: "sv_recvdata fd i x s = recvdata fd i x s"
proof -
  have r: "received x i s = (if 0 < io_recv x then put_ev i ((gevents s ! i)\<lparr>ev_buf := take (nat (io_recv x)) (io_data x)
      @ drop (nat (io_recv x)) (ev_buf (gevents s ! i))\<rparr>) s else s)"
    by (simp add: received_def set_ev_put)
  show ?thesis unfolding sv_recvdata_def recvdata_def Let_def r sv_eventdel_eq sv_eventset_eq sv_eventadd_eq set_set
    by (simp add: set_ev_put)
qed

lemma sv_senddata_eq: "sv_senddata i x s = senddata i x s"
  by (simp add: sv_senddata_def senddata_def Let_def sv_eventdel_eq sv_eventadd_eq)

lemma sv_call_back_eq: "sv_call_back i x s = call_back i x s"
  by (simp add: sv_call_back_def call_back_def Let_def sv_acceptconn_eq sv_recvdata_eq sv_senddata_eq split: handler.split)

lemma sv_init_eq: "sv_initListenSocket ok lfd now s = initListenSocket ok lfd now s"
  by (simp add: sv_initListenSocket_def initListenSocket_def Let_def sv_eventset_eq sv_eventadd_eq)

lemma sv_check_eq:
  "sv_check now s = (let c = (if checkpos s = MAX_EVENTS then 0 else checkpos s) in (check_slot now c s)\<lparr>checkpos := c + 1\<rparr>)"
  by (auto simp: sv_check_def check_slot_def Let_def sv_eventdel_eq close_fd_def eventdel_def epoll_ctl_del_def put_ev_def)

lemma sv_scan_n: "fold (\<lambda>i. sv_check now) is s = scan (length is) now s"
  by (induction "is" arbitrary: s) (simp_all add: sv_check_eq Let_def)

lemma sv_scan_eq: "sv_scan now s = scan 100 now s"
  using sv_scan_n [of now "[0..<100]"] by (simp only: sv_scan_def length_upt diff_zero)

lemma sv_dispatch_eq: "sv_dispatch m i x y s = dispatch m i x y s"
  unfolding sv_dispatch_def dispatch_def sv_call_back_eq by (auto intro!: arg_cong2 [where f = obind])

lemma obind_map: "obind m (\<lambda>x. Inr (f x)) = map_sum id f m"
  by (cases m) simp_all

lemma sv_step_eq: "sv_step l u = main_step l u"
proof (cases l)
  case (Serve x y)
  then show ?thesis by (cases u) (auto simp: sv_dispatch_eq obind_map split: phase.split list.split)
qed (cases u; auto simp: sv_scan_eq split: phase.split list.split)+

lemma sv_init_reactor: "sv_init u = init_reactor u"
  by (cases u) (auto simp: sv_init_def init_reactor_def sv_init_eq)

text \<open>The event functions of src/socket/Server/Reactor.cpp are those of src/socket/epoll/Reactor/main.cpp: in every state
  each callback has the same outcome, faults included, so has the timeout scan, and the loop of \<open>main\<close> has the
  same start states and, for every label, the same step.\<close>

theorem server_events_agree:
  "sv_eventset i f cb now s = eventset i f cb now s \<and> sv_eventadd ok m i s = eventadd ok m i s \<and> sv_eventdel i s = eventdel i s
   \<and> sv_acceptconn x s = acceptconn x s \<and> sv_recvdata f i x s = recvdata f i x s \<and> sv_senddata i x s = senddata i x s
   \<and> sv_scan now s = scan 100 now s \<and> sv_init u = init_reactor u \<and> sv_step l u = main_step l u"
  by (simp add: sv_eventset_eq sv_eventadd_eq sv_eventdel_eq sv_acceptconn_eq sv_recvdata_eq sv_senddata_eq sv_scan_eq
      sv_init_reactor sv_step_eq)

end
