(* ===== verification/Sockets.thy ===== *)
theory Sockets
  imports Prelude "HOL-Library.Word"
begin

text \<open>
  A stream socket as its reader sees it: bytes that arrive in pieces, of which a call gets at most one.
  Shared by the programs that read in a loop.
\<close>

type_synonym byte = "8 word"

section \<open>A socket to read from\<close>

text \<open>
  What is on its way, in the pieces in which it will arrive, and what \<open>recv\<close> returns once there is
  nothing left: 0 at the end of the stream, -1 for an error. A call gets at most the next piece.
\<close>

record sock =
  pieces :: "byte list list"
  at_end :: int

fun sock_recv :: "nat \<Rightarrow> sock \<Rightarrow> int \<times> byte list \<times> sock" where
  "sock_recv n k =
     (case pieces k of
        [] \<Rightarrow> (at_end k, [], k)
      | c # cs \<Rightarrow>
          if length c \<le> n then (int (length c), c, k\<lparr>pieces := cs\<rparr>)
          else (int n, take n c, k\<lparr>pieces := drop n c # cs\<rparr>))"

definition sock_ok :: "sock \<Rightarrow> bool" where
  "sock_ok k \<longleftrightarrow> [] \<notin> set (pieces k) \<and> at_end k \<le> 0"

lemma sock_recv_spec:
  assumes "sock_ok k" "0 < n" "sock_recv n k = (r, d, k')"
  shows "concat (pieces k) = d @ concat (pieces k') \<and> sock_ok k'
    \<and> (pieces k \<noteq> [] \<longrightarrow> 0 < r \<and> r = int (length d) \<and> length d \<le> n)
    \<and> (pieces k = [] \<longrightarrow> r \<le> 0 \<and> d = [] \<and> k' = k)"
proof (cases "pieces k")
  case Nil
  with assms show ?thesis by (auto simp: sock_ok_def)
next
  case (Cons c cs)
  with assms(1) have "c \<noteq> []" by (auto simp: sock_ok_def)
  with Cons assms show ?thesis by (auto simp: sock_ok_def split: if_splits)
qed

text \<open>The size of a socket is what is left to read: loops that read have it as their measure.\<close>

instantiation sock_ext :: (type) size
begin

definition size_sock_ext :: "'a sock_ext \<Rightarrow> nat" where
  "size_sock_ext k = length (concat (pieces k))"

instance ..

end

lemma sock_recv_size:
  assumes "0 < n" "sock_recv n k = (r, d, k')" "d \<noteq> []"
  shows "size k' < size k"
  using assms by (auto simp: size_sock_ext_def split: list.splits if_splits)

lemma sock_recv_empty: "pieces k = [] \<Longrightarrow> sock_recv n k = (at_end k, [], k)"
  by simp

end
