(* ===== verification/Epoll_Class.thy ===== *)
theory Epoll_Class
  imports Server_Pool Reactor Sockets
begin

text \<open>
  The class \<open>Epoll\<close> of src/socket/Server/Reactor.cpp, which hands what its event loop finds ready to
  the thread pool. \<open>Recv_task\<close> reads a packet, 4 bytes of length and then the data, from a socket
  that may deliver it in any pieces; \<open>Send_task\<close> sends a buffer; \<open>EventLoop\<close> dispatches one batch of
  ready events. The functions \<open>Accept_task\<close> and \<open>Buffer_Deal\<close> are only declared or named in the code.
\<close>

unbundle bit_operations_syntax

section \<open>Recv_task\<close>

text \<open>The \<open>int\<close> whose bytes in memory, lowest first, start with the given ones and are zero beyond.\<close>

fun le_word :: "byte list \<Rightarrow> 32 word" where
  "le_word [] = 0"
| "le_word (b # bs) = ucast b OR push_bit 8 (le_word bs)"

definition le_bytes :: "32 word \<Rightarrow> byte list" where
  "le_bytes w = map (\<lambda>i. ucast (drop_bit (8 * i) w)) [0..<4]"

text \<open>
  The loop that receives the rest of a packet: how many bytes are still missing, what the buffer
  holds so far (its length is \<open>nOffSet\<close>). A call returns at least one byte or ends the loop; the
  first test in the model is that of \<open>while (nPackSize)\<close>.
\<close>

function recv_loop :: "nat \<Rightarrow> byte list \<Rightarrow> sock \<Rightarrow> byte list \<times> sock" where
  "recv_loop nPackSize pSzBuf k =
     (if nPackSize = 0 then (pSzBuf, k)
      else
        let (nRelReadNum, d, k') = sock_recv nPackSize k in
        if nRelReadNum \<le> 0 then (pSzBuf, k')
        else recv_loop (nPackSize - nat nRelReadNum) (pSzBuf @ d) k')"
  by pat_completeness auto
termination
  by (relation "measure (\<lambda>(n, b, k). n)") auto

declare recv_loop.simps [simp del]

record DataBuffer =
  sockfd :: int
  buf :: "byte list"
  nlen :: int

text \<open>
  How the task ends: a buffer is handed to the pool and the event registered again, or the event is
  deleted and its descriptor closed. A negative size makes \<open>new\<close> throw.
\<close>

datatype recv_end = Buffer_Deal DataBuffer | Hang_up int

definition Recv_task :: "int \<Rightarrow> sock \<Rightarrow> (recv_end \<times> sock) outcome" where
  "Recv_task fd k =
     (let (nRelReadNum, d, k) = sock_recv 4 k in
      if nRelReadNum \<le> 0 then Inr (Hang_up fd, k)
      else
        let nPackSize = sint (le_word d) in
        if nPackSize < 0 then Inl Bad_alloc
        else let (pSzBuf, k) = recv_loop (nat nPackSize) [] k in
          Inr (Buffer_Deal \<lparr>sockfd = fd, buf = pSzBuf, nlen = int (length pSzBuf)\<rparr>, k))"

text \<open>\<open>Send_task\<close> sends that many bytes of the buffer to that descriptor.\<close>

definition Send_task :: "DataBuffer \<Rightarrow> int \<times> byte list" where
  "Send_task data = (sockfd data, take (nat (nlen data)) (buf data))"

section \<open>The packet is put together\<close>

lemma le_word_bytes: "le_word (le_bytes w) = w"
proof -
  have m: "map (\<lambda>i. ucast (drop_bit (8 * i) w) :: byte) [0..<4] =
    [ucast w, ucast (drop_bit 8 w), ucast (drop_bit 16 w), ucast (drop_bit 24 w)]"
    by (simp add: upt_rec)
  show ?thesis
    unfolding le_bytes_def m
  proof (rule bit_word_eqI)
    fix n assume "n < LENGTH(32)"
    then have "n < 32" by simp
    then consider "n < 8" | "8 \<le> n" "n < 16" | "16 \<le> n" "n < 24" | "24 \<le> n" "n < 32" by linarith
    then show "bit (le_word [ucast w, ucast (drop_bit 8 w), ucast (drop_bit 16 w), ucast (drop_bit 24 w)]) n = bit w n"
      by cases (auto simp: bit_simps)
  qed
qed

lemma length_le_bytes [simp]: "length (le_bytes w) = 4"
  by (simp add: le_bytes_def)

lemma le_bytes_ne [simp]: "le_bytes w \<noteq> []"
  by (metis length_le_bytes list.size(3) zero_neq_numeral)

lemma sock_recv_head: "pieces k = c # cs \<Longrightarrow> 4 \<le> length c \<Longrightarrow> \<exists>k1. sock_recv 4 k = (4, take 4 c, k1)"
  by (cases "length c = 4") auto

text \<open>The loop gets the missing bytes, or everything there is if the stream ends before.\<close>

lemma recv_loop_gets:
  assumes "sock_ok k"
  shows "\<exists>k'. recv_loop n b k = (b @ take n (concat (pieces k)), k')
    \<and> concat (pieces k') = drop n (concat (pieces k)) \<and> sock_ok k'"
  using assms
proof (induction n b k rule: recv_loop.induct)
  case (1 n b k)
  obtain r d k1 where sr: "sock_recv n k = (r, d, k1)" by (cases "sock_recv n k") auto
  show ?case
  proof (cases "n = 0")
    case True
    then show ?thesis using 1 by (simp add: recv_loop.simps)
  next
    case False
    then have n: "0 < n" by simp
    note sp = sock_recv_spec [OF "1.prems" n sr]
    show ?thesis
    proof (cases "pieces k = []")
      case True
      with sp have "r \<le> 0" "k1 = k" by auto
      then have "recv_loop n b k = (b, k)" using False sr by (subst recv_loop.simps) (simp del: sock_recv.simps)
      with True 1 show ?thesis by simp
    next
      case more: False
      with sp have r: "0 < r" "r = int (length d)" "length d \<le> n" and k1: "sock_ok k1"
        "concat (pieces k) = d @ concat (pieces k1)" by auto
      have "recv_loop n b k = recv_loop (n - nat r) (b @ d) k1"
        using False sr r(1) by (subst recv_loop.simps) (simp del: sock_recv.simps)
      moreover obtain k' where "recv_loop (n - nat r) (b @ d) k1 = ((b @ d) @ take (n - nat r) (concat (pieces k1)), k')"
        "concat (pieces k') = drop (n - nat r) (concat (pieces k1))" "sock_ok k'"
        using "1.IH" [OF False sr [symmetric] refl] r(1) k1(1) by auto
      ultimately show ?thesis using r k1(2) by auto
    qed
  qed
qed

lemma Recv_task_gets:
  assumes "sock_ok k" "pieces k = c # cs" "4 \<le> length c" "le_word (take 4 c) = w" "0 \<le> sint w"
    "concat (pieces k) = take 4 c @ rest"
  shows "\<exists>k'. Recv_task fd k = Inr (Buffer_Deal \<lparr>sockfd = fd, buf = take (nat (sint w)) rest,
      nlen = int (length (take (nat (sint w)) rest))\<rparr>, k')
    \<and> concat (pieces k') = drop (nat (sint w)) rest \<and> sock_ok k'"
proof -
  obtain r d k1 where sr: "sock_recv 4 k = (r, d, k1)" by (cases "sock_recv 4 k") auto
  have d: "d = take 4 c" "r = 4" using sr assms(2,3) by (auto split: if_splits)
  have k1: "sock_ok k1" "concat (pieces k1) = rest"
    using sock_recv_spec [OF assms(1) _ sr] d assms(6) by auto
  obtain k' where "recv_loop (nat (sint w)) [] k1 = ([] @ take (nat (sint w)) rest, k')"
    "concat (pieces k') = drop (nat (sint w)) rest" "sock_ok k'"
    using recv_loop_gets [OF k1(1), of "nat (sint w)" "[]"] k1(2) by auto
  then show ?thesis
    using sr d assms(4,5) by (simp add: Recv_task_def Let_def del: sock_recv.simps)
qed

section \<open>EventLoop\<close>

text \<open>The fields of an event struct the loop looks at; a pointer to a struct is its index.\<close>

record cevent =
  c_fd :: int
  c_events :: "32 word"
  c_call_back :: ptr
  c_arg :: ptr

definition readable :: "cevent list \<Rightarrow> nat \<times> 32 word \<Rightarrow> bool" where
  "readable gs x \<longleftrightarrow> snd x AND EPOLLIN \<noteq> 0 \<and> c_events (gs ! fst x) AND EPOLLIN \<noteq> 0"

definition writable :: "cevent list \<Rightarrow> nat \<times> 32 word \<Rightarrow> bool" where
  "writable gs x \<longleftrightarrow> snd x AND EPOLLOUT \<noteq> 0 \<and> c_events (gs ! fst x) AND EPOLLOUT \<noteq> 0"

text \<open>
  One ready event. The condition of the inner test is an assignment, \<open>ev->fd = lfd\<close>: it replaces the
  descriptor of the event and holds unless \<open>lfd\<close> is 0. Adding the task may wait (\<open>None\<close>). A direct
  call is logged with the function, the descriptor and the argument.
\<close>

definition read_event ::
    "int \<Rightarrow> nat \<times> 32 word \<Rightarrow> cevent list \<Rightarrow> threadpool_t \<Rightarrow> (cevent list \<times> threadpool_t) outcome option" where
  "read_event lfd x gs p =
     (if readable gs x
      then let ev = (gs ! fst x)\<lparr>c_fd := lfd\<rparr>; gs' = gs[fst x := ev] in
        if lfd \<noteq> 0
        then map_option (\<lambda>r. obind r (\<lambda>(_, p'). Inr (gs', p')))
               (threadpool_add p \<lparr>tfunction = c_call_back ev, targ = c_arg ev\<rparr>)
        else Some (Inr (gs', p))
      else Some (Inr (gs, p)))"

definition write_event :: "nat \<times> 32 word \<Rightarrow> cevent list \<Rightarrow> (ptr \<times> int \<times> ptr) list" where
  "write_event x gs =
     (if writable gs x then let ev = gs ! fst x in [(c_call_back ev, c_fd ev, c_arg ev)] else [])"

text \<open>The loop over the batch \<open>epoll_wait\<close> has returned.\<close>

fun EventLoop ::
    "int \<Rightarrow> (nat \<times> 32 word) list \<Rightarrow> cevent list \<Rightarrow> threadpool_t \<Rightarrow> (ptr \<times> int \<times> ptr) list
     \<Rightarrow> (cevent list \<times> threadpool_t \<times> (ptr \<times> int \<times> ptr) list) outcome option" where
  "EventLoop lfd [] gs p calls = Some (Inr (gs, p, calls))"
| "EventLoop lfd (x # xs) gs p calls =
     (case read_event lfd x gs p of
        None \<Rightarrow> None
      | Some (Inl f) \<Rightarrow> Some (Inl f)
      | Some (Inr (gs', p')) \<Rightarrow> EventLoop lfd xs gs' p' (calls @ write_event x gs'))"

definition event_task :: "cevent list \<Rightarrow> nat \<times> 32 word \<Rightarrow> threadpool_task_t" where
  "event_task gs x = \<lparr>tfunction = c_call_back (gs ! fst x), targ = c_arg (gs ! fst x)\<rparr>"

definition clobber :: "int \<Rightarrow> nat \<Rightarrow> cevent list \<Rightarrow> cevent list" where
  "clobber lfd i gs = gs[i := (gs ! i)\<lparr>c_fd := lfd\<rparr>]"

lemma clobber_nth: "clobber lfd i gs ! j = (if i = j \<and> i < length gs then (gs ! j)\<lparr>c_fd := lfd\<rparr> else gs ! j)"
  by (cases "i < length gs") (auto simp: clobber_def nth_list_update list_update_beyond)

lemma clobber_fields [simp]:
  "c_events (clobber lfd i gs ! j) = c_events (gs ! j)" "c_call_back (clobber lfd i gs ! j) = c_call_back (gs ! j)"
  "c_arg (clobber lfd i gs ! j) = c_arg (gs ! j)" "length (clobber lfd i gs) = length gs"
  by (simp_all add: clobber_nth) (simp add: clobber_def)

lemma clobber_keeps [simp]:
  "readable (clobber lfd i gs) = readable gs" "event_task (clobber lfd i gs) = event_task gs"
  by (simp_all add: readable_def event_task_def fun_eq_iff)

lemma read_event_room:
  assumes "ring_ok p" "\<not> shutdown p" "lfd \<noteq> 0" "readable gs x" "queue_size p < queue_max_size p"
  shows "\<exists>p'. read_event lfd x gs p = Some (Inr (clobber lfd (fst x) gs, p')) \<and> ring_ok p' \<and> \<not> shutdown p'
    \<and> queue_max_size p' = queue_max_size p \<and> pool_tasks p' = pool_tasks p @ [event_task gs x]"
proof -
  from assms(1) obtain q where q: "task_queue p = Arr q" by (auto elim: ring_okE)
  note put = add_put_eq [OF assms(1) q, of "event_task gs x"]
  note ring = add_put_ring [OF assms(1,5) put]
  have "threadpool_add p (event_task gs x) = Some (obind (add_put p (event_task gs x)) (\<lambda>p'. Inr (0, p')))"
    using assms(2,5) by (simp add: threadpool_add_def add_guard_def)
  with put ring assms(2-4) show ?thesis
    by (simp add: read_event_def Let_def clobber_def event_task_def)
qed

lemma EventLoop_batch:
  assumes "ring_ok p" "\<not> shutdown p" "lfd \<noteq> 0"
    and "int (length (filter (readable gs) xs)) \<le> queue_max_size p - queue_size p"
    and "\<forall>x\<in>set xs. fst x < length gs"
  shows "\<exists>gs' p' calls'. EventLoop lfd xs gs p calls = Some (Inr (gs', p', calls')) \<and> ring_ok p'
    \<and> pool_tasks p' = pool_tasks p @ map (event_task gs) (filter (readable gs) xs)
    \<and> (\<forall>i. (c_fd (gs ! i) = lfd \<or> i \<in> fst ` set (filter (readable gs) xs)) \<longrightarrow> i < length gs \<longrightarrow> c_fd (gs' ! i) = lfd)"
  using assms
proof (induction xs arbitrary: gs p calls)
  case (Cons x xs)
  show ?case
  proof (cases "readable gs x")
    case False
    then have "read_event lfd x gs p = Some (Inr (gs, p))" by (simp add: read_event_def)
    with Cons.IH [of p gs "calls @ write_event x gs"] Cons.prems False show ?thesis by simp
  next
    case True
    let ?gs = "clobber lfd (fst x) gs"
    from True Cons.prems(4) have room: "queue_size p < queue_max_size p" by simp
    from read_event_room [OF Cons.prems(1-3) True room] obtain p1 where p1:
      "read_event lfd x gs p = Some (Inr (?gs, p1))" "ring_ok p1" "\<not> shutdown p1"
      "queue_max_size p1 = queue_max_size p" "pool_tasks p1 = pool_tasks p @ [event_task gs x]" by blast
    have sz: "queue_size p1 = queue_size p + 1"
      using length_pool_tasks [OF p1(2)] length_pool_tasks [OF Cons.prems(1)] p1(5) by simp
    from Cons.prems(4) True have "int (length (filter (readable ?gs) xs)) \<le> queue_max_size p1 - queue_size p1"
      by (simp add: p1(4) sz)
    from Cons.IH [OF p1(2,3) Cons.prems(3) this, of "calls @ write_event x ?gs"] Cons.prems(5)
    obtain gs' p' calls' where ih: "EventLoop lfd xs ?gs p1 (calls @ write_event x ?gs) = Some (Inr (gs', p', calls'))"
      "ring_ok p'" "pool_tasks p' = pool_tasks p1 @ map (event_task gs) (filter (readable gs) xs)"
      "\<forall>i. (c_fd (?gs ! i) = lfd \<or> i \<in> fst ` set (filter (readable gs) xs)) \<longrightarrow> i < length gs \<longrightarrow> c_fd (gs' ! i) = lfd"
      by auto
    have "c_fd (gs' ! i) = lfd"
      if i: "c_fd (gs ! i) = lfd \<or> i \<in> fst ` set (filter (readable gs) (x # xs))" "i < length gs" for i
    proof (cases "i = fst x")
      case True
      with i(2) have "c_fd (?gs ! i) = lfd" by (simp add: clobber_def)
      with ih(4) i(2) show ?thesis by blast
    next
      case other: False
      then have "?gs ! i = gs ! i" by (simp add: clobber_def)
      with ih(4) i True other show ?thesis by auto
    qed
    with ih True p1(1,5) show ?thesis by auto
  qed
qed simp

lemma EventLoop_full:
  assumes "queue_size p = queue_max_size p" "\<not> shutdown p" "lfd \<noteq> 0" "\<exists>x\<in>set xs. readable gs x"
  shows "EventLoop lfd xs gs p calls = None"
  using assms
proof (induction xs arbitrary: calls)
  case (Cons x xs)
  show ?case
  proof (cases "readable gs x")
    case True
    with Cons.prems show ?thesis by (simp add: read_event_def Let_def threadpool_add_def add_guard_def)
  next
    case False
    then have "read_event lfd x gs p = Some (Inr (gs, p))" by (simp add: read_event_def)
    with False Cons show ?thesis by simp
  qed
qed simp

section \<open>InitListen and Recv\<close>

text \<open>
  An object of the class. \<open>InitListen\<close> makes the pool, zeroes the table and registers the listening
  socket, with its last entry, in a new epoll instance, whose list of descriptors, events and entries is
  \<open>m_watched\<close>; the socket is a local variable called \<open>lfd\<close>, so the member of that name keeps
  its value. The result is false although nothing failed. \<open>accept_fun\<close> is the address of \<open>Accept_task\<close>.
\<close>

record epoll_obj =
  m_lfd :: int
  m_pool :: threadpool_t
  m_gevents :: "cevent list"
  m_watched :: "(int \<times> 32 word \<times> nat) list"

definition zero_cevent :: cevent where
  "zero_cevent = \<lparr>c_fd = 0, c_events = 0, c_call_back = 0, c_arg = 0\<rparr>"

definition listener_table :: "int \<Rightarrow> ptr \<Rightarrow> cevent list" where
  "listener_table fd call =
     (replicate (MAX_EVENTS + 1) zero_cevent)[MAX_EVENTS :=
        \<lparr>c_fd = fd, c_events = 0, c_call_back = call, c_arg = MAX_EVENTS\<rparr>]"

lemma length_listener_table: "length (listener_table fd call) = MAX_EVENTS + 1"
  by (simp only: listener_table_def length_list_update length_replicate)

definition InitListen :: "create_env \<Rightarrow> int \<Rightarrow> ptr \<Rightarrow> epoll_obj \<Rightarrow> (bool \<times> epoll_obj) outcome" where
  "InitListen e sock accept_fun this =
     obind (ThreadPoolInit e (m_pool this)) (\<lambda>(_, p).
       let lfd = sock;
           gs = listener_table lfd accept_fun;
           gs = gs[MAX_EVENTS := (gs ! MAX_EVENTS)\<lparr>c_events := EPOLLIN\<rparr>] in
       Inr (False, this\<lparr>m_pool := p, m_gevents := gs, m_watched := [(lfd, EPOLLIN, MAX_EVENTS)]\<rparr>))"

definition Recv :: "ptr \<Rightarrow> ptr \<Rightarrow> threadpool_t \<Rightarrow> (int \<times> threadpool_t) outcome option" where
  "Recv recv_fun arg p = threadpool_add p \<lparr>tfunction = recv_fun, targ = arg\<rparr>"

text \<open>With the member \<open>lfd\<close> still 0 the inner test of the loop is false for every event.\<close>

lemma EventLoop_unset:
  "\<exists>gs' calls'. EventLoop 0 xs gs p calls = Some (Inr (gs', p, calls')) \<and> length gs' = length gs \<and>
     (\<forall>i<length gs. c_fd (gs' ! i) = c_fd (gs ! i) \<or> c_fd (gs' ! i) = 0) \<and>
     (\<forall>x\<in>set xs. readable gs x \<and> fst x < length gs \<longrightarrow> c_fd (gs' ! fst x) = 0)"
proof (induction xs arbitrary: gs calls)
  case (Cons x xs)
  show ?case
  proof (cases "readable gs x")
    case False
    then have "read_event 0 x gs p = Some (Inr (gs, p))" by (simp add: read_event_def)
    with Cons.IH [of gs "calls @ write_event x gs"] False show ?thesis by auto
  next
    case True
    let ?gs = "clobber 0 (fst x) gs"
    have "read_event 0 x gs p = Some (Inr (?gs, p))" using True by (simp add: read_event_def Let_def clobber_def)
    moreover have len: "length ?gs = length gs" by (simp add: clobber_def)
    moreover obtain gs' calls' where ih: "EventLoop 0 xs ?gs p (calls @ write_event x ?gs) = Some (Inr (gs', p, calls'))"
      "length gs' = length gs" "\<forall>i<length gs. c_fd (gs' ! i) = c_fd (?gs ! i) \<or> c_fd (gs' ! i) = 0"
      "\<forall>x\<in>set xs. readable gs x \<and> fst x < length gs \<longrightarrow> c_fd (gs' ! fst x) = 0"
      using Cons.IH [of ?gs "calls @ write_event x ?gs"] len
      by (simp del: EventLoop.simps) blast
    moreover have "c_fd (gs' ! fst x) = 0" if "fst x < length gs"
      using ih(3) that by (auto simp: clobber_def)
    moreover have "c_fd (gs' ! i) = c_fd (gs ! i) \<or> c_fd (gs' ! i) = 0" if "i < length gs" for i
      using ih(3) that by (cases "i = fst x") (auto simp: clobber_def)
    ultimately show ?thesis by auto
  qed
qed simp

text \<open>A zeroed object that has been initialised: whatever events arrive, no batch gives the pool a task, and the
  first request for a connection overwrites the descriptor of the listener's own entry by 0.\<close>

lemma init_listen_idle:
  assumes "InitListen e sock accept_fun this = Inr (r, obj)" "m_lfd this = 0"
  shows "\<not> r \<and> (\<exists>gs' calls'. EventLoop (m_lfd obj) xs (m_gevents obj) (m_pool obj) calls = Some (Inr (gs', m_pool obj, calls'))
    \<and> (list_ex (\<lambda>(i, m). i = MAX_EVENTS \<and> m AND EPOLLIN \<noteq> 0) xs \<longrightarrow> c_fd (gs' ! MAX_EVENTS) = 0))"
proof -
  from assms(1) obtain q p where "ThreadPoolInit e (m_pool this) = Inr (q, p)" and obj: "(r, obj) = (False,
      this\<lparr>m_pool := p, m_gevents := (listener_table sock accept_fun)[MAX_EVENTS :=
        (listener_table sock accept_fun ! MAX_EVENTS)\<lparr>c_events := EPOLLIN\<rparr>],
      m_watched := [(sock, EPOLLIN, MAX_EVENTS)]\<rparr>)"
    unfolding InitListen_def Let_def
    by (cases "ThreadPoolInit e (m_pool this)") auto
  then have r: "\<not> r" "m_lfd obj = 0" and gs: "length (m_gevents obj) = MAX_EVENTS + 1"
    "c_events (m_gevents obj ! MAX_EVENTS) = EPOLLIN"
    using assms(2) by (auto simp: length_listener_table)
  obtain gs' calls' where e: "EventLoop 0 xs (m_gevents obj) (m_pool obj) calls = Some (Inr (gs', m_pool obj, calls'))"
    and c: "\<forall>x\<in>set xs. readable (m_gevents obj) x \<and> fst x < length (m_gevents obj) \<longrightarrow> c_fd (gs' ! fst x) = 0"
    using EventLoop_unset [of xs "m_gevents obj" "m_pool obj" calls] by blast
  have "EPOLLIN AND EPOLLIN \<noteq> 0" by (simp add: EPOLLIN_def)
  then have "c_fd (gs' ! MAX_EVENTS) = 0" if "list_ex (\<lambda>(i, m). i = MAX_EVENTS \<and> m AND EPOLLIN \<noteq> 0) xs"
    using that c gs by (fastforce simp: list_ex_iff readable_def)
  with r e show ?thesis by auto
qed

section \<open>Properties\<close>

text \<open>C22. A packet whose size field arrives in one piece survives however the network cuts up the rest: if the stream is
  the 4 bytes of a size, so many bytes of data, and then anything, and the first piece holds at least the 4 bytes of the
  size, \<open>Recv_task\<close> hands on exactly the data and leaves exactly the rest in the socket. (A first piece
  of fewer than 4 bytes is not put together by the code, which takes it for a whole size. If the stream ends early it hands on
  what there was, as if that were the packet.)\<close>

theorem recv_task_roundtrip:
  assumes "sock_ok k" "concat (pieces k) = le_bytes (word_of_int (int (length payload))) @ payload @ rest"
    and "4 \<le> length (hd (pieces k))" "length payload < 2 ^ 31"
  shows "\<exists>k'. Recv_task fd k = Inr (Buffer_Deal \<lparr>sockfd = fd, buf = payload, nlen = int (length payload)\<rparr>, k')
    \<and> concat (pieces k') = rest \<and> sock_ok k'"
proof -
  let ?w = "word_of_int (int (length payload)) :: 32 word"
  obtain c cs where c: "pieces k = c # cs" using assms(2) by (cases "pieces k") auto
  with assms(3) have len: "4 \<le> length c" by simp
  have "take 4 (concat (pieces k)) = take 4 c" using c len by simp
  then have t4: "take 4 c = le_bytes ?w" using assms(2) by simp
  have w: "le_word (take 4 c) = ?w" using t4 by (simp add: le_word_bytes)
  have s: "sint ?w = int (length payload)"
    using assms(4) signed_take_bit_int_eq_self [of 31 "int (length payload)"]
    by (simp add: signed_of_nat)
  have cat: "concat (pieces k) = take 4 c @ (payload @ rest)" using assms(2) t4 by simp
  from Recv_task_gets [OF assms(1) c len w _ cat, of fd] s show ?thesis by simp
qed

theorem recv_task_roundtrip_witness:
  "\<exists>k'. Recv_task 7 \<lparr>pieces = [[2, 0, 0, 0, 65], [66, 3]], at_end = 0\<rparr> =
     Inr (Buffer_Deal \<lparr>sockfd = 7, buf = [65, 66], nlen = 2\<rparr>, k') \<and> concat (pieces k') = [3]"
proof -
  have "le_bytes (word_of_int (int (length [65, 66 :: byte]))) = [2, 0, 0, 0]"
    by (simp add: le_bytes_def upt_rec)
  then show ?thesis
    using recv_task_roundtrip [of "\<lparr>pieces = [[2, 0, 0, 0, 65], [66, 3]], at_end = 0\<rparr>" "[65, 66]" "[3]" 7]
    by (auto simp: sock_ok_def)
qed

text \<open>What goes wrong in \<open>Recv_task\<close>: a negative size makes the allocation throw, and a packet cut short
  by the end of the stream is handed on as a complete one.\<close>

theorem recv_task_bad_packets:
  assumes "sock_ok k" "pieces k = c # cs" "4 \<le> length c"
  shows "(sint (le_word (take 4 c)) < 0 \<longrightarrow> Recv_task fd k = Inl Bad_alloc)
    \<and> (\<forall>part. concat (pieces k) = take 4 c @ part \<and> int (length part) < sint (le_word (take 4 c)) \<longrightarrow>
         (\<exists>k'. Recv_task fd k = Inr (Buffer_Deal \<lparr>sockfd = fd, buf = part, nlen = int (length part)\<rparr>, k')))"
proof (intro conjI impI allI)
  assume "sint (le_word (take 4 c)) < 0"
  moreover obtain k1 where "sock_recv 4 k = (4, take 4 c, k1)" using sock_recv_head [OF assms(2,3)] by blast
  ultimately show "Recv_task fd k = Inl Bad_alloc" by (simp add: Recv_task_def Let_def del: sock_recv.simps)
next
  fix part assume part: "concat (pieces k) = take 4 c @ part \<and> int (length part) < sint (le_word (take 4 c))"
  with Recv_task_gets [OF assms refl _ conjunct1 [OF part], of fd]
  show "\<exists>k'. Recv_task fd k = Inr (Buffer_Deal \<lparr>sockfd = fd, buf = part, nlen = int (length part)\<rparr>, k')"
    by auto
qed

theorem recv_task_bad_packets_witness:
  "Recv_task 7 \<lparr>pieces = [[0, 0, 0, 128]], at_end = 0\<rparr> = Inl Bad_alloc"
  using recv_task_bad_packets [of "\<lparr>pieces = [[0, 0, 0, 128]], at_end = 0\<rparr>" "[0, 0, 0, 128]" "[]" 7]
  by (simp add: sock_ok_def)

text \<open>One batch of \<open>EventLoop\<close> adds the task of every event ready to read to the pool, in order, if the
  pool has room for them, and replaces the descriptor of each of those events by the listener's, so
  the task will read from the listening socket. On a full pool, which a pool of \<open>ThreadPoolInit\<close> on a
  zeroed object always is, the loop waits at the first event ready to read.\<close>

theorem event_loop_batch:
  assumes "\<not> shutdown p" "lfd \<noteq> 0"
  shows "(ring_ok p \<and> int (length (filter (readable gs) xs)) \<le> queue_max_size p - queue_size p
      \<and> (\<forall>x\<in>set xs. fst x < length gs) \<longrightarrow>
      (\<exists>gs' p' calls'. EventLoop lfd xs gs p calls = Some (Inr (gs', p', calls'))
        \<and> pool_tasks p' = pool_tasks p @ map (event_task gs) (filter (readable gs) xs)
        \<and> (\<forall>x\<in>set (filter (readable gs) xs). c_fd (gs' ! fst x) = lfd)))
    \<and> (queue_size p = queue_max_size p \<and> (\<exists>x\<in>set xs. readable gs x) \<longrightarrow> EventLoop lfd xs gs p calls = None)"
proof (intro conjI impI)
  assume a: "ring_ok p \<and> int (length (filter (readable gs) xs)) \<le> queue_max_size p - queue_size p
      \<and> (\<forall>x\<in>set xs. fst x < length gs)"
  then obtain gs' p' calls' where r: "EventLoop lfd xs gs p calls = Some (Inr (gs', p', calls'))"
    "pool_tasks p' = pool_tasks p @ map (event_task gs) (filter (readable gs) xs)"
    "\<And>i. i \<in> fst ` set (filter (readable gs) xs) \<Longrightarrow> i < length gs \<Longrightarrow> c_fd (gs' ! i) = lfd"
    using EventLoop_batch [OF _ assms, of gs xs calls] by blast
  have "\<forall>x\<in>set (filter (readable gs) xs). c_fd (gs' ! fst x) = lfd"
    using r(3) a by auto
  with r(1,2) show "\<exists>gs' p' calls'. EventLoop lfd xs gs p calls = Some (Inr (gs', p', calls'))
        \<and> pool_tasks p' = pool_tasks p @ map (event_task gs) (filter (readable gs) xs)
        \<and> (\<forall>x\<in>set (filter (readable gs) xs). c_fd (gs' ! fst x) = lfd)" by blast
next
  assume "queue_size p = queue_max_size p \<and> (\<exists>x\<in>set xs. readable gs x)"
  then show "EventLoop lfd xs gs p calls = None" using EventLoop_full [OF _ assms] by blast
qed

definition small_pool :: threadpool_t where
  "small_pool = sample_raw\<lparr>task_queue := Arr (replicate 2 \<lparr>tfunction = 0, targ = 0\<rparr>), queue_max_size := 2,
     queue_size := 0, queue_front := 0, queue_rear := 0, shutdown := False\<rparr>"

definition two_events :: "cevent list" where
  "two_events = [\<lparr>c_fd = 3, c_events = EPOLLIN, c_call_back = 11, c_arg = 21\<rparr>,
     \<lparr>c_fd = 8, c_events = EPOLLIN, c_call_back = 12, c_arg = 22\<rparr>]"

theorem event_loop_batch_witness:
  "\<exists>gs' p' calls'. EventLoop 3 [(1, EPOLLIN)] two_events small_pool [] = Some (Inr (gs', p', calls'))
     \<and> pool_tasks p' = [\<lparr>tfunction = 12, targ = 22\<rparr>] \<and> c_fd (gs' ! 1) = 3"
proof -
  have "filter (readable two_events) [(1, EPOLLIN)] = [(1, EPOLLIN)]"
    by (simp add: readable_def two_events_def EPOLLIN_def)
  moreover have "ring_ok small_pool" "\<not> shutdown small_pool" "queue_size small_pool = 0" "queue_max_size small_pool = 2"
    "pool_tasks small_pool = []"
    by (simp_all add: small_pool_def ring_ok_def pool_tasks_def ring_list_def)
  ultimately show ?thesis
    using event_loop_batch [of small_pool 3 two_events "[(1, EPOLLIN)]" "[]"]
    by (simp add: two_events_def event_task_def)
qed

end
