(* ===== verification/Epoll_Demos.thy ===== *)
theory Epoll_Demos
  imports Sockets
begin

text \<open>
  Three small programs around \<open>epoll\<close>: the child that writes lines into a pipe and the parent that
  reads them, src/socket/epoll/pipe/pipe.cpp; the edge-triggered reader of
  src/socket/epoll/non_block/server.cpp, which has to read until there is nothing left; and the loop of
  src/socket/epoll/CS_socket/server.cpp.
\<close>

unbundle bit_operations_syntax

section \<open>pipe.cpp\<close>

definition MAXLINE :: nat where "MAXLINE = 10"

text \<open>A loop that stores a character from an index up to a bound.\<close>

function fill :: "nat \<Rightarrow> nat \<Rightarrow> byte \<Rightarrow> byte list \<Rightarrow> byte list" where
  "fill i n ch buf = (if i < n then fill (i + 1) n ch (buf[i := ch]) else buf)"
  by pat_completeness auto
termination by (relation "measure (\<lambda>(i, n, ch, buf). n - i)") auto

declare fill.simps [simp del]

text \<open>One round of the child: the buffer it writes and the next character. 10 is a newline.\<close>

definition child_round :: "byte \<Rightarrow> byte list \<Rightarrow> byte \<times> byte list" where
  "child_round ch buf =
     (let buf = (fill 0 (MAXLINE div 2) ch buf)[MAXLINE div 2 - 1 := 10]; ch = ch + 1;
          buf = (fill (MAXLINE div 2) MAXLINE ch buf)[MAXLINE - 1 := 10]; ch = ch + 1 in (ch, buf))"

text \<open>
  The two processes: the child's buffer and character, whether it is between its write and its print,
  what it has printed; the bytes in the pipe, what the parent has printed. (\<open>pipe\<close> and \<open>fork\<close>, which the
  program does not test, succeed.) A write of 10 bytes is atomic; the pipe holds 65536. The parent is
  woken while there is something in the pipe and reads up to \<open>MAXLINE / 2\<close> bytes.

  The child prints its buffer of 10 bytes as a string, though it puts no zero into it. \<open>past\<close> is what
  lies behind the buffer: \<open>None\<close> for the language, to which reading it is an error, \<open>Some g\<close> for a machine
  that has the bytes \<open>g\<close> there, up to a zero. (A round whose second character is 0 does end in the
  buffer.)
\<close>

record pipe_state =
  chr :: byte
  cbuf :: "byte list"
  to_print :: bool
  told :: "byte list list"
  in_pipe :: "byte list"
  shown :: "byte list"
  rounds :: nat

datatype pipe_label = Child_write | Child_print | Parent_read

definition print_buf :: "byte list option \<Rightarrow> byte list \<Rightarrow> byte list outcome" where
  "print_buf past buf =
     (if 0 \<in> set buf then Inr (takeWhile (\<lambda>b. b \<noteq> 0) buf)
      else case past of None \<Rightarrow> Inl Out_of_bounds | Some g \<Rightarrow> Inr (takeWhile (\<lambda>b. b \<noteq> 0) (buf @ g)))"

fun pipe_step :: "byte list option \<Rightarrow> pipe_label \<Rightarrow> pipe_state \<Rightarrow> pipe_state outcome option" where
  "pipe_step past Child_write s =
     (if \<not> to_print s \<and> length (in_pipe s) + MAXLINE \<le> 65536
      then let (ch, buf) = child_round (chr s) (cbuf s) in
        Some (Inr (s\<lparr>chr := ch, cbuf := buf, in_pipe := in_pipe s @ buf, rounds := rounds s + 1, to_print := True\<rparr>))
      else None)"
| "pipe_step past Child_print s =
     (if to_print s
      then Some (obind (print_buf past (cbuf s)) (\<lambda>said. Inr (s\<lparr>told := told s @ [said], to_print := False\<rparr>)))
      else None)"
| "pipe_step past Parent_read s =
     (if in_pipe s \<noteq> []
      then Some (Inr (s\<lparr>shown := shown s @ take (MAXLINE div 2) (in_pipe s), in_pipe := drop (MAXLINE div 2) (in_pipe s)\<rparr>))
      else None)"

definition pipe_main :: "byte list \<Rightarrow> pipe_state" where
  "pipe_main raw = \<lparr>chr = 97, cbuf = raw, to_print = False, told = [], in_pipe = [], shown = [], rounds = 0\<rparr>"

text \<open>The line of a character, and the lines of so many rounds.\<close>

definition line_of :: "byte \<Rightarrow> byte list" where
  "line_of ch = [ch, ch, ch, ch, 10]"

fun lines :: "byte \<Rightarrow> nat \<Rightarrow> byte list" where
  "lines ch 0 = []"
| "lines ch (Suc n) = lines ch n @ line_of (ch + word_of_nat n)"

lemma fill_stores:
  "i \<le> n \<Longrightarrow> n \<le> length buf \<Longrightarrow> fill i n ch buf = take i buf @ replicate (n - i) ch @ drop n buf"
proof (induction i n ch buf rule: fill.induct)
  case (1 i n ch buf)
  show ?case
  proof (cases "i < n")
    case True
    then have "replicate (n - i) ch = ch # replicate (n - Suc i) ch"
      by (metis Suc_diff_Suc replicate_Suc)
    moreover have "take (Suc i) (buf[i := ch]) = take i buf @ [ch]"
      using True 1 by (simp add: take_Suc_conv_app_nth)
    ultimately show ?thesis using 1 True by (subst fill.simps) simp
  next
    case False
    with 1 show ?thesis by (subst fill.simps) simp
  qed
qed

lemma child_round_lines:
  assumes "length buf = MAXLINE"
  shows "child_round ch buf = (ch + 2, line_of ch @ line_of (ch + 1))"
proof -
  have r: "replicate 5 c = [c, c, c, c, c]" for c :: byte by (simp add: numeral_eq_Suc)
  have one: "(fill 0 5 ch buf)[4 := 10] = line_of ch @ drop 5 buf"
    using assms by (simp add: fill_stores MAXLINE_def r line_of_def)
  have "(fill 5 10 (ch + 1) (line_of ch @ drop 5 buf))[9 := 10] = line_of ch @ line_of (ch + 1)"
    using assms by (simp add: fill_stores MAXLINE_def r line_of_def)
  with one show ?thesis by (simp add: child_round_def MAXLINE_def Let_def)
qed

text \<open>What the child puts into its buffer in a round, and what it should print of it.\<close>

definition round_text :: "nat \<Rightarrow> byte list" where
  "round_text r = line_of (97 + word_of_nat (2 * r)) @ line_of (98 + word_of_nat (2 * r))"

definition told_text :: "byte list option \<Rightarrow> nat \<Rightarrow> byte list" where
  "told_text past r = takeWhile (\<lambda>b. b \<noteq> 0) (round_text r @ (case past of None \<Rightarrow> [] | Some g \<Rightarrow> g))"

text \<open>
  Printed and still in the pipe are together the lines written so far, and what is in the pipe starts
  at a line; the child has printed every round but the one it is about to print, and none if reading
  past the buffer is an error.
\<close>

definition pipe_inv :: "byte list option \<Rightarrow> pipe_state \<Rightarrow> bool" where
  "pipe_inv past s \<longleftrightarrow> length (cbuf s) = MAXLINE \<and> chr s = 97 + word_of_nat (2 * rounds s)
     \<and> shown s @ in_pipe s = lines 97 (2 * rounds s) \<and> 5 dvd length (shown s)
     \<and> rounds s = length (told s) + of_bool (to_print s)
     \<and> (to_print s \<longrightarrow> cbuf s = round_text (length (told s)))
     \<and> told s = map (told_text past) [0..<length (told s)] \<and> (past = None \<longrightarrow> told s = [])"

lemma length_lines: "length (lines ch n) = 5 * n"
  by (induction n) (simp_all add: line_of_def)

lemma print_round:
  "print_buf (Some g) (round_text r) = Inr (told_text (Some g) r)"
  "print_buf None (round_text 0) = Inl Out_of_bounds"
  by (auto simp: print_buf_def told_text_def round_text_def line_of_def)

lemma pipe_inv_step:
  assumes "pipe_step past l s = Some (Inr s')" "pipe_inv past s"
  shows "pipe_inv past s'"
proof (cases l)
  case Child_write
  have len: "length (cbuf s) = MAXLINE" using assms(2) by (simp add: pipe_inv_def)
  have "lines 97 (2 * rounds s + 2) = lines 97 (2 * rounds s) @ line_of (chr s) @ line_of (chr s + 1)"
    using assms(2) by (simp add: pipe_inv_def add.assoc)
  moreover have "lines 97 2 = [97, 97, 97, 97, 10, 98, 98, 98, 98, 10]"
    by (simp add: numeral_2_eq_2 line_of_def)
  ultimately show ?thesis using Child_write assms
    by (auto simp: pipe_inv_def child_round_lines [OF len] line_of_def MAXLINE_def round_text_def split: if_splits)
next
  case Child_print
  with assms(1) obtain said where said: "to_print s" "print_buf past (cbuf s) = Inr said"
    "s' = s\<lparr>told := told s @ [said], to_print := False\<rparr>"
    by (auto split: if_splits)
  with assms(2) have buf: "cbuf s = round_text (length (told s))" by (simp add: pipe_inv_def)
  have "past \<noteq> None"
  proof
    assume none: "past = None"
    with assms(2) have "told s = []" by (simp add: pipe_inv_def)
    with said(2) none buf print_round(2) show False by simp
  qed
  then have "said = told_text past (length (told s))" using said(2) print_round(1) unfolding buf by auto
  with assms(2) said(1,3) \<open>past \<noteq> None\<close> show ?thesis
    by (simp add: pipe_inv_def round_text_def line_of_def MAXLINE_def)
next
  case Parent_read
  with assms(1) have ne: "in_pipe s \<noteq> []"
    and s': "s' = s\<lparr>shown := shown s @ take 5 (in_pipe s), in_pipe := drop 5 (in_pipe s)\<rparr>"
    by (auto simp: MAXLINE_def split: if_splits)
  from assms(2) have e: "shown s @ in_pipe s = lines 97 (2 * rounds s)" "5 dvd length (shown s)"
    by (simp_all add: pipe_inv_def)
  from arg_cong [OF e(1), of length] have "length (shown s) + length (in_pipe s) = 5 * (2 * rounds s)"
    by (simp only: length_append length_lines)
  with e(2) have "5 dvd length (in_pipe s)" by (metis dvd_add_right_iff dvd_triv_left)
  with ne have "5 \<le> length (in_pipe s)" by (metis dvd_imp_le length_greater_0_conv)
  with assms(2) show ?thesis by (simp add: pipe_inv_def s')
qed

interpretation pipe_prog: inductive_invariant "\<lambda>s. \<exists>raw. length raw = MAXLINE \<and> s = pipe_main raw"
  "fires (pipe_step past)" "pipe_inv past" for past
proof (unfold_locales, goal_cases)
  case (1 s)
  then show ?case by (auto simp: pipe_main_def pipe_inv_def)
next
  case (2 s l s')
  then show ?case using pipe_inv_step by (simp add: fires_def)
qed

lemma pipe_faults:
  assumes "pipe_inv past s"
  shows "pipe_step past l s = Some (Inl f) \<longleftrightarrow> l = Child_print \<and> to_print s \<and> past = None \<and> f = Out_of_bounds"
proof (cases l)
  case Child_print
  have "print_buf past (cbuf s) = Inl f \<longleftrightarrow> past = None \<and> f = Out_of_bounds" if "to_print s"
    using that assms print_round by (cases past) (auto simp: pipe_inv_def)
  with Child_print show ?thesis by (cases "print_buf past (cbuf s)") auto
qed (auto simp: Let_def split: prod.splits)

section \<open>non_block/server.cpp\<close>

text \<open>
  The loop after an edge-triggered event: read up to \<open>MAXLEN / 2\<close> bytes and print them while the call
  returns a positive number.
  (That a positive number comes with bytes holds of every socket that is \<open>sock_ok\<close>; testing it makes
  the function total.)
\<close>

definition MAXLEN :: nat where "MAXLEN = 10"

function drain :: "byte list \<Rightarrow> sock \<Rightarrow> byte list \<times> sock" where
  "drain out k =
     (let (len, d, k') = sock_recv (MAXLEN div 2) k in
      if len > 0 \<and> d \<noteq> [] then drain (out @ d) k' else (out, k'))"
  by pat_completeness auto
termination
proof (relation "measure (\<lambda>(out, k). size k)", goal_cases)
  case (2 out k x len y d k')
  then have "size k' < size k" using sock_recv_size [of "MAXLEN div 2" k len d k'] by (simp add: MAXLEN_def)
  then show ?case by simp
qed simp

declare drain.simps [simp del]

lemma drain_all:
  "sock_ok k \<Longrightarrow> \<exists>k'. drain out k = (out @ concat (pieces k), k') \<and> pieces k' = [] \<and> at_end k' = at_end k"
proof (induction out k rule: drain.induct)
  case (1 out k)
  obtain len d k1 where sr: "sock_recv (MAXLEN div 2) k = (len, d, k1)" by (cases "sock_recv (MAXLEN div 2) k") auto
  have pos: "0 < MAXLEN div 2" by (simp add: MAXLEN_def)
  note sp = sock_recv_spec [OF "1.prems" pos sr]
  have end1: "at_end k1 = at_end k" using sr by (auto split: list.splits if_splits)
  show ?case
  proof (cases "pieces k = []")
    case True
    with sp sr show ?thesis by (subst drain.simps) (simp del: sock_recv.simps)
  next
    case False
    with sp have d: "0 < len" "d \<noteq> []" "sock_ok k1" "concat (pieces k) = d @ concat (pieces k1)" by auto
    have "drain out k = drain (out @ d) k1"
      using sr d by (subst drain.simps) (simp del: sock_recv.simps)
    with "1.IH" [OF sr [symmetric] refl] d end1 show ?thesis by auto
  qed
qed

section \<open>CS_socket/server.cpp\<close>

text \<open>
  The watched and the open descriptors; the connections whose peer has closed while the server has
  not (ghost state); the number of accepted connections; what has been printed.
\<close>

record cs_state =
  cs_listenfd :: int
  watched :: "int set"
  cs_open :: "int set"
  hung :: "int set"
  cnt_conn :: nat
  cs_out :: "byte list list"

datatype cs_pc = Cs_wait | Cs_ready "(int \<times> 32 word) list" | Cs_exit

datatype cs_label = Cs_error | Cs_events "(int \<times> 32 word) list" | Cs_skip | Cs_accept int | Cs_read int "byte list" | Cs_again

definition EPOLLOUT :: "32 word" where "EPOLLOUT = 4"

text \<open>The descriptor \<open>accept\<close> returns is not tested: adding -1 to the interest list just fails.\<close>

definition cs_connect :: "int \<Rightarrow> cs_state \<Rightarrow> cs_state" where
  "cs_connect connfd s =
     (if connfd = -1 then s\<lparr>cnt_conn := cnt_conn s + 1\<rparr>
      else s\<lparr>cnt_conn := cnt_conn s + 1, cs_open := insert connfd (cs_open s), watched := insert connfd (watched s)\<rparr>)"

text \<open>
  Reading from a connection: an error closes it, the end of the stream only takes it off the interest
  list. What is read is printed with \<open>%s\<close> from a buffer that is not initialised: without a zero among
  the bytes read, indeterminate bytes are.
\<close>

definition cs_receive :: "int \<Rightarrow> int \<Rightarrow> byte list \<Rightarrow> cs_state \<Rightarrow> cs_state outcome" where
  "cs_receive tfd n d s =
     (if n < 0 then Inr (s\<lparr>watched := watched s - {tfd}, cs_open := cs_open s - {tfd}\<rparr>)
      else if n = 0 then Inr (s\<lparr>watched := watched s - {tfd}, hung := insert tfd (hung s)\<rparr>)
      else if 0 \<in> set d then Inr (s\<lparr>cs_out := cs_out s @ [takeWhile (\<lambda>b. b \<noteq> 0) d]\<rparr>)
      else Inl Indeterminate)"

fun cs_step :: "cs_label \<Rightarrow> cs_pc \<times> cs_state \<Rightarrow> (cs_pc \<times> cs_state) outcome option" where
  "cs_step Cs_error (p, s) = (if p = Cs_wait then Some (Inr (Cs_exit, s)) else None)"
| "cs_step (Cs_events fs) (p, s) =
     (if p = Cs_wait \<and> distinct (map fst fs) \<and> fst ` set fs \<subseteq> watched s \<and> length fs \<le> 1024
      then Some (Inr (Cs_ready fs, s)) else None)"
| "cs_step Cs_skip (p, s) =
     (case p of Cs_ready ((fd, ev) # rest) \<Rightarrow> if ev AND EPOLLOUT \<noteq> 0 then Some (Inr (Cs_ready rest, s)) else None
      | _ \<Rightarrow> None)"
| "cs_step (Cs_accept c) (p, s) =
     (case p of
        Cs_ready ((fd, ev) # rest) \<Rightarrow>
          if ev AND EPOLLOUT = 0 \<and> fd = cs_listenfd s \<and> c \<notin> insert (cs_listenfd s) (cs_open s)
          then Some (Inr (Cs_ready rest, cs_connect c s)) else None
      | _ \<Rightarrow> None)"
| "cs_step (Cs_read n d) (p, s) =
     (case p of
        Cs_ready ((fd, ev) # rest) \<Rightarrow>
          if ev AND EPOLLOUT = 0 \<and> fd \<noteq> cs_listenfd s \<and> n \<le> 1024 \<and> (0 \<le> n \<longrightarrow> int (length d) = n)
          then Some (obind (cs_receive fd n d s) (\<lambda>s. Inr (Cs_ready rest, s))) else None
      | _ \<Rightarrow> None)"
| "cs_step Cs_again (p, s) = (if p = Cs_ready [] then Some (Inr (Cs_wait, s)) else None)"

definition cs_init :: "cs_pc \<times> cs_state \<Rightarrow> bool" where
  "cs_init u \<longleftrightarrow> (\<exists>l\<ge>0. u = (Cs_wait, \<lparr>cs_listenfd = l, watched = {l}, cs_open = {}, hung = {}, cnt_conn = 0, cs_out = []\<rparr>))"

text \<open>
  Open connections are watched or hung up, never both; the batch still to be served names watched
  descriptors, each once.
\<close>

definition cs_batch :: "cs_pc \<Rightarrow> (int \<times> 32 word) list" where
  "cs_batch p = (case p of Cs_ready fs \<Rightarrow> fs | _ \<Rightarrow> [])"

definition cs_ok :: "cs_pc \<times> cs_state \<Rightarrow> bool" where
  "cs_ok u \<longleftrightarrow> (case u of (p, s) \<Rightarrow>
     watched s = insert (cs_listenfd s) (cs_open s - hung s) \<and> hung s \<subseteq> cs_open s \<and> cs_listenfd s \<notin> cs_open s
     \<and> distinct (map fst (cs_batch p)) \<and> fst ` set (cs_batch p) \<subseteq> watched s)"

lemma cs_ok_step:
  assumes "cs_step l u = Some (Inr u')" "cs_ok u"
  shows "cs_ok u'"
proof -
  obtain p s where u: "u = (p, s)" by (cases u)
  show ?thesis
  proof (cases "(\<exists>c. l = Cs_accept c) \<or> (\<exists>n d. l = Cs_read n d)")
    case False
    with assms show ?thesis
      by (cases l) (auto simp: u cs_ok_def cs_batch_def split: if_splits cs_pc.splits list.splits prod.splits)
  next
    case True
    then obtain fd ev rest where p: "p = Cs_ready ((fd, ev) # rest)" using assms(1)
      by (auto simp: u split: cs_pc.splits list.splits)
    from True show ?thesis
    proof (elim disjE exE)
      fix c assume "l = Cs_accept c"
      with assms(1) p have "c \<notin> insert (cs_listenfd s) (cs_open s)" "u' = (Cs_ready rest, cs_connect c s)"
        by (auto simp: u split: if_splits)
      with assms(2) p show ?thesis by (auto simp: u cs_ok_def cs_batch_def cs_connect_def)
    next
      fix n d assume "l = Cs_read n d"
      with assms(1) p obtain s' where s': "fd \<noteq> cs_listenfd s" "cs_receive fd n d s = Inr s'" "u' = (Cs_ready rest, s')"
        by (auto simp: u split: if_splits)
      from assms(2) p have ok: "watched s = insert (cs_listenfd s) (cs_open s - hung s)" "hung s \<subseteq> cs_open s"
        "cs_listenfd s \<notin> cs_open s" "distinct (map fst rest)" "fd \<notin> fst ` set rest" "fst ` set rest \<subseteq> watched s" "fd \<in> watched s"
        by (auto simp: u cs_ok_def cs_batch_def)
      then have "fd \<in> cs_open s" "fd \<notin> hung s" using s'(1) by auto
      with ok s'(1) have w: "fst ` set rest \<subseteq> watched s - {fd}"
        "watched s - {fd} = insert (cs_listenfd s) (cs_open s - {fd} - hung s)"
        "watched s - {fd} = insert (cs_listenfd s) (cs_open s - insert fd (hung s))"
        "hung s \<subseteq> cs_open s - {fd}" "insert fd (hung s) \<subseteq> cs_open s" by blast+
      consider "n < 0" "s' = s\<lparr>watched := watched s - {fd}, cs_open := cs_open s - {fd}\<rparr>"
        | "n = 0" "s' = s\<lparr>watched := watched s - {fd}, hung := insert fd (hung s)\<rparr>"
        | "watched s' = watched s \<and> cs_open s' = cs_open s \<and> hung s' = hung s \<and> cs_listenfd s' = cs_listenfd s"
        using s'(2) by (auto simp: cs_receive_def split: if_splits)
      then show ?thesis
      proof cases
        case 1
        show ?thesis unfolding s'(3) 1(2) cs_ok_def cs_batch_def using w(1,2,4) ok(3,4) by simp
      next
        case 2
        show ?thesis unfolding s'(3) 2(2) cs_ok_def cs_batch_def using w(1,3,5) ok(3,4) by simp
      next
        case 3
        show ?thesis unfolding s'(3) cs_ok_def cs_batch_def using 3 ok(1-4,6) by simp
      qed
    qed
  qed
qed

interpretation cs_loop: inductive_invariant cs_init "fires cs_step" cs_ok
proof (unfold_locales, goal_cases)
  case (1 u)
  then show ?case by (auto simp: cs_init_def cs_ok_def cs_batch_def)
next
  case (2 u l u')
  then show ?case using cs_ok_step by (simp add: fires_def)
qed

lemma hung_grows: "cs_step l (p, s) = Some (Inr (p', s')) \<Longrightarrow> hung s \<subseteq> hung s'"
  by (cases l)
     (auto simp: cs_connect_def cs_receive_def split: if_splits cs_pc.splits list.splits prod.splits)

section \<open>Properties\<close>

text \<open>C39. The parent of pipe.cpp prints whole lines: in every reachable state what it has printed is a number
  of complete lines of four equal letters, in the order in which the child wrote them, and no byte
  is lost between what is printed and what is still in the pipe. The child's own print is the one
  thing that goes wrong: its buffer has no terminating zero, so to the language its first print is
  already an error, and it is the only error of the program; on a machine with the bytes \<open>g\<close> behind the
  buffer, the child prints with each round what follows of \<open>g\<close> as well.\<close>

theorem pipe_lines:
  assumes "reach (\<lambda>s. \<exists>raw. length raw = MAXLINE \<and> s = pipe_main raw) (fires (pipe_step past)) s"
  shows "shown s @ in_pipe s = lines 97 (2 * rounds s) \<and> shown s = lines 97 (length (shown s) div 5)
    \<and> rounds s = length (told s) + of_bool (to_print s) \<and> told s = map (told_text past) [0..<length (told s)]
    \<and> (past = None \<longrightarrow> told s = [])
    \<and> (\<forall>l f. pipe_step past l s = Some (Inl f) \<longleftrightarrow>
          l = Child_print \<and> to_print s \<and> past = None \<and> f = Out_of_bounds)"
proof -
  have inv: "pipe_inv past s" by (rule pipe_prog.inv_reach [OF assms])
  then obtain n where n: "length (shown s) = 5 * n" by (auto simp: pipe_inv_def)
  have e: "shown s @ in_pipe s = lines 97 (2 * rounds s)" using inv by (simp add: pipe_inv_def)
  have "length (shown s) \<le> length (lines 97 (2 * rounds s))" unfolding e [symmetric] by simp
  then have le: "n \<le> 2 * rounds s" using n by (simp add: length_lines)
  have "take (5 * n) (lines 97 m) = lines 97 n" if "n \<le> m" for m
    using that
  proof (induction m)
    case (Suc m)
    then show ?case by (cases "n = Suc m") (auto simp: length_lines line_of_def)
  qed simp
  with le e n have "shown s = lines 97 (length (shown s) div 5)"
    by (metis append_eq_conv_conj nonzero_mult_div_cancel_left zero_neq_numeral)
  with e pipe_faults [OF inv] inv show ?thesis by (simp add: pipe_inv_def)
qed

theorem pipe_lines_witness:
  "\<exists>s. reach (\<lambda>s. \<exists>raw. length raw = MAXLINE \<and> s = pipe_main raw) (fires (pipe_step (Some [120]))) s
     \<and> shown s = lines 97 1 \<and> shown s = [97, 97, 97, 97, 10] \<and> told s = [[97, 97, 97, 97, 10, 98, 98, 98, 98, 10, 120]]
     \<and> (\<forall>l f. pipe_step (Some [120]) l s \<noteq> Some (Inl f))"
proof -
  let ?raw = "replicate 10 (0 :: byte)" and ?run = "run (pipe_step (Some [120])) [Child_write, Parent_read, Child_print]"
  have "\<exists>s. ?run (pipe_main ?raw) = Some s \<and> shown s = [97, 97, 97, 97, 10]
      \<and> told s = [[97, 97, 97, 97, 10, 98, 98, 98, 98, 10, 120]]"
    by (simp add: pipe_main_def child_round_lines MAXLINE_def line_of_def print_buf_def)
  then obtain s where s: "?run (pipe_main ?raw) = Some s" "shown s = [97, 97, 97, 97, 10]"
    "told s = [[97, 97, 97, 97, 10, 98, 98, 98, 98, 10, 120]]" by blast
  have "reach (\<lambda>s. \<exists>raw. length raw = MAXLINE \<and> s = pipe_main raw) (fires (pipe_step (Some [120]))) (pipe_main ?raw)"
    by (rule reach_init) (auto simp: MAXLINE_def intro!: exI [of _ ?raw])
  from run_reach [OF s(1) this]
  have r: "reach (\<lambda>s. \<exists>raw. length raw = MAXLINE \<and> s = pipe_main raw) (fires (pipe_step (Some [120]))) s" .
  with pipe_lines [OF r] s(2,3) show ?thesis by (intro exI [of _ s]) simp
qed

text \<open>The edge-triggered reader misses nothing: whatever is in the socket when it is woken, and however
  it is cut into pieces, its loop prints all of it and stops with the socket empty, as it must since
  there will be no second event for these bytes.\<close>

theorem drain_prints_all:
  "sock_ok k \<Longrightarrow> \<exists>k'. drain [] k = (concat (pieces k), k') \<and> pieces k' = []"
  using drain_all [of k "[]"] by auto

theorem drain_prints_all_witness:
  "\<exists>k'. drain [] \<lparr>pieces = [[1, 2, 3, 4, 5, 6, 7], [8]], at_end = -1\<rparr> = ([1, 2, 3, 4, 5, 6, 7, 8], k') \<and> pieces k' = []"
  using drain_prints_all [of "\<lparr>pieces = [[1, 2, 3, 4, 5, 6, 7], [8]], at_end = -1\<rparr>"] by (simp add: sock_ok_def)

text \<open>The epoll server leaks its clients: in every reachable state a connection whose peer has closed is
  still open and no longer watched, and no step ever closes it.\<close>

theorem cs_leaks:
  assumes "reach cs_init (fires cs_step) (p, s)"
  shows "hung s \<subseteq> cs_open s \<and> hung s \<inter> watched s = {}
     \<and> (\<forall>l p' s'. cs_step l (p, s) = Some (Inr (p', s')) \<longrightarrow> hung s \<subseteq> hung s')"
  using cs_loop.inv_reach [OF assms] hung_grows by (fastforce simp: cs_ok_def)

definition cs_one_hung :: cs_state where
  "cs_one_hung = \<lparr>cs_listenfd = 3, watched = {3}, cs_open = {5}, hung = {5}, cnt_conn = 1, cs_out = [[104, 105]]\<rparr>"

lemma cs_one_hung_reach: "reach cs_init (fires cs_step) (Cs_ready [], cs_one_hung)"
proof (rule run_reach)
  have "insert 5 {3} - {5 :: int} = {3}" by auto
  then show "run cs_step [Cs_events [(3, 1)], Cs_accept 5, Cs_again, Cs_events [(5, 1)], Cs_read 3 [104, 105, 0], Cs_again,
      Cs_events [(5, 1)], Cs_read 0 []]
      (Cs_wait, \<lparr>cs_listenfd = 3, watched = {3}, cs_open = {}, hung = {}, cnt_conn = 0, cs_out = []\<rparr>) =
    Some (Cs_ready [], cs_one_hung)"
    by (simp add: cs_one_hung_def cs_connect_def cs_receive_def EPOLLOUT_def)
  show "reach cs_init (fires cs_step) (Cs_wait, \<lparr>cs_listenfd = 3, watched = {3}, cs_open = {}, hung = {}, cnt_conn = 0, cs_out = []\<rparr>)"
    by (rule reach_init) (auto simp: cs_init_def)
qed

theorem cs_leaks_witness: "5 \<in> cs_open cs_one_hung \<and> 5 \<notin> watched cs_one_hung"
  using cs_leaks [OF cs_one_hung_reach] by (auto simp: cs_one_hung_def)

end
