(* ===== verification/Poll_Server.thy ===== *)
theory Poll_Server
  imports Prelude
begin

text \<open>
  The server of socket/poll/poll.cpp: an array of \<open>pollfd\<close> structs of which the first
  \<open>conncount + 1\<close> are in use, a map from descriptors to the text to send back, and the loop over the
  array after each \<open>poll\<close>, which removes a connection by moving the last struct into its place and
  looking at that place again.
\<close>

unbundle bit_operations_syntax

section \<open>State\<close>

definition BUFSIZE :: nat where "BUFSIZE = 10"
definition CLIENTSIZE :: nat where "CLIENTSIZE = 100"

definition POLLIN :: "16 word" where "POLLIN = 1"
definition POLLOUT :: "16 word" where "POLLOUT = 4"
definition POLLERR :: "16 word" where "POLLERR = 8"
definition POLLRDHUP :: "16 word" where "POLLRDHUP = 0x2000"

record pollfd =
  pfd :: int
  pevents :: "16 word"
  prevents :: "16 word"

text \<open>
  \<open>polled\<close> and \<open>looked\<close> are ghost state: the descriptors in use when \<open>poll\<close> last returned, and the
  descriptors of the structs looked at since, in order; \<open>fresh\<close> are the connections accepted since.
  \<open>psent\<close> is what \<open>send\<close> has sent.
\<close>

record pollsrv =
  fds :: "pollfd list"
  conncount :: int
  listenfd :: int
  mapdata :: "int \<Rightarrow> 8 word list option"
  psent :: "(int \<times> 8 word list) list"
  polled :: "int list"
  looked :: "int list"
  fresh :: "int list"

text \<open>Where \<open>main\<close> is: about to call \<open>poll\<close>, at the struct with an index, or out by \<open>exit(1)\<close>.\<close>

datatype place = At_poll | At_fd int | Exited

text \<open>What \<open>accept\<close>, \<open>recv\<close> with its bytes, and \<open>send\<close> with \<open>errno == ECONNRESET\<close> return for one struct.\<close>

record pio =
  p_accept :: int
  p_recv :: int
  p_data :: "8 word list"
  p_send :: int
  p_reset :: bool

definition in_use :: "pollsrv \<Rightarrow> pollfd list" where
  "in_use s = take (nat (conncount s + 1)) (fds s)"

section \<open>One struct\<close>

text \<open>The bytes up to the first zero: what a C string made from the buffer holds.\<close>

definition c_string :: "8 word list \<Rightarrow> 8 word list" where
  "c_string = takeWhile (\<lambda>b. b \<noteq> 0)"

definition close_conn :: "int \<Rightarrow> pollsrv \<Rightarrow> (place \<times> pollsrv) outcome" where
  "close_conn i s =
     (let fd = pfd (fds s ! nat i) in
      if 0 \<le> conncount s \<and> conncount s < int (length (fds s))
      then Inr (At_fd i, s\<lparr>fds := (fds s)[nat i := fds s ! nat (conncount s)], conncount := conncount s - 1,
                  mapdata := (mapdata s)(fd := None)\<rparr>)
      else Inl Out_of_bounds)"

definition new_conn :: "int \<Rightarrow> pio \<Rightarrow> pollsrv \<Rightarrow> (place \<times> pollsrv) outcome" where
  "new_conn i x s =
     (if p_accept x = -1 then Inr (Exited, s)
      else
        let c = conncount s + 1 in
        if 0 \<le> c \<and> c < int (length (fds s))
        then Inr (At_fd (i + 1), s\<lparr>conncount := c,
               fds := (fds s)[nat c := \<lparr>pfd = p_accept x, pevents = POLLIN OR POLLRDHUP OR POLLERR, prevents = 0\<rparr>],
               fresh := fresh s @ [p_accept x]\<rparr>)
        else Inl Out_of_bounds)"

definition read_conn :: "int \<Rightarrow> pio \<Rightarrow> pollsrv \<Rightarrow> place \<times> pollsrv" where
  "read_conn i x s =
     (let e = fds s ! nat i; n = p_recv x in
      if 0 < n
      then (At_fd (i + 1), s\<lparr>mapdata := (mapdata s)(pfd e \<mapsto> c_string (take (nat n) (p_data x) @ [0])),
              fds := (fds s)[nat i := e\<lparr>pevents := (pevents e AND NOT POLLIN) OR POLLOUT\<rparr>]\<rparr>)
      else if n = 0 then (At_fd (i + 1), s)
      else (Exited, s))"

definition write_conn :: "int \<Rightarrow> pio \<Rightarrow> pollsrv \<Rightarrow> place \<times> pollsrv" where
  "write_conn i x s =
     (let e = fds s ! nat i;
          t = (case mapdata s (pfd e) of None \<Rightarrow> [] | Some t \<Rightarrow> t);
          s1 = s\<lparr>mapdata := (mapdata s)(pfd e \<mapsto> t)\<rparr> in
      if p_send x < 0
      then if p_reset x then (At_fd (i + 1), s1) else (Exited, s1)
      else (At_fd (i + 1), s1\<lparr>psent := psent s @ [(pfd e, take (nat (p_send x)) t)],
              fds := (fds s)[nat i := e\<lparr>pevents := (pevents e AND NOT POLLOUT) OR POLLIN\<rparr>]\<rparr>))"

text \<open>The body of the loop, with the order of its tests.\<close>

definition serve_fd :: "int \<Rightarrow> pio \<Rightarrow> pollsrv \<Rightarrow> (place \<times> pollsrv) outcome" where
  "serve_fd i x s0 =
     (let e = fds s0 ! nat i; s = s0\<lparr>looked := looked s0 @ [pfd e]\<rparr> in
      if prevents e AND POLLRDHUP \<noteq> 0 \<or> prevents e AND POLLERR \<noteq> 0 then close_conn i s
      else if pfd e = listenfd s \<and> prevents e AND POLLIN \<noteq> 0 then new_conn i x s
      else if prevents e AND POLLIN \<noteq> 0 then Inr (read_conn i x s)
      else if prevents e AND POLLOUT \<noteq> 0 then Inr (write_conn i x s)
      else Inr (At_fd (i + 1), s))"

section \<open>The loops of main\<close>

text \<open>\<open>poll\<close> returning: an error, or the events reported for the structs in use, in order.\<close>

datatype plabel = Poll_error | Poll "16 word list" | Look pio | Next_poll

fun set_revents :: "16 word list \<Rightarrow> pollfd list \<Rightarrow> pollfd list" where
  "set_revents (r # rs) (e # es) = e\<lparr>prevents := r\<rparr> # set_revents rs es"
| "set_revents _ es = es"

definition send_ok :: "pollsrv \<Rightarrow> int \<Rightarrow> pio \<Rightarrow> bool" where
  "send_ok s i x \<longleftrightarrow> p_recv x \<le> int BUFSIZE - 1 \<and> (0 < p_recv x \<longrightarrow> length (p_data x) = nat (p_recv x))
     \<and> (p_accept x = -1 \<or> 0 \<le> p_accept x \<and> p_accept x \<notin> set (map pfd (in_use s)))"

fun poll_main_step :: "plabel \<Rightarrow> place \<times> pollsrv \<Rightarrow> (place \<times> pollsrv) outcome option" where
  "poll_main_step Poll_error (p, s) = (if p = At_poll then Some (Inr (Exited, s)) else None)"
| "poll_main_step (Poll rs) (p, s) =
     (if p = At_poll \<and> length rs = length (in_use s)
      then Some (Inr (At_fd 0, s\<lparr>fds := set_revents rs (fds s), polled := map pfd (in_use s), looked := [], fresh := []\<rparr>))
      else None)"
| "poll_main_step (Look x) (p, s) =
     (case p of
        At_fd i \<Rightarrow> if i < conncount s + 1 \<and> send_ok s i x then Some (serve_fd i x s) else None
      | _ \<Rightarrow> None)"
| "poll_main_step Next_poll (p, s) =
     (case p of At_fd i \<Rightarrow> if i < conncount s + 1 then None else Some (Inr (At_poll, s)) | _ \<Rightarrow> None)"

text \<open>
  The start: the array is uninitialised but for its first struct, the listener's.
\<close>

definition poll_start :: "int \<Rightarrow> pollfd list \<Rightarrow> pollsrv" where
  "poll_start l raw = \<lparr>fds = raw[0 := \<lparr>pfd = l, pevents = POLLIN OR POLLERR, prevents = 0\<rparr>], conncount = 0,
     listenfd = l, mapdata = (\<lambda>f. None), psent = [], polled = [], looked = [], fresh = []\<rparr>"

definition poll_init :: "place \<times> pollsrv \<Rightarrow> bool" where
  "poll_init u \<longleftrightarrow> (\<exists>l raw. length raw = CLIENTSIZE \<and> u = (At_poll, poll_start l raw))"

abbreviation poll_reach :: "place \<times> pollsrv \<Rightarrow> bool" where
  "poll_reach \<equiv> reach poll_init (fires poll_main_step)"

section \<open>The invariant\<close>

text \<open>
  The table has its size and the count stays inside it; in the middle of a pass the structs looked at
  and those still to come are, as descriptors, those polled and those accepted since.
\<close>

definition rest_fds :: "int \<Rightarrow> pollsrv \<Rightarrow> int list" where
  "rest_fds i s = map pfd (drop (nat i) (in_use s))"

definition small_data :: "pollsrv \<Rightarrow> bool" where
  "small_data s \<longleftrightarrow> (\<forall>f t. mapdata s f = Some t \<longrightarrow> length t < BUFSIZE \<and> 0 \<notin> set t)"

fun poll_ok :: "place \<times> pollsrv \<Rightarrow> bool" where
  "poll_ok (p, s) \<longleftrightarrow> length (fds s) = CLIENTSIZE \<and> -1 \<le> conncount s \<and> conncount s < int CLIENTSIZE \<and> small_data s
     \<and> (case p of
          At_fd i \<Rightarrow> 0 \<le> i \<and> i \<le> conncount s + 1
            \<and> mset (looked s) + mset (rest_fds i s) = mset (polled s) + mset (fresh s)
        | _ \<Rightarrow> True)"

lemma length_set_revents [simp]: "length (set_revents rs es) = length es"
  by (induction rs es rule: set_revents.induct) auto

lemma set_revents_pfd: "map pfd (take n (set_revents rs es)) = map pfd (take n es)"
  by (induction rs es arbitrary: n rule: set_revents.induct) (auto simp: take_Cons split: nat.splits)

lemma length_in_use:
  "length (fds s) = CLIENTSIZE \<Longrightarrow> -1 \<le> conncount s \<Longrightarrow> conncount s < int CLIENTSIZE \<Longrightarrow>
     int (length (in_use s)) = conncount s + 1"
  by (simp add: in_use_def)

text \<open>The next struct, and what the three kinds of steps do to the rest of the pass.\<close>

lemma rest_Cons:
  assumes "length (fds s) = CLIENTSIZE" "conncount s < int CLIENTSIZE" "0 \<le> i" "i < conncount s + 1"
  shows "rest_fds i s = pfd (fds s ! nat i) # rest_fds (i + 1) s"
proof -
  have "nat i < length (in_use s)" using assms by (simp add: in_use_def)
  then have "drop (nat i) (in_use s) = in_use s ! nat i # drop (Suc (nat i)) (in_use s)"
    by (rule Cons_nth_drop_Suc [symmetric])
  moreover have "in_use s ! nat i = fds s ! nat i" using assms by (simp add: in_use_def)
  ultimately show ?thesis using assms(3) by (simp add: rest_fds_def nat_add_distrib)
qed

lemma rest_update:
  assumes "fds s' = (fds s)[nat i := e]" "conncount s' = conncount s" "0 \<le> i"
  shows "rest_fds (i + 1) s' = rest_fds (i + 1) s"
  using assms by (simp add: rest_fds_def in_use_def drop_take drop_update_cancel nat_add_distrib)

lemma rest_append:
  assumes "fds s' = (fds s)[nat (conncount s + 1) := e]" "conncount s' = conncount s + 1" "0 \<le> i" "i < conncount s + 1"
    and "conncount s + 1 < int (length (fds s))"
  shows "rest_fds (i + 1) s' = rest_fds (i + 1) s @ [pfd e]"
proof -
  let ?n = "nat (conncount s + 1)"
  have "take (Suc ?n) ((fds s)[?n := e]) = take ?n (fds s) @ [e]"
    using assms(5) assms(3,4) by (simp add: take_Suc_conv_app_nth)
  moreover have "nat (conncount s' + 1) = Suc ?n" using assms by simp
  moreover have "nat (i + 1) \<le> ?n" using assms(4) by simp
  ultimately show ?thesis using assms(1,5) by (simp add: rest_fds_def in_use_def)
qed

lemma rest_swap:
  assumes "fds s' = (fds s)[nat i := fds s ! nat (conncount s)]" "conncount s' = conncount s - 1" "0 \<le> i"
    and "i < conncount s + 1" "conncount s < int (length (fds s))"
  shows "mset (rest_fds i s') = mset (rest_fds (i + 1) s)"
proof -
  let ?xs = "fds s" and ?i = "nat i" and ?c = "nat (conncount s)"
  have n: "nat (conncount s + 1) = Suc ?c" "nat (conncount s' + 1) = ?c" "nat (i + 1) = Suc ?i" "?i \<le> ?c" "?c < length ?xs"
    using assms(2-5) by auto
  show ?thesis
  proof (cases "?i = ?c")
    case True
    then show ?thesis using n by (simp add: rest_fds_def in_use_def)
  next
    case False
    with n(4) have lt: "?i < ?c" by (rule le_neq_implies_less)
    have "take ?c (?xs[?i := ?xs ! ?c]) = (take ?c ?xs)[?i := ?xs ! ?c]" by (simp add: take_update_swap)
    moreover have "drop ?i ((take ?c ?xs)[?i := ?xs ! ?c]) = ?xs ! ?c # drop (Suc ?i) (take ?c ?xs)"
    proof -
      have "?i < length (take ?c ?xs)" using lt n by simp
      then show ?thesis by (simp add: drop_update_swap Cons_nth_drop_Suc [symmetric])
    qed
    moreover have "drop (Suc ?i) (take (Suc ?c) ?xs) = drop (Suc ?i) (take ?c ?xs) @ [?xs ! ?c]"
    proof -
      have "Suc ?i - ?c = 0" by (rule diff_is_0_eq [THEN iffD2, OF Suc_leI [OF lt]])
      then show ?thesis using n(5) by (simp add: take_Suc_conv_app_nth)
    qed
    ultimately show ?thesis using n assms(1) by (simp add: rest_fds_def in_use_def)
  qed
qed


lemma c_string_small: "length xs < n \<Longrightarrow> length (c_string (xs @ [0])) < n" "0 \<notin> set (c_string xs)"
proof -
  show "length (c_string (xs @ [0])) < n" if "length xs < n"
    using that length_takeWhile_le [of "\<lambda>b. b \<noteq> 0" xs] by (simp add: c_string_def takeWhile_tail)
  show "0 \<notin> set (c_string xs)" by (auto simp: c_string_def dest: set_takeWhileD)
qed

lemma small_dataI:
  assumes "small_data s" "mapdata s' = (mapdata s)(f \<mapsto> t)" "length t < BUFSIZE" "0 \<notin> set t"
  shows "small_data s'"
  using assms by (simp add: small_data_def)

lemma serve_fd_choice:
  fixes s :: pollsrv and i :: int
  defines "t \<equiv> s\<lparr>looked := looked s @ [pfd (fds s ! nat i)]\<rparr>"
  shows "serve_fd i x s = close_conn i t \<or> serve_fd i x s = new_conn i x t \<or> serve_fd i x s = Inr (read_conn i x t)
    \<or> serve_fd i x s = Inr (write_conn i x t) \<or> serve_fd i x s = Inr (At_fd (i + 1), t)"
  unfolding t_def serve_fd_def Let_def by simp

text \<open>One struct: the invariant is kept, and the only fault is a connection too many.\<close>

lemma serve_fd_ok:
  assumes ok: "poll_ok (At_fd i, s)" and i: "i < conncount s + 1" and x: "send_ok s i x"
  shows "case serve_fd i x s of
      Inl f \<Rightarrow> f = Out_of_bounds \<and> conncount s = int CLIENTSIZE - 1 \<and> p_accept x \<noteq> -1
    | Inr u \<Rightarrow> poll_ok u"
proof -
  let ?e = "fds s ! nat i" and ?s = "s\<lparr>looked := looked s @ [pfd (fds s ! nat i)]\<rparr>"
  from ok have l: "length (fds s) = CLIENTSIZE" "-1 \<le> conncount s" "conncount s < int CLIENTSIZE" "0 \<le> i"
    and sm: "small_data s"
    and h: "mset (looked s) + mset (rest_fds i s) = mset (polled s) + mset (fresh s)"
    by auto
  have rc: "rest_fds i s = pfd ?e # rest_fds (i + 1) s" by (rule rest_Cons [OF l(1,3,4) i])
  have h1: "mset (looked ?s) + mset (rest_fds (i + 1) s) = mset (polled s) + mset (fresh s)"
    using h rc by (simp add: ac_simps)
  have rest: "rest_fds (i + 1) ?s = rest_fds (i + 1) s" by (simp add: rest_fds_def in_use_def)
  consider (del) "serve_fd i x s = close_conn i ?s" | (new) "serve_fd i x s = new_conn i x ?s"
    | (rd) "serve_fd i x s = Inr (read_conn i x ?s)" | (wr) "serve_fd i x s = Inr (write_conn i x ?s)"
    | (none) "serve_fd i x s = Inr (At_fd (i + 1), ?s)"
    using serve_fd_choice by blast
  then show ?thesis
  proof cases
    case del
    let ?t = "?s\<lparr>fds := (fds s)[nat i := fds s ! nat (conncount s)], conncount := conncount s - 1,
        mapdata := (mapdata s)(pfd ?e := None)\<rparr>"
    have "serve_fd i x s = Inr (At_fd i, ?t)" using del l i by (simp add: close_conn_def)
    moreover have "mset (rest_fds i ?t) = mset (rest_fds (i + 1) s)"
      by (rule rest_swap) (use l i in simp_all)
    moreover have "small_data ?t" using sm by (simp add: small_data_def)
    ultimately show ?thesis using h1 l i by simp
  next
    case new
    let ?c = "conncount s + 1"
    let ?t = "?s\<lparr>conncount := ?c, fds := (fds s)[nat ?c :=
        \<lparr>pfd = p_accept x, pevents = POLLIN OR POLLRDHUP OR POLLERR, prevents = 0\<rparr>], fresh := fresh s @ [p_accept x]\<rparr>"
    show ?thesis
    proof (cases "p_accept x = -1 \<or> \<not> ?c < int CLIENTSIZE")
      case True
      then show ?thesis using new l sm i by (auto simp: new_conn_def Let_def small_data_def)
    next
      case False
      then have "serve_fd i x s = Inr (At_fd (i + 1), ?t)" using new l i by (simp add: new_conn_def Let_def)
      moreover have "rest_fds (i + 1) ?t = rest_fds (i + 1) s @ [p_accept x]"
        using rest_append [of ?t s _ i] l i False by simp
      moreover have "small_data ?t" using sm by (simp add: small_data_def)
      ultimately show ?thesis using h1 l i False by simp
    qed
  next
    case rd
    let ?t = "?s\<lparr>mapdata := (mapdata s)(pfd ?e \<mapsto> c_string (take (nat (p_recv x)) (p_data x) @ [0])),
        fds := (fds s)[nat i := ?e\<lparr>pevents := (pevents ?e AND NOT POLLIN) OR POLLOUT\<rparr>]\<rparr>"
    show ?thesis
    proof (cases "0 < p_recv x")
      case True
      have "length (take (nat (p_recv x)) (p_data x)) < BUFSIZE"
      proof -
        from x have "p_recv x \<le> 9" "length (p_data x) = nat (p_recv x)"
          using True by (simp_all add: send_ok_def BUFSIZE_def)
        then have "nat (p_recv x) < 10" by linarith
        then show ?thesis by (simp add: BUFSIZE_def)
      qed
      from small_dataI [OF sm, of ?t "pfd ?e", OF _ c_string_small(1) [OF this] c_string_small(2)]
      have "small_data ?t" by simp
      moreover have "rest_fds (i + 1) ?t = rest_fds (i + 1) s" by (rule rest_update) (use l in simp_all)
      ultimately show ?thesis using rd True h1 l i by (simp add: read_conn_def Let_def)
    next
      case False
      then show ?thesis using rd h1 l i sm rest by (simp add: read_conn_def Let_def small_data_def)
    qed
  next
    case wr
    let ?d = "case mapdata s (pfd ?e) of None \<Rightarrow> [] | Some t \<Rightarrow> t"
    have d: "length ?d < BUFSIZE" "0 \<notin> set ?d"
      using sm by (auto simp: small_data_def BUFSIZE_def split: option.splits)
    let ?u = "?s\<lparr>mapdata := (mapdata s)(pfd ?e \<mapsto> ?d)\<rparr>"
    let ?t = "?u\<lparr>psent := psent s @ [(pfd ?e, take (nat (p_send x)) ?d)],
        fds := (fds s)[nat i := ?e\<lparr>pevents := (pevents ?e AND NOT POLLOUT) OR POLLIN\<rparr>]\<rparr>"
    have "small_data ?u" "small_data ?t" by (rule small_dataI [OF sm _ d]; simp)+
    moreover have "rest_fds (i + 1) ?t = rest_fds (i + 1) s" by (rule rest_update) (use l in simp_all)
    moreover have "rest_fds (i + 1) ?u = rest_fds (i + 1) s" by (simp add: rest_fds_def in_use_def)
    ultimately show ?thesis using wr h1 l i by (simp add: write_conn_def Let_def)
  next
    case none
    then show ?thesis using h1 l i sm rest by (simp add: small_data_def)
  qed
qed

lemma poll_ok_step: "poll_ok u \<Longrightarrow> poll_main_step l u = Some (Inr u') \<Longrightarrow> poll_ok u'"
proof -
  assume ok: "poll_ok u" and st: "poll_main_step l u = Some (Inr u')"
  obtain p s where u: "u = (p, s)" by (cases u)
  show "poll_ok u'"
  proof (cases l)
    case (Poll rs)
    let ?t = "s\<lparr>fds := set_revents rs (fds s), polled := map pfd (in_use s), looked := [], fresh := []\<rparr>"
    from st u Poll have u': "u' = (At_fd 0, ?t)" by (auto split: if_splits)
    have "rest_fds 0 ?t = map pfd (in_use s)" by (simp add: rest_fds_def in_use_def set_revents_pfd)
    with ok u u' show ?thesis by (simp add: small_data_def)
  next
    case (Look x)
    from st u Look obtain i where i: "p = At_fd i" "i < conncount s + 1" "send_ok s i x" "serve_fd i x s = Inr u'"
      by (auto split: place.splits if_splits)
    with serve_fd_ok [of i s x] ok u show ?thesis by simp
  qed (use ok st u in \<open>auto split: if_splits place.splits\<close>)
qed

lemma poll_ok_start: "length raw = CLIENTSIZE \<Longrightarrow> poll_ok (At_poll, poll_start l raw)"
  by (simp add: poll_start_def CLIENTSIZE_def small_data_def)

interpretation poll_loop: inductive_invariant poll_init "fires poll_main_step" poll_ok
proof
  show "poll_ok u" if "poll_init u" for u using that poll_ok_start by (auto simp: poll_init_def)
  show "poll_ok u'" if "poll_ok u" "fires poll_main_step l u u'" for u l u'
    using poll_ok_step that by (simp only: fires_def)
qed


section \<open>Properties\<close>

text \<open>The server listens on 3; one pass accepts the connection 7 and looks at its struct.\<close>

definition blank :: pollfd where "blank = \<lparr>pfd = 99, pevents = 99, prevents = 99\<rparr>"

definition quiet_pio :: pio where
  "quiet_pio = \<lparr>p_accept = -1, p_recv = 0, p_data = [], p_send = 0, p_reset = False\<rparr>"

definition one_client :: pollsrv where
  "one_client = \<lparr>fds = \<lparr>pfd = 3, pevents = POLLIN OR POLLERR, prevents = POLLIN\<rparr>
       # \<lparr>pfd = 7, pevents = POLLIN OR POLLRDHUP OR POLLERR, prevents = 0\<rparr> # replicate 98 blank,
     conncount = 1, listenfd = 3, mapdata = (\<lambda>f. None), psent = [], polled = [3], looked = [3, 7], fresh = [7]\<rparr>"

lemma one_client_reach: "poll_reach (At_fd 2, one_client)"
proof -
  let ?raw = "blank # blank # replicate 98 blank"
  let ?s = "(At_poll, poll_start 3 ?raw)"
  have "poll_init ?s" unfolding poll_init_def by (intro exI [of _ 3] exI [of _ ?raw]) (simp add: CLIENTSIZE_def)
  then have "poll_reach ?s" by (rule reach_init)
  moreover have "run poll_main_step [Poll [POLLIN], Look (quiet_pio\<lparr>p_accept := 7\<rparr>), Look quiet_pio] ?s
      = Some (At_fd 2, one_client)"
    by (simp add: poll_start_def in_use_def send_ok_def quiet_pio_def BUFSIZE_def serve_fd_def Let_def new_conn_def
        POLLIN_def POLLERR_def POLLRDHUP_def POLLOUT_def one_client_def)
  ultimately show ?thesis by (rule run_reach [rotated])
qed

text \<open>C23. No struct is skipped or looked at twice: when a pass over the array ends, the descriptors looked at
  are, counted with multiplicity, those \<open>poll\<close> reported on and those accepted during the pass, although
  connections are removed by moving the last struct into the gap.\<close>

theorem poll_pass_complete:
  assumes "poll_reach (At_fd i, s)" "\<not> i < conncount s + 1"
  shows "mset (looked s) = mset (polled s) + mset (fresh s)"
proof -
  from poll_loop.inv_reach [OF assms(1)] have "i = conncount s + 1"
    "mset (looked s) + mset (rest_fds i s) = mset (polled s) + mset (fresh s)"
    using assms(2) by auto
  then show ?thesis by (simp add: rest_fds_def in_use_def)
qed

theorem poll_pass_complete_witness: "mset (looked one_client) = {#3#} + {#7#}"
  using poll_pass_complete [OF one_client_reach] by (simp add: one_client_def)

text \<open>With fewer than 99 connections the server never leaves its array: no step from a reachable state
  faults.\<close>

theorem poll_safe:
  assumes "poll_reach (p, s)" "conncount s < 99"
  shows "poll_main_step l (p, s) \<noteq> Some (Inl f)"
proof (cases l)
  case (Look x)
  have ok: "poll_ok (p, s)" by (rule poll_loop.inv_reach [OF assms(1)])
  show ?thesis
  proof
    assume "poll_main_step l (p, s) = Some (Inl f)"
    with Look obtain i where i: "p = At_fd i" "i < conncount s + 1" "send_ok s i x" "serve_fd i x s = Inl f"
      by (auto split: place.splits if_splits)
    from serve_fd_ok [OF ok [unfolded i(1)] i(2,3)] i(4) assms(2) show False by (simp add: CLIENTSIZE_def)
  qed
qed (auto split: place.splits)

theorem poll_safe_witness: "poll_main_step Next_poll (At_fd 2, one_client) \<noteq> Some (Inl Out_of_bounds)"
  by (rule poll_safe [OF one_client_reach]) (simp add: one_client_def)

text \<open>The count of connections is not checked: with 99 connections the next one is written past the end
  of the array of 100 structs.\<close>

theorem poll_overflow:
  assumes "length (fds s) = CLIENTSIZE" "conncount s = 99" "pfd (fds s ! nat i) = listenfd s"
    and "prevents (fds s ! nat i) = POLLIN" "p_accept x \<noteq> -1"
  shows "serve_fd i x s = Inl Out_of_bounds"
  using assms by (simp add: serve_fd_def Let_def new_conn_def CLIENTSIZE_def POLLIN_def POLLRDHUP_def POLLERR_def)

theorem poll_overflow_witness:
  "serve_fd 0 (quiet_pio\<lparr>p_accept := 200\<rparr>)
     (one_client\<lparr>fds := \<lparr>pfd = 3, pevents = POLLIN, prevents = POLLIN\<rparr> # replicate 99 blank, conncount := 99\<rparr>) = Inl Out_of_bounds"
  by (rule poll_overflow) (simp_all add: one_client_def quiet_pio_def CLIENTSIZE_def)

text \<open>Echo: a client's data read at a read event and its struct's next write event send back the data up
  to its first zero byte (as much of it as \<open>send\<close> takes), and leave the struct waiting for the events
  it waited for.\<close>

theorem poll_echo:
  assumes "0 \<le> i" "i < int (length (fds s))" "e = fds s ! nat i" "pfd e \<noteq> listenfd s"
    and "pevents e = POLLIN OR POLLRDHUP OR POLLERR" "prevents e = POLLIN"
    and "0 < p_recv x" "length (p_data x) = nat (p_recv x)" "0 \<le> p_send y"
    and "serve_fd i x s = Inr (p, s1)" "s2 = s1\<lparr>fds := (fds s1)[nat i := (fds s1 ! nat i)\<lparr>prevents := POLLOUT\<rparr>]\<rparr>"
  shows "\<exists>s3. serve_fd i y s2 = Inr (At_fd (i + 1), s3)
    \<and> psent s3 = psent s @ [(pfd e, take (nat (p_send y)) (takeWhile (\<lambda>b. b \<noteq> 0) (p_data x)))]
    \<and> pevents (fds s3 ! nat i) = POLLIN OR POLLRDHUP OR POLLERR"
proof -
  have cut: "takeWhile (\<lambda>b. b \<noteq> 0) (d @ [0]) = takeWhile (\<lambda>b. b \<noteq> 0) (d :: 8 word list)" for d
    by (simp add: takeWhile_tail)
  have i: "nat i < length (fds s)" using assms(1,2) by simp
  let ?d = "c_string (p_data x @ [0])" and ?e = "e\<lparr>pevents := POLLOUT OR POLLRDHUP OR POLLERR\<rparr>"
  have "serve_fd i x s = Inr (At_fd (i + 1), s\<lparr>looked := looked s @ [pfd e],
      mapdata := (mapdata s)(pfd e \<mapsto> ?d), fds := (fds s)[nat i := ?e]\<rparr>)"
    using assms(3-8) by (simp add: serve_fd_def Let_def read_conn_def POLLIN_def POLLRDHUP_def POLLERR_def POLLOUT_def)
  with assms(10) have s1: "s1 = s\<lparr>looked := looked s @ [pfd e], mapdata := (mapdata s)(pfd e \<mapsto> ?d), fds := (fds s)[nat i := ?e]\<rparr>"
    by simp
  have "fds s2 ! nat i = ?e\<lparr>prevents := POLLOUT\<rparr>" "mapdata s2 (pfd e) = Some ?d" "psent s2 = psent s"
    "length (fds s2) = length (fds s)"
    using assms(11) i by (simp_all add: s1)
  then show ?thesis using assms(9) i
    by (simp add: serve_fd_def Let_def write_conn_def c_string_def cut POLLIN_def POLLRDHUP_def POLLERR_def POLLOUT_def)
qed

theorem poll_echo_witness:
  "\<exists>s1 s3. serve_fd 1 (quiet_pio\<lparr>p_recv := 4, p_data := [104, 105, 0, 33]\<rparr>)
       (one_client\<lparr>fds := (fds one_client)[1 := (fds one_client ! 1)\<lparr>prevents := POLLIN\<rparr>]\<rparr>) = Inr (At_fd 2, s1)
     \<and> serve_fd 1 (quiet_pio\<lparr>p_send := 2\<rparr>)
       (s1\<lparr>fds := (fds s1)[nat 1 := (fds s1 ! nat 1)\<lparr>prevents := POLLOUT\<rparr>]\<rparr>) = Inr (At_fd 2, s3)
     \<and> psent s3 = [(7, [104, 105])]"
proof -
  let ?s = "one_client\<lparr>fds := (fds one_client)[1 := (fds one_client ! 1)\<lparr>prevents := POLLIN\<rparr>]\<rparr>"
  let ?x = "quiet_pio\<lparr>p_recv := 4, p_data := [104, 105, 0, 33]\<rparr>" and ?y = "quiet_pio\<lparr>p_send := 2\<rparr>"
  obtain s1 where s1: "serve_fd 1 ?x ?s = Inr (At_fd 2, s1)"
    by (simp add: serve_fd_def Let_def one_client_def read_conn_def quiet_pio_def POLLIN_def POLLRDHUP_def POLLERR_def)
  let ?s2 = "s1\<lparr>fds := (fds s1)[nat 1 := (fds s1 ! nat 1)\<lparr>prevents := POLLOUT\<rparr>]\<rparr>"
  have "\<exists>s3. serve_fd 1 ?y ?s2 = Inr (At_fd (1 + 1), s3) \<and> psent s3 = psent ?s @ [(pfd (fds ?s ! nat 1),
      take (nat (p_send ?y)) (takeWhile (\<lambda>b. b \<noteq> 0) (p_data ?x)))] \<and> pevents (fds s3 ! nat 1) = POLLIN OR POLLRDHUP OR POLLERR"
    by (rule poll_echo [OF _ _ refl _ _ _ _ _ _ s1 refl])
       (simp_all add: one_client_def quiet_pio_def POLLIN_def POLLRDHUP_def POLLERR_def)
  then obtain s3 where "serve_fd 1 ?y ?s2 = Inr (At_fd 2, s3)" "psent s3 = [(7, [104, 105])]"
    by (auto simp: one_client_def quiet_pio_def)
  with s1 show ?thesis by blast
qed

end
