(* ===== verification/Select_Server.thy ===== *)
theory Select_Server
  imports Prelude "HOL-Library.Word"
begin

text \<open>
  The upper-casing server of src/socket/select/select.cpp. Its loop copies the watched set to \<open>rset\<close>
  and then passes the watched set itself, not the copy, to \<open>select\<close>, which overwrites it with the
  descriptors that are ready; the loop over the clients tests the copy.
\<close>

section \<open>State\<close>

type_synonym byte = "8 word"

text \<open>FD_SETSIZE is the number of descriptors a \<open>fd_set\<close> has room for; BUFFER is the size of \<open>recvBuf\<close>.\<close>

definition FD_SETSIZE :: int where "FD_SETSIZE = 1024"
definition BUFFER :: nat where "BUFFER = 1024"

text \<open>
  The locals of \<open>main\<close>; the connections that are open (a ghost set); what has been written to which
  connection.
\<close>

record selsrv =
  s_listenfd :: int
  allset :: "int set"
  rset :: "int set"
  nfds :: int
  sel_ret :: int
  recvBuf :: "byte list"
  s_open :: "int set"
  s_sent :: "(int \<times> byte list) list"

datatype sel_pc = At_select | At_accept | At_conn int | Sel_exit

text \<open>
  What the system calls return: \<open>select\<close> an error or a list of ready descriptors, \<open>accept\<close> a
  descriptor or -1, \<open>read\<close> a number and so many bytes. \<open>Next\<close> is a step without a call.
\<close>

datatype sel_label = Select_error | Select_ready "int list" | Accept int | Read int "byte list" | Next

section \<open>The loop\<close>

definition toupper :: "byte \<Rightarrow> byte" where
  "toupper c = (if 97 \<le> c \<and> c \<le> 122 then c - 32 else c)"

text \<open>FD_SET writes a bit of an array of FD_SETSIZE bits.\<close>

definition FD_SET :: "int \<Rightarrow> int set \<Rightarrow> int set outcome" where
  "FD_SET f s = (if 0 \<le> f \<and> f < FD_SETSIZE then Inr (insert f s) else Inl Out_of_bounds)"

definition accept_client :: "int \<Rightarrow> selsrv \<Rightarrow> (sel_pc \<times> selsrv) outcome" where
  "accept_client connfd s =
     obind (FD_SET connfd (allset s)) (\<lambda>a.
     let s = s\<lparr>allset := a, s_open := insert connfd (s_open s),
           nfds := (if connfd \<ge> nfds s then connfd + 1 else nfds s)\<rparr> in
     Inr (if sel_ret s = 1 then At_select else At_conn (s_listenfd s + 1), s))"

text \<open>
  \<open>write\<close> sends \<open>sizeof(recvBuf)\<close> bytes, whatever \<open>read\<close> returned.
\<close>

definition read_client :: "int \<Rightarrow> int \<Rightarrow> byte list \<Rightarrow> selsrv \<Rightarrow> sel_pc \<times> selsrv" where
  "read_client i n d s =
     (if n < 0 then (Sel_exit, s)
      else if n = 0 then (At_conn (i + 1), s\<lparr>allset := allset s - {i}, s_open := s_open s - {i}\<rparr>)
      else let b = map toupper d @ drop (nat n) (recvBuf s) in
        (At_conn (i + 1), s\<lparr>recvBuf := b, s_sent := s_sent s @ [(i, b)]\<rparr>))"

fun sel_step :: "sel_label \<Rightarrow> sel_pc \<times> selsrv \<Rightarrow> (sel_pc \<times> selsrv) outcome option" where
  "sel_step Select_error (p, s) =
     (if p = At_select then Some (Inr (Sel_exit, s\<lparr>rset := allset s\<rparr>)) else None)"
| "sel_step (Select_ready fs) (p, s) =
     (if p = At_select \<and> fs \<noteq> [] \<and> distinct fs \<and> set fs \<subseteq> allset s \<and> (\<forall>f\<in>set fs. f < nfds s)
      then let s' = s\<lparr>rset := allset s, allset := set fs, sel_ret := int (length fs)\<rparr> in
        Some (Inr (if s_listenfd s \<in> set fs then At_accept else At_conn (s_listenfd s + 1), s'))
      else None)"
| "sel_step (Accept c) (p, s) =
     (if p = At_accept \<and> c \<notin> insert (s_listenfd s) (s_open s) then Some (accept_client c s) else None)"
| "sel_step (Read n d) (p, s) =
     (case p of
        At_conn i \<Rightarrow>
          if i < nfds s \<and> i \<in> rset s \<and> n \<le> int BUFFER \<and> (0 \<le> n \<longrightarrow> int (length d) = n)
          then Some (Inr (read_client i n d s)) else None
      | _ \<Rightarrow> None)"
| "sel_step Next (p, s) =
     (case p of
        At_conn i \<Rightarrow>
          if nfds s \<le> i then Some (Inr (At_select, s))
          else if i \<notin> rset s then Some (Inr (At_conn (i + 1), s))
          else None
      | _ \<Rightarrow> None)"

text \<open>The start: the listener is watched; the buffer is uninitialised.\<close>

definition sel_start :: "int \<Rightarrow> byte list \<Rightarrow> selsrv" where
  "sel_start l raw = \<lparr>s_listenfd = l, allset = {l}, rset = {}, nfds = l + 1, sel_ret = 0, recvBuf = raw,
     s_open = {}, s_sent = []\<rparr>"

definition sel_init :: "sel_pc \<times> selsrv \<Rightarrow> bool" where
  "sel_init u \<longleftrightarrow> (\<exists>l raw. 0 \<le> l \<and> l < FD_SETSIZE \<and> length raw = BUFFER \<and> u = (At_select, sel_start l raw))"

abbreviation sel_reach :: "sel_pc \<times> selsrv \<Rightarrow> bool" where
  "sel_reach \<equiv> reach sel_init (fires sel_step)"

section \<open>What holds in every state\<close>

text \<open>
  Only the listener and open connections are watched, those the loop has still to visit are open,
  and the buffer keeps its size.
\<close>

definition unvisited :: "sel_pc \<Rightarrow> selsrv \<Rightarrow> int set" where
  "unvisited p s =
     (case p of At_accept \<Rightarrow> rset s - {s_listenfd s} | At_conn i \<Rightarrow> {f \<in> rset s. i \<le> f} | _ \<Rightarrow> {})"

definition sel_ok :: "sel_pc \<times> selsrv \<Rightarrow> bool" where
  "sel_ok u \<longleftrightarrow> (case u of (p, s) \<Rightarrow>
     allset s \<subseteq> insert (s_listenfd s) (s_open s) \<and> unvisited p s \<subseteq> s_open s
     \<and> s_listenfd s \<notin> s_open s \<and> length (recvBuf s) = BUFFER
     \<and> (\<forall>i. p = At_conn i \<longrightarrow> s_listenfd s < i) \<and> (\<forall>x\<in>set (s_sent s). length (snd x) = BUFFER))"

lemma sel_ok_step:
  assumes "sel_step l u = Some (Inr u')" "sel_ok u"
  shows "sel_ok u'"
proof -
  obtain p s where u: "u = (p, s)" by (cases u)
  have ok: "allset s \<subseteq> insert (s_listenfd s) (s_open s)" "unvisited p s \<subseteq> s_open s" "s_listenfd s \<notin> s_open s"
    "length (recvBuf s) = BUFFER" "\<And>i. p = At_conn i \<Longrightarrow> s_listenfd s < i" "\<forall>x\<in>set (s_sent s). length (snd x) = BUFFER"
    using assms(2) by (auto simp: sel_ok_def u)
  show ?thesis
  proof (cases l)
    case Select_error
    with assms(1) ok show ?thesis by (auto simp: u sel_ok_def unvisited_def split: if_splits)
  next
    case (Select_ready fs)
    let ?s = "s\<lparr>rset := allset s, allset := set fs, sel_ret := int (length fs)\<rparr>"
    from Select_ready assms(1) have fs: "set fs \<subseteq> allset s"
      and u': "u' = (if s_listenfd s \<in> set fs then At_accept else At_conn (s_listenfd s + 1), ?s)"
      by (auto simp: u Let_def split: if_splits)
    have "set fs \<subseteq> insert (s_listenfd s) (s_open s)" using fs ok(1) by (rule order_trans)
    moreover have "allset s - {s_listenfd s} \<subseteq> s_open s" "{f \<in> allset s. s_listenfd s + 1 \<le> f} \<subseteq> s_open s"
      using ok(1) by auto
    ultimately show ?thesis using ok(3,4,6) unfolding u' by (simp add: sel_ok_def unvisited_def)
  next
    case (Accept c)
    with assms(1) ok show ?thesis
      by (auto simp: u sel_ok_def unvisited_def accept_client_def FD_SET_def Let_def split: if_splits)
  next
    case (Read n d)
    with assms(1) obtain i where i: "p = At_conn i" "i < nfds s" "i \<in> rset s" "n \<le> int BUFFER" "0 \<le> n \<longrightarrow> int (length d) = n"
      and u': "u' = read_client i n d s" by (auto simp: u split: sel_pc.splits if_splits)
    have len: "0 < n \<Longrightarrow> length (map toupper d @ drop (nat n) (recvBuf s)) = BUFFER"
      using i(4,5) ok(4) by simp
    show ?thesis
    proof (cases "n = 0")
      case True
      with ok i show ?thesis by (auto simp: u' sel_ok_def unvisited_def read_client_def)
    next
      case False
      with ok i len show ?thesis by (auto simp: u' sel_ok_def unvisited_def read_client_def Let_def)
    qed
  next
    case Next
    with assms(1) ok show ?thesis by (auto simp: u sel_ok_def unvisited_def split: sel_pc.splits if_splits)
  qed
qed

interpretation sel_loop: inductive_invariant sel_init "fires sel_step" sel_ok
proof (unfold_locales, goal_cases)
  case (1 u)
  then show ?case by (auto simp: sel_init_def sel_start_def sel_ok_def unvisited_def)
next
  case (2 u l u')
  then show ?case using sel_ok_step by (simp add: fires_def)
qed

section \<open>The listener is forgotten\<close>

text \<open>Once the listener is not watched, nothing is added to the watched or the open descriptors any more.\<close>

definition deaf :: "int set \<Rightarrow> int set \<Rightarrow> sel_pc \<times> selsrv \<Rightarrow> bool" where
  "deaf A B u \<longleftrightarrow> (case u of (p, s) \<Rightarrow>
     s_listenfd s \<notin> allset s \<and> p \<noteq> At_accept \<and> allset s \<subseteq> A \<and> s_open s \<subseteq> B)"

lemma deaf_step: "sel_step l u = Some (Inr u') \<Longrightarrow> deaf A B u \<Longrightarrow> deaf A B u'"
  by (cases u; cases l)
     (auto simp: deaf_def read_client_def Let_def split: if_splits sel_pc.splits)

interpretation forgotten: inductive_invariant "\<lambda>u. u = u0 \<and> deaf A B u0" "fires sel_step" "deaf A B" for u0 A B
proof (unfold_locales, goal_cases)
  case (2 u l u')
  then show ?case using deaf_step by (simp add: fires_def)
qed simp

section \<open>Properties\<close>

text \<open>Whatever clients do, the server only watches the listener and open connections, only reads
  connections that are open, and always writes the whole buffer of 1024 bytes, not the bytes it read.\<close>

theorem select_safe:
  assumes "sel_reach (p, s)"
  shows "allset s \<subseteq> insert (s_listenfd s) (s_open s) \<and> length (recvBuf s) = BUFFER
    \<and> (\<forall>x\<in>set (s_sent s). length (snd x) = BUFFER)
    \<and> (\<forall>i n d u. p = At_conn i \<and> sel_step (Read n d) (p, s) = Some u \<longrightarrow> i \<in> s_open s)"
proof -
  have ok: "sel_ok (p, s)" by (rule sel_loop.inv_reach [OF assms])
  have "i \<in> s_open s" if "p = At_conn i" "sel_step (Read n d) (p, s) = Some u" for i n d u
    using that ok by (auto simp: sel_ok_def unvisited_def split: if_splits)
  with ok show ?thesis by (auto simp: sel_ok_def)
qed

definition two_clients :: selsrv where
  "two_clients = \<lparr>s_listenfd = 3, allset = {5}, rset = {3, 4, 5}, nfds = 6, sel_ret = 1,
     recvBuf = 65 # replicate 1023 0, s_open = {4, 5}, s_sent = [(4, 65 # replicate 1023 0)]\<rparr>"

lemma two_clients_reach: "sel_reach (At_conn 4, two_clients)"
proof (rule run_reach)
  have "insert 5 (insert 4 {3}) = {3, 4, 5 :: int}" "insert 5 {3, 4} = {3, 4, 5 :: int}" "insert 4 {3} = {3, 4 :: int}"
    "insert 5 {4} = {4, 5 :: int}" by auto
  moreover have "toupper 97 = 65" by (simp add: toupper_def)
  ultimately show "run sel_step [Select_ready [3], Accept 4, Select_ready [3, 4], Accept 5, Read 1 [97], Next, Next, Select_ready [5]]
      (At_select, sel_start 3 (replicate 1024 0)) = Some (At_conn 4, two_clients)"
    by (simp add: sel_start_def two_clients_def accept_client_def read_client_def FD_SET_def FD_SETSIZE_def BUFFER_def Let_def)
  show "sel_reach (At_select, sel_start 3 (replicate 1024 0))"
    by (rule reach_init)
      (unfold sel_init_def FD_SETSIZE_def BUFFER_def, intro exI [of _ 3] exI [of _ "replicate 1024 0"], simp)
qed

theorem select_safe_witness: "allset two_clients \<subseteq> {3, 4, 5} \<and> length (recvBuf two_clients) = BUFFER"
  using select_safe [OF two_clients_reach] by (auto simp: two_clients_def)

text \<open>C38. The listener is forgotten: as soon as one call of \<open>select\<close> reports other descriptors but not the
  listener, no connection is ever accepted again, and a client that call did not report is never
  watched again, whatever happens afterwards.\<close>

theorem select_forgets:
  assumes "s_listenfd s \<in> allset s" "s_listenfd s \<notin> set fs"
    and "sel_step (Select_ready fs) (At_select, s) = Some (Inr u1)"
    and "reach (\<lambda>u. u = u1) (fires sel_step) (p, s')"
  shows "s_listenfd s' \<notin> allset s' \<and> allset s' \<subseteq> set fs \<and> s_open s' \<subseteq> s_open s \<and> p \<noteq> At_accept"
proof -
  have d: "deaf (set fs) (s_open s) u1" using assms(2,3) by (auto simp: deaf_def Let_def split: if_splits)
  then have "(\<lambda>u. u = u1) = (\<lambda>u. u = u1 \<and> deaf (set fs) (s_open s) u1)" by simp
  with assms(4) have "reach (\<lambda>u. u = u1 \<and> deaf (set fs) (s_open s) u1) (fires sel_step) (p, s')" by simp
  from forgotten.inv_reach [OF this] show ?thesis by (simp add: deaf_def)
qed

theorem select_forgets_witness:
  "\<exists>u1. sel_step (Select_ready [4]) (At_select, two_clients\<lparr>allset := {3, 4, 5}\<rparr>) = Some (Inr u1)
     \<and> 3 \<notin> allset (snd u1) \<and> 5 \<notin> allset (snd u1)"
proof -
  let ?s = "two_clients\<lparr>allset := {3, 4, 5}\<rparr>"
  let ?t = "?s\<lparr>rset := {3, 4, 5}, allset := {4}, sel_ret := 1\<rparr>"
  have st: "sel_step (Select_ready [4]) (At_select, ?s) = Some (Inr (At_conn 4, ?t))"
    by (simp add: two_clients_def Let_def)
  have "s_listenfd ?t \<notin> allset ?t \<and> allset ?t \<subseteq> set [4] \<and> s_open ?t \<subseteq> s_open ?s \<and> At_conn 4 \<noteq> At_accept"
    by (rule select_forgets [OF _ _ st]) (simp_all add: two_clients_def reach_init)
  with st show ?thesis by (intro exI [of _ "(At_conn 4, ?t)"]) (auto simp: two_clients_def)
qed

fun is_read :: "sel_label \<Rightarrow> bool" where
  "is_read (Read n d) = True" | "is_read l = False"

text \<open>The loop tests the copy of the watched set taken before the call, so it reads connections that are
  not ready: a state is reachable in which only client 5 was reported and the only thing the server
  can do is a \<open>read\<close> of client 4, so it serves nobody until that client sends something.\<close>

theorem select_reads_unready:
  "\<exists>s. sel_reach (At_conn 4, s) \<and> allset s = {5} \<and> 4 \<in> s_open s
     \<and> (\<forall>l. is_read l \<or> sel_step l (At_conn 4, s) = None)"
proof -
  have "is_read l \<or> sel_step l (At_conn 4, two_clients) = None" for l
    by (cases l) (auto simp: two_clients_def)
  with two_clients_reach show ?thesis by (intro exI [of _ two_clients]) (auto simp: two_clients_def)
qed

end
