(* ===== verification/Shared_Counter.thy ===== *)
theory Shared_Counter
  imports Prelude
begin

text \<open>
  The lock examples of src/lock: two threads that add 1 to a global 1000 times each under a mutex
  (mutex.cpp), a child and a parent process that add 1 and 2 to a shared mapping 10 times each under
  a process-shared mutex (mutexattr.cpp), and writers and readers of a counter under a read-write
  lock (rwlock.cpp). An addition is a read and a write, with any steps of the others in between.
\<close>

section \<open>Additions under a mutex\<close>

text \<open>
  One thread: how much it adds each time, how many times it still has to, and where it is. A thread
  with a value in hand has read the variable and not written it yet.
\<close>

datatype adder_pc = Out | Inside | In_hand int | Written

record adder =
  amount :: int
  left :: nat
  apc :: adder_pc

record counter =
  num :: int
  holder :: "nat option"
  adders :: "adder list"

text \<open>One step of thread \<open>t\<close>: lock, read, write, unlock and count the iteration.\<close>

fun counter_step :: "nat \<Rightarrow> counter \<Rightarrow> counter outcome option" where
  "counter_step t s =
     (if t < length (adders s)
      then let a = adders s ! t;
               to = (\<lambda>a' s'. Some (Inr (s'\<lparr>adders := (adders s')[t := a']\<rparr>))) in
        case apc a of
          Out \<Rightarrow> if 0 < left a \<and> holder s = None then to (a\<lparr>apc := Inside\<rparr>) (s\<lparr>holder := Some t\<rparr>) else None
        | Inside \<Rightarrow> to (a\<lparr>apc := In_hand (num s)\<rparr>) s
        | In_hand v \<Rightarrow> to (a\<lparr>apc := Written\<rparr>) (s\<lparr>num := v + amount a\<rparr>)
        | Written \<Rightarrow> to (a\<lparr>apc := Out, left := left a - 1\<rparr>) (s\<lparr>holder := None\<rparr>)
      else None)"

text \<open>The threads of the two programs, as amounts and numbers of iterations.\<close>

definition start_counter :: "(int \<times> nat) list \<Rightarrow> counter" where
  "start_counter ps = \<lparr>num = 0, holder = None, adders = map (\<lambda>(d, n). \<lparr>amount = d, left = n, apc = Out\<rparr>) ps\<rparr>"

definition mutex_main :: counter where "mutex_main = start_counter [(1, 1000), (1, 1000)]"

definition mutexattr_main :: counter where "mutexattr_main = start_counter [(1, 10), (2, 10)]"

text \<open>What is still to be added: all that is left, less an addition already written.\<close>

definition due :: "adder \<Rightarrow> int" where
  "due a = amount a * (int (left a) - (if apc a = Written then 1 else 0))"

definition all_due :: "counter \<Rightarrow> int" where
  "all_due s = (\<Sum>a\<leftarrow>adders s. due a)"

definition counter_inv :: "int \<Rightarrow> counter \<Rightarrow> bool" where
  "counter_inv goal s \<longleftrightarrow> num s + all_due s = goal
     \<and> (\<forall>t<length (adders s). (apc (adders s ! t) \<noteq> Out \<longleftrightarrow> holder s = Some t)
          \<and> (apc (adders s ! t) \<noteq> Out \<longrightarrow> 0 < left (adders s ! t))
          \<and> (\<forall>v. apc (adders s ! t) = In_hand v \<longrightarrow> v = num s))"

lemma due_update:
  "t < length as \<Longrightarrow> (\<Sum>a\<leftarrow>as[t := b]. due a) = (\<Sum>a\<leftarrow>as. due a) + due b - due (as ! t)"
  by (induction as arbitrary: t) (auto split: nat.splits)

lemma counter_inv_step: "counter_inv goal s \<Longrightarrow> counter_step t s = Some (Inr s') \<Longrightarrow> counter_inv goal s'"
proof -
  assume inv: "counter_inv goal s" and st: "counter_step t s = Some (Inr s')"
  let ?a = "adders s ! t"
  from st have t: "t < length (adders s)" by (auto split: if_splits)
  from inv have sum: "num s + all_due s = goal"
    and own: "\<And>u. u < length (adders s) \<Longrightarrow> apc (adders s ! u) \<noteq> Out \<longleftrightarrow> holder s = Some u"
    and pos: "\<And>u. u < length (adders s) \<Longrightarrow> apc (adders s ! u) \<noteq> Out \<Longrightarrow> 0 < left (adders s ! u)"
    and val: "\<And>u v. u < length (adders s) \<Longrightarrow> apc (adders s ! u) = In_hand v \<Longrightarrow> v = num s"
    by (auto simp: counter_inv_def)
  note upd = due_update [OF t]
  show ?thesis
  proof (cases "apc ?a")
    case Out
    with st t have s': "s' = s\<lparr>holder := Some t, adders := (adders s)[t := ?a\<lparr>apc := Inside\<rparr>]\<rparr>" "holder s = None" "0 < left ?a"
      by (auto simp: Let_def split: if_splits)
    then have o: "apc (adders s ! u) = Out" if "u < length (adders s)" for u using own that by simp
    have "due (?a\<lparr>apc := Inside\<rparr>) = due ?a" using Out by (simp add: due_def)
    then show ?thesis using s' sum o t upd [of "?a\<lparr>apc := Inside\<rparr>"]
      by (auto simp: counter_inv_def all_due_def nth_list_update)
  next
    case Inside
    with st t have s': "s' = s\<lparr>adders := (adders s)[t := ?a\<lparr>apc := In_hand (num s)\<rparr>]\<rparr>"
      by (auto simp: Let_def split: if_splits)
    have "due (?a\<lparr>apc := In_hand (num s)\<rparr>) = due ?a" using Inside by (simp add: due_def)
    then show ?thesis using s' sum own [of t] own pos val Inside t upd [of "?a\<lparr>apc := In_hand (num s)\<rparr>"]
      by (auto simp: counter_inv_def all_due_def nth_list_update)
  next
    case (In_hand v)
    with st t have s': "s' = s\<lparr>num := v + amount ?a, adders := (adders s)[t := ?a\<lparr>apc := Written\<rparr>]\<rparr>"
      by (auto simp: Let_def split: if_splits)
    have v: "v = num s" using val [OF t In_hand] .
    have h: "holder s = Some t" using own [OF t] In_hand by simp
    have "due (?a\<lparr>apc := Written\<rparr>) = due ?a - amount ?a" using In_hand by (simp add: due_def right_diff_distrib)
    moreover have "apc (adders s ! u) = Out" if "u < length (adders s)" "u \<noteq> t" for u
      using own [OF that(1)] h that(2) by auto
    ultimately show ?thesis using s' sum h v pos [OF t] In_hand t upd [of "?a\<lparr>apc := Written\<rparr>"]
      by (auto simp: counter_inv_def all_due_def nth_list_update)
  next
    case Written
    with st t have s': "s' = s\<lparr>holder := None, adders := (adders s)[t := ?a\<lparr>apc := Out, left := left ?a - 1\<rparr>]\<rparr>"
      by (auto simp: Let_def split: if_splits)
    have h: "holder s = Some t" using own [OF t] Written by simp
    have "0 < left ?a" using pos [OF t] Written by simp
    then have "due (?a\<lparr>apc := Out, left := left ?a - 1\<rparr>) = due ?a" using Written by (simp add: due_def of_nat_diff)
    moreover have "apc (adders s ! u) = Out" if "u < length (adders s)" "u \<noteq> t" for u
      using own [OF that(1)] h that(2) by auto
    ultimately show ?thesis using s' sum t upd [of "?a\<lparr>apc := Out, left := left ?a - 1\<rparr>"]
      by (auto simp: counter_inv_def all_due_def nth_list_update)
  qed
qed

lemma start_counter_inv: "counter_inv (\<Sum>(d, n)\<leftarrow>ps. d * int n) (start_counter ps)"
proof -
  have "all_due (start_counter ps) = (\<Sum>(d, n)\<leftarrow>ps. d * int n)"
    by (simp add: all_due_def start_counter_def due_def comp_def case_prod_unfold)
  moreover have "apc (adders (start_counter ps) ! t) = Out" if "t < length ps" for t
    using that by (simp add: start_counter_def case_prod_unfold)
  ultimately show ?thesis by (simp add: counter_inv_def) (simp add: start_counter_def)
qed

lemma holder_lt_step:
  "counter_step t s = Some (Inr s') \<Longrightarrow> case holder s of None \<Rightarrow> True | Some u \<Rightarrow> u < length (adders s) \<Longrightarrow>
     (case holder s' of None \<Rightarrow> True | Some u \<Rightarrow> u < length (adders s'))"
  by (auto simp: Let_def split: if_splits adder_pc.splits option.splits)

definition counter_ok :: "int \<Rightarrow> counter \<Rightarrow> bool" where
  "counter_ok goal s \<longleftrightarrow> counter_inv goal s \<and> (case holder s of None \<Rightarrow> True | Some u \<Rightarrow> u < length (adders s))"

lemma counter_ok_step: "counter_ok goal s \<Longrightarrow> fires counter_step t s s' \<Longrightarrow> counter_ok goal s'"
  unfolding counter_ok_def fires_def using counter_inv_step holder_lt_step by blast

lemma counter_ok_start: "counter_ok (\<Sum>(d, n)\<leftarrow>ps. d * int n) (start_counter ps)"
  using start_counter_inv by (simp add: counter_ok_def) (simp add: start_counter_def)

interpretation mutex_prog: inductive_invariant "\<lambda>s. s = mutex_main" "fires counter_step" "counter_ok 2000"
  by unfold_locales (use counter_ok_start [of "[(1, 1000), (1, 1000)]"] in \<open>auto simp: mutex_main_def intro: counter_ok_step\<close>)

interpretation mutexattr_prog: inductive_invariant "\<lambda>s. s = mutexattr_main" "fires counter_step" "counter_ok 30"
  by unfold_locales (use counter_ok_start [of "[(1, 10), (2, 10)]"] in \<open>auto simp: mutexattr_main_def intro: counter_ok_step\<close>)

definition finished_adder :: "adder \<Rightarrow> bool" where
  "finished_adder a \<longleftrightarrow> left a = 0 \<and> apc a = Out"

lemma all_done_due: "list_all finished_adder as \<Longrightarrow> (\<Sum>a\<leftarrow>as. due a) = 0"
  by (induction as) (auto simp: due_def finished_adder_def)

text \<open>A system that is not done is never stuck, and one that is done has added everything.\<close>

lemma counter_end:
  assumes "counter_ok goal s"
  shows "(\<exists>t s'. counter_step t s = Some (Inr s')) \<or> list_all finished_adder (adders s) \<and> num s = goal"
proof (cases "holder s")
  case (Some t)
  then have t: "t < length (adders s)" using assms by (simp add: counter_ok_def)
  then have "apc (adders s ! t) \<noteq> Out" using assms Some by (auto simp: counter_ok_def counter_inv_def)
  then have "\<exists>s'. counter_step t s = Some (Inr s')"
    using t by (cases "apc (adders s ! t)") (auto simp: Let_def)
  then show ?thesis by blast
next
  case None
  have out: "apc (adders s ! t) = Out" if "t < length (adders s)" for t
    using assms None that by (auto simp: counter_ok_def counter_inv_def)
  show ?thesis
  proof (cases "list_all finished_adder (adders s)")
    case True
    with assms all_done_due show ?thesis by (simp add: counter_ok_def counter_inv_def all_due_def)
  next
    case False
    then obtain t where t: "t < length (adders s)" "\<not> finished_adder (adders s ! t)" by (auto simp: list_all_length)
    with out None have "\<exists>s'. counter_step t s = Some (Inr s')" by (auto simp: finished_adder_def)
    then show ?thesis by blast
  qed
qed

text \<open>mutex.cpp and its two threads: at any moment the number is what has been added, that is 2000 less the
  additions still due; so no addition is lost, and when both loops are done it is 2000.\<close>

theorem mutex_no_lost_update:
  assumes "reach (\<lambda>s. s = mutex_main) (fires counter_step) s"
  shows "num s = 2000 - (\<Sum>a\<leftarrow>adders s. amount a * (int (left a) - (if apc a = Written then 1 else 0)))"
  using mutex_prog.inv_reach [OF assms] by (simp add: counter_ok_def counter_inv_def all_due_def due_def [abs_def])

theorem mutex_no_lost_update_witness:
  "\<exists>s. run counter_step [0, 0, 0, 0, 1, 1, 1] mutex_main = Some s \<and> num s = 2"
proof -
  have r: "run counter_step [0, 0, 0, 0, 1, 1, 1] mutex_main =
    Some \<lparr>num = 2, holder = Some 1, adders = [\<lparr>amount = 1, left = 999, apc = Out\<rparr>, \<lparr>amount = 1, left = 1000, apc = Written\<rparr>]\<rparr>"
    by (simp add: mutex_main_def start_counter_def)
  have "reach (\<lambda>s. s = mutex_main) (fires counter_step) mutex_main" by (rule reach_init) (rule refl)
  from mutex_no_lost_update [OF run_reach [OF r this]] r show ?thesis by simp
qed

text \<open>mutexattr.cpp: the child and the parent are never stuck before both loops are done, and then the
  shared number is 30.\<close>

theorem mutexattr_ends_with_30:
  assumes "reach (\<lambda>s. s = mutexattr_main) (fires counter_step) s"
  shows "(\<exists>t s'. counter_step t s = Some (Inr s')) \<or> list_all finished_adder (adders s) \<and> num s = 30"
  using counter_end [OF mutexattr_prog.inv_reach [OF assms]] .

theorem mutexattr_ends_with_30_witness: "\<exists>t s'. counter_step t mutexattr_main = Some (Inr s')"
proof -
  have "reach (\<lambda>s. s = mutexattr_main) (fires counter_step) mutexattr_main" by (rule reach_init) (rule refl)
  moreover have "\<not> list_all finished_adder (adders mutexattr_main)"
    by (simp add: mutexattr_main_def start_counter_def finished_adder_def)
  ultimately show ?thesis using mutexattr_ends_with_30 by blast
qed

section \<open>The read-write lock\<close>

text \<open>
  A writer copies the counter without the lock, then takes the write lock, increments, prints both
  values, and gives the lock back; a reader prints the counter under the read lock. The logs hold
  what is printed.
\<close>

datatype rw_lock = RW_free | RW_readers nat | RW_writer nat

datatype rw_pc = Wr_copy | Wr_lock int | Wr_print int | Wr_unlock | Rd_lock | Rd_print | Rd_unlock

record rw_state =
  rw_count :: int
  rwlock :: rw_lock
  rw_threads :: "rw_pc list"
  wlog :: "(int \<times> int) list"
  rlog :: "int list"

fun rw_step :: "nat \<Rightarrow> rw_state \<Rightarrow> rw_state outcome option" where
  "rw_step t s =
     (if t < length (rw_threads s)
      then let to = (\<lambda>c s'. Some (Inr (s'\<lparr>rw_threads := (rw_threads s')[t := c]\<rparr>))) in
        case rw_threads s ! t of
          Wr_copy \<Rightarrow> to (Wr_lock (rw_count s)) s
        | Wr_lock v \<Rightarrow> if rwlock s = RW_free then to (Wr_print v) (s\<lparr>rwlock := RW_writer t\<rparr>) else None
        | Wr_print v \<Rightarrow> to Wr_unlock (s\<lparr>rw_count := rw_count s + 1, wlog := wlog s @ [(v, rw_count s + 1)]\<rparr>)
        | Wr_unlock \<Rightarrow> to Wr_copy (s\<lparr>rwlock := RW_free\<rparr>)
        | Rd_lock \<Rightarrow> (case rwlock s of
              RW_free \<Rightarrow> to Rd_print (s\<lparr>rwlock := RW_readers 1\<rparr>)
            | RW_readers n \<Rightarrow> to Rd_print (s\<lparr>rwlock := RW_readers (n + 1)\<rparr>)
            | RW_writer u \<Rightarrow> None)
        | Rd_print \<Rightarrow> to Rd_unlock (s\<lparr>rlog := rlog s @ [rw_count s]\<rparr>)
        | Rd_unlock \<Rightarrow> (case rwlock s of
              RW_readers n \<Rightarrow> to Rd_lock (s\<lparr>rwlock := (if n \<le> 1 then RW_free else RW_readers (n - 1))\<rparr>)
            | _ \<Rightarrow> Some (Inl Bad_mutex))
      else None)"

definition rwlock_main :: rw_state where
  "rwlock_main = \<lparr>rw_count = 0, rwlock = RW_free, rw_threads = replicate 3 Wr_copy @ replicate 5 Rd_lock,
     wlog = [], rlog = []\<rparr>"

fun writing :: "rw_pc \<Rightarrow> bool" where
  "writing (Wr_print v) = True" | "writing Wr_unlock = True" | "writing c = False"

fun reading :: "rw_pc \<Rightarrow> bool" where
  "reading Rd_print = True" | "reading Rd_unlock = True" | "reading c = False"

definition lock_matches :: "rw_lock \<Rightarrow> rw_pc list \<Rightarrow> bool" where
  "lock_matches l cs \<longleftrightarrow>
     (case l of
        RW_free \<Rightarrow> cnt writing cs = 0 \<and> cnt reading cs = 0
      | RW_readers n \<Rightarrow> 0 < n \<and> cnt writing cs = 0 \<and> cnt reading cs = int n
      | RW_writer t \<Rightarrow> cnt writing cs = 1 \<and> cnt reading cs = 0)"

definition rw_inv :: "rw_state \<Rightarrow> bool" where
  "rw_inv s \<longleftrightarrow> lock_matches (rwlock s) (rw_threads s) \<and> map snd (wlog s) = [1..rw_count s] \<and> 0 \<le> rw_count s
     \<and> sorted (rlog s) \<and> (\<forall>v\<in>set (rlog s). v \<le> rw_count s)"

lemma cnt_pos: "t < length cs \<Longrightarrow> P (cs ! t) \<Longrightarrow> 0 < cnt P cs"
proof -
  assume t: "t < length cs" "P (cs ! t)"
  have "cnt P cs = cnt P (take t cs) + cnt P (drop t cs)"
    by (simp flip: cnt_simps(3))
  also have "drop t cs = cs ! t # drop (Suc t) cs" using t(1) by (simp add: Cons_nth_drop_Suc)
  finally show ?thesis using t(2) cnt_nonneg [of P "take t cs"] cnt_nonneg [of P "drop (Suc t) cs"] by simp
qed

lemma rw_step_cases:
  assumes "rw_inv s" "rw_step t s = Some r"
  shows "case r of Inl f \<Rightarrow> False | Inr s' \<Rightarrow> rw_inv s'"
proof -
  let ?cs = "rw_threads s"
  from assms(2) have t: "t < length ?cs" by (auto split: if_splits)
  from assms(1) have l: "lock_matches (rwlock s) ?cs" by (simp add: rw_inv_def)
  note up = cnt_update [OF t] and pos = cnt_pos [OF t]
  have snoc: "0 \<le> n \<Longrightarrow> [1..n] @ [n + 1] = [1..n + 1]" for n :: int by (simp add: upto_rec2)
  show ?thesis
  proof (cases "?cs ! t")
    case Rd_unlock
    then have "0 < cnt reading ?cs" by (intro pos) simp
    with Rd_unlock assms t l show ?thesis
      by (auto simp: Let_def rw_inv_def lock_matches_def up split: rw_lock.splits if_splits)
  next
    case (Wr_print v)
    then have w: "0 < cnt writing ?cs" by (intro pos) simp
    have "v \<le> rw_count s + 1" if "v \<in> set (rlog s)" for v
    proof -
      have "v \<le> rw_count s" using assms(1) that by (simp add: rw_inv_def)
      then show ?thesis by simp
    qed
    with w Wr_print assms t l show ?thesis
      by (auto simp: Let_def rw_inv_def lock_matches_def up snoc split: rw_lock.splits if_splits)
  next
    case Wr_unlock
    then have "0 < cnt writing ?cs" by (intro pos) simp
    with Wr_unlock assms t l show ?thesis
      by (auto simp: Let_def rw_inv_def lock_matches_def up split: rw_lock.splits if_splits)
  qed (use assms t l in \<open>auto simp: Let_def rw_inv_def lock_matches_def up sorted_append split: rw_lock.splits if_splits\<close>)
qed

interpretation rwlock_prog: inductive_invariant "\<lambda>s. s = rwlock_main" "fires rw_step" rw_inv
proof
  show "rw_inv s" if "s = rwlock_main" for s
    by (simp add: that rwlock_main_def rw_inv_def lock_matches_def)
  show "rw_inv s'" if "rw_inv s" "fires rw_step t s s'" for s t s'
    using rw_step_cases [OF that(1), of t "Inr s'"] that(2) by (simp add: fires_def del: rw_step.simps)
qed

text \<open>rwlock.cpp: a writer excludes every other thread and readers exclude writers; the incremented values
  the writers print are 1, 2, 3, ... in this order, and the values the readers print never go down.\<close>

theorem rwlock_values:
  assumes "reach (\<lambda>s. s = rwlock_main) (fires rw_step) s"
  shows "length (filter writing (rw_threads s)) \<le> 1
    \<and> (length (filter writing (rw_threads s)) = 0 \<or> length (filter reading (rw_threads s)) = 0)
    \<and> map snd (wlog s) = [1..rw_count s] \<and> sorted (rlog s)"
proof -
  from rwlock_prog.inv_reach [OF assms] have i: "rw_inv s" .
  then have "cnt writing (rw_threads s) \<le> 1 \<and> (cnt writing (rw_threads s) = 0 \<or> cnt reading (rw_threads s) = 0)"
    by (auto simp: rw_inv_def lock_matches_def split: rw_lock.splits)
  with i show ?thesis by (simp add: rw_inv_def cnt_length)
qed

text \<open>Two writers that both copied 0: the second prints 0 as the old value and 2 as the new one.\<close>

definition stale_run :: "nat list" where "stale_run = [0, 1, 0, 0, 0, 1, 1]"

definition stale_end :: rw_state where
  "stale_end = \<lparr>rw_count = 2, rwlock = RW_writer 1,
     rw_threads = [Wr_copy, Wr_unlock, Wr_copy, Rd_lock, Rd_lock, Rd_lock, Rd_lock, Rd_lock],
     wlog = [(0, 1), (0, 2)], rlog = []\<rparr>"

lemma stale_reach: "reach (\<lambda>s. s = rwlock_main) (fires rw_step) stale_end"
proof (rule run_reach)
  show "run rw_step stale_run rwlock_main = Some stale_end" by code_simp
qed (rule reach_init, rule refl)

theorem rwlock_values_witness: "map snd (wlog stale_end) = [1..2]"
  using rwlock_values [OF stale_reach] by (simp add: stale_end_def)

end
