(* ===== verification/Prod_Cons.thy ===== *)
theory Prod_Cons
  imports Prelude
begin

text \<open>
  The producer and the consumer of src/thread/P_C_Model/Signal_type.cpp: a linked list of heap nodes
  behind the global \<open>head\<close>, protected by a mutex, and a condition variable that says that there is
  something in it. Nodes are addresses in an explicit store, so that a node used after \<open>free\<close> or a
  null pointer followed is a fault.
\<close>

section \<open>State\<close>

text \<open>A node is its data and the address of the next one; 0 is the null pointer. The largest \<open>int\<close> is \<open>INT_MAX\<close>.\<close>

definition INT_MAX :: int where "INT_MAX = 2147483647"

record msg =
  data :: int
  next_node :: nat

datatype producer_pc =
    P_new                 \<comment> \<open>about to allocate a node\<close>
  | P_lock nat            \<comment> \<open>about to lock, with the new node\<close>
  | P_link nat            \<comment> \<open>lock held, about to put the node in front\<close>
  | P_unlock              \<comment> \<open>about to unlock\<close>
  | P_signal              \<comment> \<open>about to signal\<close>

datatype consumer_pc =
    K_lock                \<comment> \<open>about to lock\<close>
  | K_test                \<comment> \<open>lock held, about to test \<open>head\<close>\<close>
  | K_wait                \<comment> \<open>waiting\<close>
  | K_take                \<comment> \<open>lock held, about to take the first node\<close>
  | K_unlock nat          \<comment> \<open>about to unlock, with the node taken\<close>
  | K_print nat           \<comment> \<open>about to print the data\<close>
  | K_free nat            \<comment> \<open>about to free the node\<close>

text \<open>\<open>made\<close> is the producer's \<open>cnt\<close>; \<open>printed\<close> is the output of the consumer.\<close>

record pcstate =
  heap :: "nat \<Rightarrow> msg option"
  head :: nat
  pc_lock :: "nat option"
  made :: int
  ppc :: producer_pc
  kpc :: consumer_pc
  printed :: "int list"

section \<open>Steps\<close>

text \<open>
  The producer is thread 0 and the consumer thread 1. The label of an allocation carries the address
  \<open>new\<close> returns, which is not in use, or 0 when it throws, which nothing catches; a wait may also return without a
  signal. \<open>cnt++\<close> is undefined at \<open>INT_MAX\<close>. The consumer frees with \<open>free\<close> what the producer made with \<open>new\<close>; that is
  undefined, and \<open>lax\<close> says that the implementation at hand lets it work.
\<close>

datatype pclabel = Producer nat | Consumer | Wake_up

definition enter :: "nat \<Rightarrow> pcstate \<Rightarrow> pcstate option" where
  "enter t s = (if pc_lock s = None then Some (s\<lparr>pc_lock := Some t\<rparr>) else None)"

fun producer :: "nat \<Rightarrow> pcstate \<Rightarrow> pcstate outcome option" where
  "producer a s =
     (case ppc s of
        P_new \<Rightarrow>
          if a = 0 then Some (Inl Bad_alloc)
          else if heap s a \<noteq> None then None
          else if made s = INT_MAX then Some (Inl Signed_overflow)
          else Some (Inr (s\<lparr>heap := (heap s)(a \<mapsto> \<lparr>data = made s, next_node = 0\<rparr>), made := made s + 1, ppc := P_lock a\<rparr>))
      | P_lock t \<Rightarrow> map_option (\<lambda>s. Inr (s\<lparr>ppc := P_link t\<rparr>)) (enter 0 s)
      | P_link t \<Rightarrow>
          (case heap s t of
             None \<Rightarrow> Some (Inl Use_after_free)
           | Some m \<Rightarrow> Some (Inr (s\<lparr>heap := (heap s)(t \<mapsto> m\<lparr>next_node := head s\<rparr>), head := t, ppc := P_unlock\<rparr>)))
      | P_unlock \<Rightarrow> Some (Inr (s\<lparr>pc_lock := None, ppc := P_signal\<rparr>))
      | P_signal \<Rightarrow> Some (Inr (s\<lparr>kpc := (if kpc s = K_wait then K_lock else kpc s), ppc := P_new\<rparr>)))"

fun consumer :: "bool \<Rightarrow> pcstate \<Rightarrow> pcstate outcome option" where
  "consumer lax s =
     (case kpc s of
        K_lock \<Rightarrow> map_option (\<lambda>s. Inr (s\<lparr>kpc := K_test\<rparr>)) (enter 1 s)
      | K_test \<Rightarrow> if head s = 0 then Some (Inr (s\<lparr>pc_lock := None, kpc := K_wait\<rparr>)) else Some (Inr (s\<lparr>kpc := K_take\<rparr>))
      | K_wait \<Rightarrow> None
      | K_take \<Rightarrow>
          if head s = 0 then Some (Inl Null_deref)
          else (case heap s (head s) of
                  None \<Rightarrow> Some (Inl Use_after_free)
                | Some m \<Rightarrow> Some (Inr (s\<lparr>head := next_node m, kpc := K_unlock (head s)\<rparr>)))
      | K_unlock p \<Rightarrow> Some (Inr (s\<lparr>pc_lock := None, kpc := K_print p\<rparr>))
      | K_print p \<Rightarrow>
          (case heap s p of
             None \<Rightarrow> Some (Inl Use_after_free)
           | Some m \<Rightarrow> Some (Inr (s\<lparr>printed := printed s @ [data m], kpc := K_free p\<rparr>)))
      | K_free p \<Rightarrow>
          if \<not> lax then Some (Inl Bad_free)
          else if heap s p = None then Some (Inl Use_after_free)
          else Some (Inr (s\<lparr>heap := (heap s)(p := None), kpc := K_lock\<rparr>)))"

fun pc_step :: "bool \<Rightarrow> pclabel \<Rightarrow> pcstate \<Rightarrow> pcstate outcome option" where
  "pc_step lax (Producer a) s = producer a s"
| "pc_step lax Consumer s = consumer lax s"
| "pc_step lax Wake_up s = (if kpc s = K_wait then Some (Inr (s\<lparr>kpc := K_lock\<rparr>)) else None)"

definition pc_main :: pcstate where
  "pc_main = \<lparr>heap = (\<lambda>a. None), head = 0, pc_lock = None, made = 0, ppc = P_new, kpc = K_lock, printed = []\<rparr>"

section \<open>The list in the store\<close>

fun chain :: "(nat \<Rightarrow> msg option) \<Rightarrow> nat \<Rightarrow> nat list \<Rightarrow> bool" where
  "chain h p [] \<longleftrightarrow> p = 0"
| "chain h p (a # as) \<longleftrightarrow> p = a \<and> a \<noteq> 0 \<and> (case h a of None \<Rightarrow> False | Some m \<Rightarrow> chain h (next_node m) as)"

definition data_at :: "(nat \<Rightarrow> msg option) \<Rightarrow> nat \<Rightarrow> int" where
  "data_at h a = (case h a of None \<Rightarrow> 0 | Some m \<Rightarrow> data m)"

lemma chain_update: "a \<notin> set as \<Longrightarrow> chain (h(a := m)) p as = chain h p as"
  by (induction as arbitrary: p) (auto split: option.splits)

lemma chain_alive: "chain h p as \<Longrightarrow> a \<in> set as \<Longrightarrow> h a \<noteq> None"
  by (induction as arbitrary: p) (auto split: option.splits)

lemma data_update: "a \<notin> set as \<Longrightarrow> map (data_at (h(a := m))) as = map (data_at h) as"
  by (induction as) (auto simp: data_at_def)

fun new_nodes :: "producer_pc \<Rightarrow> nat list" where
  "new_nodes (P_lock t) = [t]" | "new_nodes (P_link t) = [t]" | "new_nodes c = []"

fun taken_nodes :: "consumer_pc \<Rightarrow> nat list" where
  "taken_nodes (K_unlock p) = [p]" | "taken_nodes (K_print p) = [p]" | "taken_nodes (K_free p) = [p]"
| "taken_nodes c = []"

text \<open>The one whose data the consumer has still to print.\<close>

fun unprinted :: "consumer_pc \<Rightarrow> nat list" where
  "unprinted (K_unlock p) = [p]" | "unprinted (K_print p) = [p]" | "unprinted c = []"

text \<open>
  The nodes in the list, the producer's new node and the consumer's taken node are distinct and
  allocated; the data not yet printed with what has been printed are the numbers made; the mutex is held by the
  thread whose program counter says so; a consumer about to take has seen a node; and if it waits
  although there is one, the producer is about to signal.
\<close>

definition live_nodes :: "pcstate \<Rightarrow> nat list \<Rightarrow> nat list" where
  "live_nodes s as = new_nodes (ppc s) @ taken_nodes (kpc s) @ as"

definition data_nodes :: "pcstate \<Rightarrow> nat list \<Rightarrow> nat list" where
  "data_nodes s as = new_nodes (ppc s) @ unprinted (kpc s) @ as"

lemma data_live: "set (data_nodes s as) \<subseteq> set (live_nodes s as)"
  by (cases "kpc s") (auto simp: data_nodes_def live_nodes_def)

definition pc_inv :: "pcstate \<Rightarrow> bool" where
  "pc_inv s \<longleftrightarrow> (\<exists>as. chain (heap s) (head s) as \<and> distinct (live_nodes s as)
       \<and> (\<forall>a\<in>set (live_nodes s as). a \<noteq> 0 \<and> heap s a \<noteq> None)
       \<and> mset (map (data_at (heap s)) (data_nodes s as)) + mset (printed s) = mset [0..made s - 1])
     \<and> 0 \<le> made s \<and> made s \<le> INT_MAX
     \<and> (pc_lock s = Some 0 \<longleftrightarrow> (\<exists>t. ppc s = P_link t) \<or> ppc s = P_unlock)
     \<and> (pc_lock s = Some 1 \<longleftrightarrow> kpc s = K_test \<or> kpc s = K_take \<or> (\<exists>p. kpc s = K_unlock p))
     \<and> (kpc s = K_take \<longrightarrow> head s \<noteq> 0)
     \<and> (kpc s = K_wait \<and> head s \<noteq> 0 \<longrightarrow> ppc s = P_unlock \<or> ppc s = P_signal)"

lemma pc_invI:
  assumes "chain (heap s) (head s) as" "distinct (live_nodes s as)" "\<forall>a\<in>set (live_nodes s as). a \<noteq> 0 \<and> heap s a \<noteq> None"
    and "mset (map (data_at (heap s)) (data_nodes s as)) + mset (printed s) = mset [0..made s - 1]"
    and "pc_lock s = Some 0 \<longleftrightarrow> (\<exists>t. ppc s = P_link t) \<or> ppc s = P_unlock"
    and "pc_lock s = Some 1 \<longleftrightarrow> kpc s = K_test \<or> kpc s = K_take \<or> (\<exists>p. kpc s = K_unlock p)"
    and "kpc s = K_take \<longrightarrow> head s \<noteq> 0"
    and "kpc s = K_wait \<and> head s \<noteq> 0 \<longrightarrow> ppc s = P_unlock \<or> ppc s = P_signal"
    and "0 \<le> made s" "made s \<le> INT_MAX"
  shows "pc_inv s"
  unfolding pc_inv_def using assms by blast

lemma pc_invE:
  assumes "pc_inv s"
  obtains as where "chain (heap s) (head s) as" "distinct (live_nodes s as)" "\<forall>a\<in>set (live_nodes s as). a \<noteq> 0 \<and> heap s a \<noteq> None"
    "mset (map (data_at (heap s)) (data_nodes s as)) + mset (printed s) = mset [0..made s - 1]"
    "pc_lock s = Some 0 \<longleftrightarrow> (\<exists>t. ppc s = P_link t) \<or> ppc s = P_unlock"
    "pc_lock s = Some 1 \<longleftrightarrow> kpc s = K_test \<or> kpc s = K_take \<or> (\<exists>p. kpc s = K_unlock p)"
    "kpc s = K_take \<longrightarrow> head s \<noteq> 0"
    "kpc s = K_wait \<and> head s \<noteq> 0 \<longrightarrow> ppc s = P_unlock \<or> ppc s = P_signal"
    "0 \<le> made s" "made s \<le> INT_MAX"
  using assms unfolding pc_inv_def by blast

lemma producer_ok:
  assumes "pc_inv s" "producer a s = Some r"
  shows "case r of
      Inl f \<Rightarrow> ppc s = P_new \<and> (a = 0 \<and> f = Bad_alloc \<or> a \<noteq> 0 \<and> heap s a = None \<and> made s = INT_MAX \<and> f = Signed_overflow)
    | Inr s' \<Rightarrow> pc_inv s'"
proof -
  from assms(1) obtain as where ch: "chain (heap s) (head s) as" and di: "distinct (live_nodes s as)"
    and al: "\<forall>a\<in>set (live_nodes s as). a \<noteq> 0 \<and> heap s a \<noteq> None"
    and da: "mset (map (data_at (heap s)) (data_nodes s as)) + mset (printed s) = mset [0..made s - 1]"
    and lk: "pc_lock s = Some 0 \<longleftrightarrow> (\<exists>t. ppc s = P_link t) \<or> ppc s = P_unlock"
      "pc_lock s = Some 1 \<longleftrightarrow> kpc s = K_test \<or> kpc s = K_take \<or> (\<exists>p. kpc s = K_unlock p)"
    and tk: "kpc s = K_take \<longrightarrow> head s \<noteq> 0"
    and wt: "kpc s = K_wait \<and> head s \<noteq> 0 \<longrightarrow> ppc s = P_unlock \<or> ppc s = P_signal"
    and mk: "0 \<le> made s" "made s \<le> INT_MAX"
    by (rule pc_invE)
  show ?thesis
  proof (cases "ppc s")
    case P_new
    show ?thesis
    proof (cases "a = 0 \<or> made s = INT_MAX")
      case True
      with P_new assms(2) show ?thesis by (auto split: if_splits)
    next
      case False
      let ?h = "(heap s)(a \<mapsto> \<lparr>data = made s, next_node = 0\<rparr>)"
      let ?s = "s\<lparr>heap := ?h, made := made s + 1, ppc := P_lock a\<rparr>"
      from P_new False assms(2) have a: "a \<noteq> 0" "heap s a = None" and r: "r = Inr ?s" by (auto split: if_splits)
      have na: "a \<notin> set (live_nodes s as)" using al a(2) by auto
      have new: "live_nodes ?s as = a # live_nodes s as" "data_nodes ?s as = a # data_nodes s as"
        using P_new by (simp_all add: live_nodes_def data_nodes_def)
      have nd: "a \<notin> set (data_nodes s as)" using na data_live by blast
      have up: "[0..made s] = [0..made s - 1] @ [made s]" using mk(1) by (intro upto_rec2)
      have "data_at ?h a = made s" by (simp add: data_at_def)
      then have "mset (map (data_at ?h) (data_nodes ?s as)) + mset (printed s) = mset [0..made s]"
        using da by (simp only: new list.map data_update [OF nd] up) simp
      moreover have "a \<notin> set as" using na by (simp add: live_nodes_def)
      then have "chain ?h (head s) as" using ch by (simp add: chain_update)
      ultimately have "pc_inv ?s"
        using di al na new lk tk wt P_new a(1) mk False by (intro pc_invI [of _ as]) auto
      with r show ?thesis by simp
    qed
  next
    case (P_lock t)
    let ?s = "s\<lparr>pc_lock := Some 0, ppc := P_link t\<rparr>"
    from P_lock assms(2) have r: "r = Inr ?s" "pc_lock s = None" by (auto simp: enter_def split: if_splits)
    have l: "live_nodes ?s as = live_nodes s as" "data_nodes ?s as = data_nodes s as"
      using P_lock by (simp_all add: live_nodes_def data_nodes_def)
    have "pc_inv ?s" by (rule pc_invI [of _ as]) (use ch di al da lk tk wt l r P_lock mk in auto)
    with r show ?thesis by simp
  next
    case (P_link t)
    then have t: "t \<in> set (live_nodes s as)" by (simp add: live_nodes_def)
    then obtain m where m: "heap s t = Some m" using al by auto
    let ?h = "(heap s)(t \<mapsto> m\<lparr>next_node := head s\<rparr>)"
    let ?s = "s\<lparr>heap := ?h, head := t, ppc := P_unlock\<rparr>"
    from P_link m assms(2) have r: "r = Inr ?s" by simp
    have tn: "t \<notin> set as" "t \<notin> set (taken_nodes (kpc s))" using di P_link by (auto simp: live_nodes_def)
    have d: "data_at ?h b = data_at (heap s) b" for b using m by (simp add: data_at_def)
    have t0: "t \<noteq> 0" using al t by blast
    have c: "chain ?h t (t # as)" using ch t0 tn(1) by (simp add: chain_update)
    have same: "mset (live_nodes ?s (t # as)) = mset (live_nodes s as)"
      and sd: "mset (data_nodes ?s (t # as)) = mset (data_nodes s as)"
      using P_link by (simp_all add: live_nodes_def data_nodes_def)
    have dis: "distinct (live_nodes ?s (t # as))" using mset_eq_imp_distinct_iff [OF same] di by simp
    have st: "set (live_nodes ?s (t # as)) = set (live_nodes s as)" by (rule mset_eq_setD [OF same])
    have "mset (map (data_at ?h) (data_nodes ?s (t # as))) = mset (map (data_at (heap s)) (data_nodes s as))"
      unfolding mset_map sd by (rule image_mset_cong) (rule d)
    then have dat: "mset (map (data_at ?h) (data_nodes ?s (t # as))) + mset (printed s) = mset [0..made s - 1]"
      using da by simp
    have "pc_inv ?s"
      by (rule pc_invI [of _ "t # as"]) (use c dis st dat al lk wt t0 mk P_link in \<open>simp_all add: m\<close>)
    with r show ?thesis by simp
  next
    case P_unlock
    let ?s = "s\<lparr>pc_lock := None, ppc := P_signal\<rparr>"
    from P_unlock assms(2) have r: "r = Inr ?s" by simp
    have l: "live_nodes ?s as = live_nodes s as" "data_nodes ?s as = data_nodes s as"
      using P_unlock by (simp_all add: live_nodes_def data_nodes_def)
    have "pc_inv ?s" by (rule pc_invI [of _ as]) (use ch di al da lk tk wt l r P_unlock mk in auto)
    with r show ?thesis by simp
  next
    case P_signal
    let ?s = "s\<lparr>kpc := (if kpc s = K_wait then K_lock else kpc s), ppc := P_new\<rparr>"
    from P_signal assms(2) have r: "r = Inr ?s" by simp
    have l: "live_nodes ?s as = live_nodes s as" "data_nodes ?s as = data_nodes s as"
      using P_signal by (simp_all add: live_nodes_def data_nodes_def)
    have "pc_inv ?s" by (rule pc_invI [of _ as]) (use ch di al da lk tk wt l r P_signal mk in auto)
    with r show ?thesis by simp
  qed
qed

lemma consumer_ok:
  assumes "pc_inv s" "consumer lax s = Some r"
  shows "case r of
      Inl f \<Rightarrow> (\<exists>p. kpc s = K_free p) \<and> \<not> lax \<and> f = Bad_free
    | Inr s' \<Rightarrow> pc_inv s'"
proof -
  from assms(1) obtain as where ch: "chain (heap s) (head s) as" and di: "distinct (live_nodes s as)"
    and al: "\<forall>a\<in>set (live_nodes s as). a \<noteq> 0 \<and> heap s a \<noteq> None"
    and da: "mset (map (data_at (heap s)) (data_nodes s as)) + mset (printed s) = mset [0..made s - 1]"
    and lk: "pc_lock s = Some 0 \<longleftrightarrow> (\<exists>t. ppc s = P_link t) \<or> ppc s = P_unlock"
      "pc_lock s = Some 1 \<longleftrightarrow> kpc s = K_test \<or> kpc s = K_take \<or> (\<exists>p. kpc s = K_unlock p)"
    and tk: "kpc s = K_take \<longrightarrow> head s \<noteq> 0"
    and wt: "kpc s = K_wait \<and> head s \<noteq> 0 \<longrightarrow> ppc s = P_unlock \<or> ppc s = P_signal"
    and mk: "0 \<le> made s" "made s \<le> INT_MAX"
    by (rule pc_invE)
  show ?thesis
  proof (cases "kpc s")
    case K_lock
    let ?s = "s\<lparr>pc_lock := Some 1, kpc := K_test\<rparr>"
    from K_lock assms(2) have r: "r = Inr ?s" "pc_lock s = None" by (auto simp: enter_def split: if_splits)
    have l: "live_nodes ?s as = live_nodes s as" "data_nodes ?s as = data_nodes s as"
      using K_lock by (simp_all add: live_nodes_def data_nodes_def)
    have "pc_inv ?s" by (rule pc_invI [of _ as]) (use ch di al da lk tk wt l r mk in auto)
    with r show ?thesis by simp
  next
    case K_test
    have h: "pc_lock s = Some 1" using lk K_test by simp
    show ?thesis
    proof (cases "head s = 0")
      case True
      let ?s = "s\<lparr>pc_lock := None, kpc := K_wait\<rparr>"
      from K_test True assms(2) have r: "r = Inr ?s" by simp
      have l: "live_nodes ?s as = live_nodes s as" "data_nodes ?s as = data_nodes s as"
        using K_test by (simp_all add: live_nodes_def data_nodes_def)
      have "pc_inv ?s" by (rule pc_invI [of _ as]) (use ch di al da lk h l True mk in auto)
      with r show ?thesis by simp
    next
      case False
      let ?s = "s\<lparr>kpc := K_take\<rparr>"
      from K_test False assms(2) have r: "r = Inr ?s" by simp
      have l: "live_nodes ?s as = live_nodes s as" "data_nodes ?s as = data_nodes s as"
        using K_test by (simp_all add: live_nodes_def data_nodes_def)
      have "pc_inv ?s" by (rule pc_invI [of _ as]) (use ch di al da lk h l False mk in auto)
      with r show ?thesis by simp
    qed
  next
    case K_take
    have h: "pc_lock s = Some 1" using lk K_take by simp
    from tk K_take ch obtain bs where as: "as = head s # bs" by (cases as) auto
    with ch obtain m where m: "heap s (head s) = Some m" "chain (heap s) (next_node m) bs" "head s \<noteq> 0"
      by (auto split: option.splits)
    let ?s = "s\<lparr>head := next_node m, kpc := K_unlock (head s)\<rparr>"
    from K_take m assms(2) have r: "r = Inr ?s" by simp
    have same: "mset (live_nodes ?s bs) = mset (live_nodes s as)" and sd: "mset (data_nodes ?s bs) = mset (data_nodes s as)"
      using K_take as by (simp_all add: live_nodes_def data_nodes_def)
    have dis: "distinct (live_nodes ?s bs)" using mset_eq_imp_distinct_iff [OF same] di by simp
    have st: "set (live_nodes ?s bs) = set (live_nodes s as)" by (rule mset_eq_setD [OF same])
    have dat: "mset (map (data_at (heap s)) (data_nodes ?s bs)) + mset (printed s) = mset [0..made s - 1]"
      using da unfolding mset_map sd .
    have "pc_inv ?s"
      by (rule pc_invI [of _ bs]) (use m dis st dat al lk h mk in \<open>simp_all\<close>)
    with r show ?thesis by simp
  next
    case K_wait
    with assms(2) show ?thesis by simp
  next
    case (K_unlock p)
    have h: "pc_lock s = Some 1" using lk K_unlock by simp
    let ?s = "s\<lparr>pc_lock := None, kpc := K_print p\<rparr>"
    from K_unlock assms(2) have r: "r = Inr ?s" by simp
    have l: "live_nodes ?s as = live_nodes s as" "data_nodes ?s as = data_nodes s as"
      using K_unlock by (simp_all add: live_nodes_def data_nodes_def)
    have "pc_inv ?s" by (rule pc_invI [of _ as]) (use ch di al da lk h l mk in auto)
    with r show ?thesis by simp
  next
    case (K_print p)
    then have p: "p \<in> set (live_nodes s as)" by (simp add: live_nodes_def)
    then obtain m where m: "heap s p = Some m" using al by auto
    let ?s = "s\<lparr>printed := printed s @ [data m], kpc := K_free p\<rparr>"
    from K_print m assms(2) have r: "r = Inr ?s" by simp
    have l: "live_nodes ?s as = live_nodes s as" using K_print by (simp add: live_nodes_def)
    have sd: "mset (data_nodes s as) = add_mset p (mset (data_nodes ?s as))" using K_print by (simp add: data_nodes_def)
    have d: "data_at (heap s) p = data m" using m by (simp add: data_at_def)
    have dat: "mset (map (data_at (heap s)) (data_nodes ?s as)) + mset (printed ?s) = mset [0..made s - 1]"
      using da unfolding mset_map sd by (simp add: d)
    have "pc_inv ?s"
      by (rule pc_invI [of _ as]) (use ch dat di al l lk mk K_print in simp_all)
    with r show ?thesis by simp
  next
    case (K_free p)
    then have p: "p \<in> set (live_nodes s as)" by (simp add: live_nodes_def)
    then have hp: "heap s p \<noteq> None" using al by blast
    show ?thesis
    proof (cases lax)
      case False
      with K_free assms(2) show ?thesis by auto
    next
      case True
      let ?h = "(heap s)(p := None)"
      let ?s = "s\<lparr>heap := ?h, kpc := K_lock\<rparr>"
      from K_free True hp assms(2) have r: "r = Inr ?s" by auto
      have same: "mset (live_nodes s as) = add_mset p (mset (live_nodes ?s as))" and sd: "data_nodes ?s as = data_nodes s as"
        using K_free by (simp_all add: live_nodes_def data_nodes_def)
      have dis: "distinct (live_nodes ?s as)" "p \<notin> set (live_nodes ?s as)"
        using di K_free by (auto simp: live_nodes_def)
      have st: "set (live_nodes s as) = insert p (set (live_nodes ?s as))"
        using arg_cong [OF same, of set_mset] by simp
      have "p \<notin> set (data_nodes ?s as)" using dis(2) data_live by blast
      then have dat: "mset (map (data_at ?h) (data_nodes ?s as)) + mset (printed s) = mset [0..made s - 1]"
        using da unfolding sd by (simp add: data_update)
      have "p \<notin> set as" using dis(2) by (simp add: live_nodes_def)
      then have c: "chain ?h (head s) as" using ch by (simp add: chain_update)
      have al': "\<forall>a\<in>set (live_nodes ?s as). a \<noteq> 0 \<and> ?h a \<noteq> None" using al st dis(2) by auto
      have "pc_inv ?s"
        by (rule pc_invI [of _ as]) (use c dis dat al' lk mk K_free in simp_all)
      with r show ?thesis by simp
    qed
  qed
qed

lemma wake_ok: "pc_inv s \<Longrightarrow> kpc s = K_wait \<Longrightarrow> pc_inv (s\<lparr>kpc := K_lock\<rparr>)"
proof -
  assume inv: "pc_inv s" and k: "kpc s = K_wait"
  from inv obtain as where
    f: "chain (heap s) (head s) as" "distinct (live_nodes s as)" "\<forall>a\<in>set (live_nodes s as). a \<noteq> 0 \<and> heap s a \<noteq> None"
      "mset (map (data_at (heap s)) (data_nodes s as)) + mset (printed s) = mset [0..made s - 1]"
      "pc_lock s = Some 0 \<longleftrightarrow> (\<exists>t. ppc s = P_link t) \<or> ppc s = P_unlock"
      "pc_lock s = Some 1 \<longleftrightarrow> kpc s = K_test \<or> kpc s = K_take \<or> (\<exists>p. kpc s = K_unlock p)"
      "0 \<le> made s" "made s \<le> INT_MAX"
    by (rule pc_invE)
  have l: "live_nodes (s\<lparr>kpc := K_lock\<rparr>) as = live_nodes s as" "data_nodes (s\<lparr>kpc := K_lock\<rparr>) as = data_nodes s as"
    using k by (simp_all add: live_nodes_def data_nodes_def)
  show ?thesis by (rule pc_invI [of _ as]) (use f k l in auto)
qed

text \<open>The three ways to fault.\<close>

definition pc_faults :: "bool \<Rightarrow> pclabel \<Rightarrow> pcstate \<Rightarrow> fault \<Rightarrow> bool" where
  "pc_faults lax l s f \<longleftrightarrow>
     (case l of
        Producer a \<Rightarrow> ppc s = P_new \<and>
          (a = 0 \<and> f = Bad_alloc \<or> a \<noteq> 0 \<and> heap s a = None \<and> made s = INT_MAX \<and> f = Signed_overflow)
      | Consumer \<Rightarrow> (\<exists>p. kpc s = K_free p) \<and> \<not> lax \<and> f = Bad_free
      | Wake_up \<Rightarrow> False)"

lemma pc_step_ok:
  assumes "pc_inv s" "pc_step lax l s = Some r"
  shows "case r of Inl f \<Rightarrow> pc_faults lax l s f | Inr s' \<Rightarrow> pc_inv s'"
proof (cases l)
  case (Producer a)
  with producer_ok [OF assms(1), of a r] assms(2) show ?thesis by (auto simp: pc_faults_def split: sum.splits)
next
  case Consumer
  with consumer_ok [OF assms(1), of lax r] assms(2) show ?thesis by (auto simp: pc_faults_def split: sum.splits)
next
  case Wake_up
  with assms wake_ok show ?thesis by (auto split: if_splits)
qed

lemma pc_inv_start: "pc_inv pc_main"
  by (rule pc_invI [of _ "[]"]) (simp_all add: pc_main_def live_nodes_def data_nodes_def INT_MAX_def)

interpretation pc_prog: inductive_invariant "\<lambda>s. s = pc_main" "fires (pc_step lax)" pc_inv for lax
proof
  show "pc_inv s'" if "pc_inv s" "fires (pc_step lax) l s s'" for s l s'
    using pc_step_ok [OF that(1), of lax l "Inr s'"] that(2) by (simp add: fires_def)
qed (simp add: pc_inv_start)

abbreviation pc_reach :: "bool \<Rightarrow> pcstate \<Rightarrow> bool" where
  "pc_reach lax \<equiv> reach (\<lambda>s. s = pc_main) (fires (pc_step lax))"

section \<open>Properties\<close>

text \<open>C35. The producer and the consumer, for every interleaving: a step faults exactly when the allocation throws, when
  the producer's \<open>int\<close> counter is to be increased at \<open>INT_MAX\<close> (the loop is endless), or when the consumer frees the node
  made with \<open>new\<close> and the implementation does not let it; so no null pointer is followed, no freed node touched, and
  none freed twice. The counter stays an \<open>int\<close>, and every number is printed at most once: what has been printed is,
  counted with multiplicity, part of the numbers made.\<close>

theorem pc_safe:
  assumes "pc_reach lax s"
  shows "(pc_step lax l s = Some (Inl f)) =
      (case l of
         Producer a \<Rightarrow> ppc s = P_new \<and>
           (a = 0 \<and> f = Bad_alloc \<or> a \<noteq> 0 \<and> heap s a = None \<and> made s = INT_MAX \<and> f = Signed_overflow)
       | Consumer \<Rightarrow> (\<exists>p. kpc s = K_free p) \<and> \<not> lax \<and> f = Bad_free
       | Wake_up \<Rightarrow> False)
    \<and> 0 \<le> made s \<and> made s \<le> INT_MAX
    \<and> mset (printed s) \<subseteq># mset [0..made s - 1] \<and> distinct (printed s)"
proof -
  have inv: "pc_inv s" by (rule pc_prog.inv_reach [OF assms])
  then obtain as where eq: "mset (map (data_at (heap s)) (data_nodes s as)) + mset (printed s) = mset [0..made s - 1]"
    and mk: "0 \<le> made s" "made s \<le> INT_MAX"
    by (rule pc_invE)
  from eq have sub: "mset (printed s) \<subseteq># mset [0..made s - 1]" by (metis mset_subset_eq_add_right)
  from eq have "mset (map (data_at (heap s)) (data_nodes s as) @ printed s) = mset [0..made s - 1]"
    by simp
  from mset_eq_imp_distinct_iff [OF this] have "distinct (printed s)" by simp
  moreover have "pc_step lax l s = Some (Inl f) \<longleftrightarrow> pc_faults lax l s f"
  proof
    assume "pc_step lax l s = Some (Inl f)"
    from pc_step_ok [OF inv this] show "pc_faults lax l s f" by simp
  next
    assume "pc_faults lax l s f"
    then show "pc_step lax l s = Some (Inl f)" by (cases l) (auto simp: pc_faults_def)
  qed
  ultimately show ?thesis using sub mk unfolding pc_faults_def by blast
qed

text \<open>One number made and linked while the consumer waits; then the producer signals.\<close>

definition pc_run :: "pclabel list" where
  "pc_run = [Consumer, Consumer, Producer 9, Producer 9, Producer 9, Producer 9]"

definition pc_mid :: pcstate where
  "pc_mid = pc_main\<lparr>heap := [9 \<mapsto> \<lparr>data = 0, next_node = 0\<rparr>], head := 9, made := 1, ppc := P_signal, kpc := K_wait\<rparr>"

lemma pc_mid_run: "run (pc_step lax) pc_run pc_main = Some pc_mid"
  by (simp add: pc_run_def pc_main_def pc_mid_def enter_def INT_MAX_def fun_eq_iff)

lemma pc_mid_reach: "pc_reach lax pc_mid"
  by (rule run_reach [OF pc_mid_run]) (rule reach_init, rule refl)

theorem pc_safe_witness: "pc_step True Consumer pc_mid \<noteq> Some (Inl Null_deref) \<and> distinct (printed pc_mid)"
  using pc_safe [OF pc_mid_reach, of True Consumer Null_deref] by simp

text \<open>Where \<open>free\<close> insists on \<open>malloc\<close>, the first node is printed and its release faults.\<close>

lemma free_of_new:
  "\<exists>s. pc_reach False s \<and> printed s = [0] \<and> pc_step False Consumer s = Some (Inl Bad_free)"
proof -
  let ?s = "pc_mid\<lparr>head := 0, ppc := P_new, kpc := K_free 9, printed := [0]\<rparr>"
  have "run (pc_step False) (Producer 9 # replicate 5 Consumer) pc_mid = Some ?s"
    by (simp add: pc_main_def pc_mid_def enter_def numeral_eq_Suc)
  then have "pc_reach False ?s" by (rule run_reach) (rule pc_mid_reach)
  then show ?thesis by (intro exI [of _ ?s]) simp
qed

text \<open>No lost wake-up: the consumer waits while there is a node in the list only until the producer,
  which has just linked it and is about to unlock or to signal, wakes it.\<close>

theorem pc_wakes:
  assumes "pc_reach lax s" "kpc s = K_wait" "head s \<noteq> 0"
  shows "ppc s = P_unlock \<or> ppc s = P_signal"
proof -
  have "pc_inv s" by (rule pc_prog.inv_reach [OF assms(1)])
  with assms(2,3) show ?thesis unfolding pc_inv_def by blast
qed

theorem pc_wakes_witness: "ppc pc_mid = P_signal"
  using pc_wakes [OF pc_mid_reach] by (simp add: pc_mid_def)

end
