(* ===== verification/File_Tools.thy ===== *)
theory File_Tools
  imports Prelude
begin

text \<open>
  The small file programs: the copy loop of src/bases/mycp.cpp, the copy by five threads of
  src/thread/multhread_copy/main.cpp, and the recursive listing of src/bases/myls.cpp.
\<close>

type_synonym bytes = "8 word list"

section \<open>mycp\<close>

text \<open>
  The \<open>i\<close>-th call of \<open>read\<close> returns a number and, if it is positive, so many bytes in the buffer. The
  loop ends when it returns 0; the result is what has been written to the target. Writing -1 bytes,
  after a failed read, writes nothing.
\<close>

partial_function (option) mycp_loop :: "(nat \<Rightarrow> int \<times> bytes) \<Rightarrow> nat \<Rightarrow> bytes \<Rightarrow> bytes option" where
  "mycp_loop rd i out =
     (let (n, buf) = rd i in
      if n \<noteq> 0 then mycp_loop rd (Suc i) (if 0 < n then out @ take (nat n) buf else out) else Some out)"

text \<open>\<open>read\<close> on a regular file, 1024 bytes at a time.\<close>

definition read_file :: "bytes \<Rightarrow> nat \<Rightarrow> int \<times> bytes" where
  "read_file src i = (let d = take 1024 (drop (1024 * i) src) in (int (length d), d))"

definition mycp :: "(nat \<Rightarrow> int \<times> bytes) \<Rightarrow> bytes option" where
  "mycp rd = mycp_loop rd 0 []"

lemma take_chunk: "take 1024 (drop (1024 * i) xs) @ drop (1024 * Suc i) xs = drop (1024 * i) xs"
proof -
  have "drop (1024 * Suc i) xs = drop 1024 (drop (1024 * i) xs)" by simp
  then show ?thesis by (simp only: append_take_drop_id)
qed

lemma mycp_loop_file: "mycp_loop (read_file src) i out = Some (out @ drop (1024 * i) src)"
proof (induction "length src - 1024 * i" arbitrary: i out rule: less_induct)
  case less
  define d where "d = take 1024 (drop (1024 * i) src)"
  have r: "read_file src i = (int (length d), d)" by (simp add: read_file_def d_def Let_def)
  show ?case
  proof (cases "1024 * i < length src")
    case True
    then have "length src - 1024 * Suc i < length src - 1024 * i" by simp
    note ih = less [OF this, of "out @ d"]
    from True have ne: "d \<noteq> []" by (simp add: d_def)
    then have "mycp_loop (read_file src) i out = mycp_loop (read_file src) (Suc i) (out @ d)"
      by (subst mycp_loop.simps) (simp add: r)
    also have "\<dots> = Some (out @ d @ drop (1024 * Suc i) src)" using ih by (simp only: append_assoc)
    finally show ?thesis by (simp only: d_def take_chunk)
  next
    case False
    then show ?thesis by (subst mycp_loop.simps) (simp add: read_file_def)
  qed
qed

lemma mycp_loop_ends:
  assumes "mycp_loop rd i out = Some r"
  shows "\<exists>j. fst (rd j) = 0"
proof (rule mycp_loop.raw_induct [rotated, OF assms])
  fix f rd i out and r :: bytes
  assume ih: "\<And>rd i out r. f rd i out = Some r \<Longrightarrow> \<exists>j. fst (rd j) = (0::int)"
    and "(let (n, buf) = rd i in
      if n \<noteq> 0 then f rd (Suc i) (if 0 < n then out @ take (nat n) buf else out) else Some out) = Some r"
  then show "\<exists>j. fst (rd j) = (0::int)"
    by (cases "fst (rd i) = 0") (auto simp: Let_def case_prod_beta)
qed

section \<open>The copy by five threads\<close>

text \<open>What one thread is given: where its block starts and how long it is.\<close>

record pos =
  blockSize :: int
  offset :: int

definition block :: "int \<Rightarrow> nat \<Rightarrow> pos" where
  "block len i = (let b = len div 5 in \<lparr>blockSize = b, offset = int i * b\<rparr>)"

definition tail_block :: "int \<Rightarrow> pos" where
  "tail_block len = (let b = len div 5; off = b * 4 in \<lparr>blockSize = len - off, offset = off\<rparr>)"

definition blocks :: "int \<Rightarrow> pos list" where
  "blocks len = map (block len) [0..<4] @ [tail_block len]"

text \<open>
  Seeking to an offset and writing there: a gap after the old end reads as zeros, and writing
  nothing changes nothing. The target is opened without truncating it.
\<close>

definition write_at :: "nat \<Rightarrow> bytes \<Rightarrow> bytes \<Rightarrow> bytes" where
  "write_at off d file =
     (if d = [] then file
      else take off (file @ replicate (off - length file) 0) @ d @ drop (off + length d) file)"

text \<open>
  \<open>copy_fun ptr n p\<close> is the thread's function \<open>fun\<close> where its \<open>write\<close> takes the first \<open>n\<close> bytes it is given (all of
  them if there are not more): none when the file cannot be opened or the write fails, which the code does not look at.
\<close>

definition copy_fun :: "bytes \<Rightarrow> nat \<Rightarrow> pos \<Rightarrow> bytes \<Rightarrow> bytes" where
  "copy_fun ptr n p desc =
     write_at (nat (offset p)) (take n (take (nat (blockSize p)) (drop (nat (offset p)) ptr))) desc"

text \<open>
  The length of the source is kept in an \<open>int\<close> of 32 bits; \<open>main\<close> joins each thread before it creates
  the next, so the five copies happen one after the other. \<open>w i\<close> is how much the write of thread \<open>i\<close> takes.
\<close>

definition c_int :: "int \<Rightarrow> int" where
  "c_int x = signed_take_bit 31 x"

definition multhread_copy :: "bytes \<Rightarrow> (nat \<Rightarrow> nat) \<Rightarrow> bytes \<Rightarrow> bytes" where
  "multhread_copy src w desc =
     fold (\<lambda>i. copy_fun src (w i) (blocks (c_int (int (length src))) ! i)) [0..<5] desc"

lemma length_write_at: "length (write_at off d f) = (if d = [] then length f else max (length f) (off + length d))"
  by (cases "off \<le> length f") (auto simp: write_at_def max_def)

lemma nth_write_at:
  assumes k: "k < length (write_at off d f)"
  shows "write_at off d f ! k =
     (if off \<le> k \<and> k < off + length d then d ! (k - off) else if k < length f then f ! k else 0)"
proof (cases "d = []")
  case True
  with k show ?thesis by (auto simp: write_at_def)
next
  case False
  let ?pre = "take off (f @ replicate (off - length f) 0)"
  have pre: "length ?pre = off" by simp
  from False have w: "write_at off d f = ?pre @ d @ drop (off + length d) f" by (simp add: write_at_def)
  consider "k < off" | "off \<le> k" "k < off + length d" | "off + length d \<le> k" by linarith
  then show ?thesis
  proof cases
    case 1
    then have "write_at off d f ! k = (f @ replicate (off - length f) 0) ! k"
      unfolding w by (simp only: nth_append pre if_True nth_take)
    with 1 show ?thesis by (simp add: nth_append)
  next
    case 2
    then have "write_at off d f ! k = d ! (k - off)"
      unfolding w using 2 by (simp only: nth_append pre) auto
    with 2 show ?thesis by simp
  next
    case 3
    then have "write_at off d f ! k = drop (off + length d) f ! (k - off - length d)"
      unfolding w using 3 by (simp only: nth_append pre) auto
    moreover have "k < length f" using k 3 False by (simp add: length_write_at split: if_splits)
    ultimately show ?thesis using 3 by simp
  qed
qed

text \<open>A block covers the positions it writes; the five blocks cover the source.\<close>

definition covers :: "pos \<Rightarrow> nat \<Rightarrow> bool" where
  "covers p k \<longleftrightarrow> nat (offset p) \<le> k \<and> k < nat (offset p) + nat (blockSize p)"

definition in_source :: "nat \<Rightarrow> pos \<Rightarrow> bool" where
  "in_source n p \<longleftrightarrow> nat (offset p) + nat (blockSize p) \<le> n"

text \<open>A block whose write is complete, and a block cut to what its write takes.\<close>

definition whole :: "bytes \<Rightarrow> pos \<Rightarrow> bytes \<Rightarrow> bytes" where
  "whole src p = copy_fun src (nat (blockSize p)) p"

definition cut :: "nat \<Rightarrow> pos \<Rightarrow> pos" where
  "cut n p = p\<lparr>blockSize := min (int n) (blockSize p)\<rparr>"

lemma copy_cut: "copy_fun src n p = whole src (cut n p)"
proof
  fix f
  have "nat (min (int n) (blockSize p)) = min n (nat (blockSize p))" by linarith
  then show "copy_fun src n p f = whole src (cut n p) f"
    by (simp add: whole_def copy_fun_def cut_def min.commute min.left_commute)
qed

lemma cut_inside: "in_source n p \<Longrightarrow> in_source n (cut m p)"
  by (auto simp: in_source_def cut_def)

lemma covers_cut: "covers (cut n p) k \<longleftrightarrow> covers p k \<and> k < nat (offset p) + n"
  by (auto simp: covers_def cut_def)

lemma length_whole:
  assumes "in_source (length src) p"
  shows "length (whole src p f) = (if nat (blockSize p) = 0 then length f
      else max (length f) (nat (offset p) + nat (blockSize p)))"
  using assms unfolding whole_def copy_fun_def length_write_at by (auto simp: in_source_def)

lemma nth_whole:
  assumes "in_source (length src) p" "k < length (whole src p f)"
  shows "whole src p f ! k = (if covers p k then src ! k else if k < length f then f ! k else 0)"
proof -
  define d where "d = take (nat (blockSize p)) (drop (nat (offset p)) src)"
  have len: "length d = nat (blockSize p)" using assms(1) by (simp add: d_def in_source_def)
  have nth: "covers p k \<Longrightarrow> d ! (k - nat (offset p)) = src ! k"
    using assms(1) by (auto simp: d_def in_source_def covers_def)
  have c: "whole src p f = write_at (nat (offset p)) d f" by (simp add: whole_def copy_fun_def d_def)
  show ?thesis using nth_write_at [OF assms(2) [unfolded c]] nth unfolding c len covers_def by simp
qed

lemma copy_blocks:
  assumes "\<forall>p\<in>set ps. in_source (length src) p"
  shows "length desc \<le> length (fold (whole src) ps desc)
    \<and> length (fold (whole src) ps desc) \<le> max (length desc) (length src)
    \<and> (\<forall>k. (\<exists>p\<in>set ps. covers p k) \<longrightarrow> k < length (fold (whole src) ps desc))
    \<and> (\<forall>k<length (fold (whole src) ps desc). fold (whole src) ps desc ! k =
         (if \<exists>p\<in>set ps. covers p k then src ! k else if k < length desc then desc ! k else 0))"
  using assms
proof (induction ps rule: rev_induct)
  case (snoc p ps)
  let ?f = "fold (whole src) ps desc"
  from snoc.prems have p: "in_source (length src) p" and ih: "length desc \<le> length ?f"
    "length ?f \<le> max (length desc) (length src)"
    "\<And>k q. q \<in> set ps \<Longrightarrow> covers q k \<Longrightarrow> k < length ?f"
    "\<And>k. k < length ?f \<Longrightarrow> ?f ! k = (if \<exists>p\<in>set ps. covers p k then src ! k else if k < length desc then desc ! k else 0)"
    using snoc.IH by auto
  note cf = length_whole [OF p, where f = ?f] nth_whole [OF p, where f = ?f]
  have len: "length ?f \<le> length (whole src p ?f)" "length (whole src p ?f) \<le> max (length desc) (length src)"
    using cf(1) ih(2) p by (auto simp: in_source_def)
  have cov: "k < length (whole src p ?f)" if "covers p k" for k
    using that cf(1) by (auto simp: covers_def)
  have "k < length (whole src p ?f)" if q: "q \<in> set (ps @ [p])" "covers q k" for q k
    using q cov ih(3) [of q k] len(1) by (auto intro: less_le_trans)
  moreover have "whole src p ?f ! k = (if \<exists>q\<in>set (ps @ [p]). covers q k then src ! k else if k < length desc then desc ! k else 0)"
    if k: "k < length (whole src p ?f)" for k
  proof (cases "k < length ?f")
    case True
    with cf(2) [OF k] ih(4) show ?thesis by simp
  next
    case False
    with ih(1,3) have "\<not> k < length desc" "\<not> (\<exists>q\<in>set ps. covers q k)" by auto
    with cf(2) [OF k] False show ?thesis by simp
  qed
  moreover have "length desc \<le> length (whole src p ?f)" using ih(1) len(1) by simp
  ultimately show ?case using len(2) by auto
qed simp

lemma blocks_cover:
  assumes "k < n"
  shows "\<exists>p\<in>set (blocks (int n)). covers p k"
proof -
  let ?b = "n div 5"
  have b: "nat (int n div 5) = ?b" by (simp add: nat_div_distrib)
  show ?thesis
  proof (cases "k < 4 * ?b")
    case True
    then have "?b > 0" by (cases "?b") auto
    let ?i = "k div ?b"
    have i: "?i < 4" using True \<open>?b > 0\<close> by (simp add: div_less_iff_less_mult)
    have "?i * ?b \<le> k" by simp
    moreover have "k < ?i * ?b + ?b" using div_mult_mod_eq [of k ?b] mod_less_divisor [OF \<open>?b > 0\<close>, of k] by linarith
    ultimately
 have "covers (block (int n) ?i) k"
      by (simp add: covers_def block_def Let_def nat_mult_distrib b)
    with i show ?thesis by (auto simp: blocks_def)
  next
    case False
    have "covers (tail_block (int n)) k"
      using False assms by (simp add: covers_def tail_block_def Let_def b nat_diff_distrib nat_mult_distrib)
    then show ?thesis by (auto simp: blocks_def)
  qed
qed

lemma blocks_length: "length (blocks n) = 5"
  by (simp add: blocks_def)

lemma blocks_inside: "p \<in> set (blocks (int n)) \<Longrightarrow> in_source n p"
proof -
  assume p: "p \<in> set (blocks (int n))"
  let ?b = "n div 5"
  have b: "nat (int n div 5) = ?b" by (simp add: nat_div_distrib)
  from p consider i where "i < 4" "p = block (int n) i" | "p = tail_block (int n)"
    by (auto simp: blocks_def)
  then show ?thesis
  proof cases
    case (1 i)
    then have "i * ?b + ?b \<le> 4 * ?b" by (metis Suc_leI add.commute mult_Suc mult_le_mono1)
    also have "\<dots> \<le> n" by simp
    finally show ?thesis using 1 by (simp add: in_source_def block_def Let_def b nat_mult_distrib)
  next
    case 2
    then show ?thesis by (simp add: in_source_def tail_block_def Let_def b nat_mult_distrib nat_diff_distrib)
  qed
qed

lemma multhread_blocks:
  assumes "length src < 2 ^ 31"
  shows "multhread_copy src w desc =
      fold (whole src) (map (\<lambda>i. cut (w i) (blocks (int (length src)) ! i)) [0..<5]) desc"
proof -
  have int: "c_int (int (length src)) = int (length src)"
    unfolding c_int_def by (rule signed_take_bit_int_eq_self) (use assms in simp_all)
  show ?thesis unfolding multhread_copy_def int copy_cut fold_map comp_def ..
qed

text \<open>C36. The copy by five threads writes the source over the beginning of the target: whatever the length of the source
  below \<open>2 ^ 31\<close>, if every write takes all it is given then the five blocks cover the source with no gap and leave what
  the target had beyond it. Since the target is opened without O_TRUNC, the result is the source only if the old target
  was not longer. If writes fall short or fail, which nothing checks, a byte is the source's exactly where the write of
  some block got to it, elsewhere the old target's, or zero in a gap.\<close>

theorem multhread_copy_result:
  assumes "length src < 2 ^ 31"
  shows "((\<forall>i<5. nat (blockSize (blocks (int (length src)) ! i)) \<le> w i) \<longrightarrow>
      multhread_copy src w desc = src @ drop (length src) desc)
    \<and> (\<forall>k<length (multhread_copy src w desc). multhread_copy src w desc ! k =
        (if \<exists>i<5. let p = blocks (int (length src)) ! i in
              nat (offset p) \<le> k \<and> k < nat (offset p) + min (w i) (nat (blockSize p)) then src ! k
         else if k < length desc then desc ! k else 0))"
proof -
  let ?B = "blocks (int (length src))"
  let ?ps = "map (\<lambda>i. cut (w i) (?B ! i)) [0..<5]"
  have mem: "?B ! i \<in> set ?B" if "i < 5" for i using that blocks_length by simp
  have ins: "\<forall>p\<in>set ?ps. in_source (length src) p"
  proof -
    have "in_source (length src) (?B ! i)" if "i < 5" for i by (rule blocks_inside [OF mem [OF that]])
    then show ?thesis by (auto intro: cut_inside)
  qed
  have mc: "multhread_copy src w desc = fold (whole src) ?ps desc" by (rule multhread_blocks [OF assms])
  note c = copy_blocks [OF ins, of desc, folded mc]
  have cov: "(\<exists>p\<in>set ?ps. covers p k) \<longleftrightarrow>
      (\<exists>i<5. let p = ?B ! i in nat (offset p) \<le> k \<and> k < nat (offset p) + min (w i) (nat (blockSize p)))" for k
  proof -
    have one: "covers (cut (w i) (?B ! i)) k \<longleftrightarrow> (let p = ?B ! i in
        nat (offset p) \<le> k \<and> k < nat (offset p) + min (w i) (nat (blockSize p)))" for i
      unfolding covers_cut unfolding covers_def Let_def by auto
    show ?thesis by (simp only: one [symmetric]) auto
  qed
  have "multhread_copy src w desc = src @ drop (length src) desc"
    if full: "\<forall>i<5. nat (blockSize (?B ! i)) \<le> w i"
  proof (rule nth_equalityI)
    have covered: "\<exists>p\<in>set ?ps. covers p k" if "k < length src" for k
    proof -
      from blocks_cover [OF that] obtain i where i: "i < 5" "covers (?B ! i) k"
        using blocks_length by (metis in_set_conv_nth)
      from full i(1) have "nat (blockSize (?B ! i)) \<le> w i" by blast
      with i(2) have "k < nat (offset (?B ! i)) + w i" by (auto simp: covers_def)
      with i(2) have "covers (cut (w i) (?B ! i)) k" by (simp only: covers_cut)
      with i(1) show ?thesis by auto
    qed
    have lower: "length src \<le> length (multhread_copy src w desc)"
    proof (cases "length src")
      case (Suc n)
      then have "n < length src" by simp
      from covered [OF this] c have "n < length (multhread_copy src w desc)" by blast
      with Suc show ?thesis by simp
    qed simp
    show len: "length (multhread_copy src w desc) = length (src @ drop (length src) desc)"
      using c lower by (simp add: max_def split: if_splits)
    fix k assume k: "k < length (multhread_copy src w desc)"
    show "multhread_copy src w desc ! k = (src @ drop (length src) desc) ! k"
    proof (cases "k < length src")
      case True
      with covered [OF this] c k show ?thesis by (auto simp: nth_append)
    next
      case False
      then have "\<not> (\<exists>p\<in>set ?ps. covers p k)"
        using ins unfolding in_source_def covers_def by (meson le_less_trans not_le order_less_le_trans)
      moreover from k False len have "k < length desc" by (simp split: if_splits)
      ultimately have "multhread_copy src w desc ! k = desc ! k" using c k by auto
      with False \<open>k < length desc\<close> show ?thesis by (simp add: nth_append)
    qed
  qed
  with c show ?thesis unfolding cov by blast
qed

theorem multhread_copy_result_witness:
  "multhread_copy [1, 2, 3, 4, 5, 6, 7] (\<lambda>i. 9) [] = [1, 2, 3, 4, 5, 6, 7]
   \<and> multhread_copy [1, 2, 3] (\<lambda>i. 9) [9, 9, 9, 8, 8] = [1, 2, 3, 8, 8]"
proof -
  have "\<forall>i<5. nat (blockSize (blocks 7 ! i)) \<le> 9" "\<forall>i<5. nat (blockSize (blocks 3 ! i)) \<le> 9"
    by (simp_all add: blocks_def block_def tail_block_def upt_rec less_Suc_eq numeral_eq_Suc)
  then show ?thesis
    using multhread_copy_result [of "[1, 2, 3, 4, 5, 6, 7]" "\<lambda>i. 9" "[]"]
      multhread_copy_result [of "[1, 2, 3]" "\<lambda>i. 9" "[9, 9, 9, 8, 8]"]
    by simp
qed

text \<open>The copy loop of mycp returns the source on a regular file, whatever its size; and it never
  returns when \<open>read\<close> never returns 0, in particular when every read fails with -1.\<close>

theorem mycp_copies:
  "mycp (read_file src) = Some src \<and> ((\<forall>i. fst (rd i) \<noteq> 0) \<longrightarrow> mycp rd = None)"
proof
  show "mycp (read_file src) = Some src" unfolding mycp_def by (simp add: mycp_loop_file)
  show "(\<forall>i. fst (rd i) \<noteq> 0) \<longrightarrow> mycp rd = None"
    unfolding mycp_def using mycp_loop_ends [of rd 0 "[]"] by (cases "mycp_loop rd 0 []") auto
qed

theorem mycp_copies_witness: "mycp (\<lambda>i. (- 1, [])) = None \<and> mycp (read_file [1, 2]) = Some [1, 2]"
  using mycp_copies [of "[1, 2]" "\<lambda>i. (- 1, [])"] by simp

section \<open>myls\<close>

text \<open>
  A directory as \<open>readdir\<close> delivers it: an entry, its name and what \<open>stat\<close> finds there, after the other.
  A directory may refuse to be opened, and \<open>stat\<close> may fail on an entry. (\<open>stat\<close> follows links; a tree
  that a link closes to a cycle is not among these.)
\<close>

datatype inode = Reg int | Dir int bool dirents | No_stat
and dirents = No_more | Dirent string inode dirents

datatype line = Entry int string | Opendir_error | Stat_error

text \<open>
  \<open>isFile\<close> prints a file after the contents of it; \<open>read_dir\<close> calls \<open>isFile\<close> on every entry but "." and
  "..", and then calls it again through the function it was given, which is always \<open>isFile\<close>. The path
  is printed into an array of 256 bytes. The first argument is how many descriptors the process can
  still open: \<open>opendir\<close> takes one, and fails when there is none; \<open>read_dir\<close> returns without a
  \<open>closedir\<close>, so none comes back. The result is what has been printed and the descriptors left.
\<close>

primrec isFile :: "nat \<Rightarrow> string \<Rightarrow> inode \<Rightarrow> (line list \<times> nat) outcome"
and read_dir :: "nat \<Rightarrow> string \<Rightarrow> dirents \<Rightarrow> (line list \<times> nat) outcome" where
  "isFile n name (Reg sz) = Inr ([Entry sz name], n)"
| "isFile n name (Dir sz ok es) =
     obind (if ok \<and> 0 < n then read_dir (n - 1) name es else Inr ([Opendir_error], n))
       (\<lambda>(out, m). Inr (out @ [Entry sz name], m))"
| "isFile n name No_stat = Inr ([Stat_error], n)"
| "read_dir n dir No_more = Inr ([], n)"
| "read_dir n dir (Dirent d_name f es) =
     (if d_name = ''.'' \<or> d_name = ''..'' then read_dir n dir es
      else let path = dir @ ''/'' @ d_name in
        if 256 \<le> length path then Inl Out_of_bounds
        else obind (isFile n path f) (\<lambda>(a, n1). obind (isFile n1 path f) (\<lambda>(b, n2).
          obind (read_dir n2 dir es) (\<lambda>(c, n3). Inr (a @ b @ c, n3)))))"

text \<open>What there is to print, once, with the depth below the start; and how many descriptors it takes.\<close>

primrec listing :: "nat \<Rightarrow> string \<Rightarrow> inode \<Rightarrow> (nat \<times> line) list"
and listing_dir :: "nat \<Rightarrow> string \<Rightarrow> dirents \<Rightarrow> (nat \<times> line) list" where
  "listing k name (Reg sz) = [(k, Entry sz name)]"
| "listing k name (Dir sz ok es) =
     (if ok then listing_dir (Suc k) name es else [(k, Opendir_error)]) @ [(k, Entry sz name)]"
| "listing k name No_stat = [(k, Stat_error)]"
| "listing_dir k dir No_more = []"
| "listing_dir k dir (Dirent d_name f es) =
     (if d_name = ''.'' \<or> d_name = ''..'' then listing_dir k dir es
      else listing k (dir @ ''/'' @ d_name) f @ listing_dir k dir es)"

primrec opens :: "inode \<Rightarrow> nat"
and opens_dir :: "dirents \<Rightarrow> nat" where
  "opens (Reg sz) = 0"
| "opens (Dir sz ok es) = (if ok then Suc (opens_dir es) else 0)"
| "opens No_stat = 0"
| "opens_dir No_more = 0"
| "opens_dir (Dirent d_name f es) =
     (if d_name = ''.'' \<or> d_name = ''..'' then opens_dir es else 2 * opens f + opens_dir es)"

primrec fits :: "string \<Rightarrow> inode \<Rightarrow> bool"
and fits_dir :: "string \<Rightarrow> dirents \<Rightarrow> bool" where
  "fits name (Reg sz) = True"
| "fits name (Dir sz ok es) = (ok \<longrightarrow> fits_dir name es)"
| "fits name No_stat = True"
| "fits_dir dir No_more = True"
| "fits_dir dir (Dirent d_name f es) =
     ((d_name = ''.'' \<or> d_name = ''..'' \<or>
       (length (dir @ ''/'' @ d_name) < 256 \<and> fits (dir @ ''/'' @ d_name) f)) \<and> fits_dir dir es)"

definition copies :: "(nat \<times> line) list \<Rightarrow> line multiset" where
  "copies xs = sum_list (map (\<lambda>(k, l). replicate_mset (2 ^ k) l) xs)"

lemma copies_simps [simp]:
  "copies [] = {#}"
  "copies ((k, l) # xs) = replicate_mset (2 ^ k) l + copies xs"
  "copies (xs @ ys) = copies xs + copies ys"
  by (simp_all add: copies_def)

text \<open>
  One statement carries the whole of it: the descriptors left, and the output, which is complete when
  they suffice and has an error when they do not.
\<close>

lemma listing_printed:
  "fits name f \<Longrightarrow> \<exists>out. isFile n name f = Inr (out, n - opens f)
     \<and> (opens f \<le> n \<longrightarrow> (\<forall>k. copies (listing k name f) = repeat_mset (2 ^ k) (mset out)))
     \<and> (n < opens f \<longrightarrow> Opendir_error \<in> set out)"
  "fits_dir dir es \<Longrightarrow> \<exists>out. read_dir n dir es = Inr (out, n - opens_dir es)
     \<and> (opens_dir es \<le> n \<longrightarrow> (\<forall>k. copies (listing_dir (Suc k) dir es) = repeat_mset (2 ^ k) (mset out)))
     \<and> (n < opens_dir es \<longrightarrow> Opendir_error \<in> set out)"
proof (induction f and es arbitrary: n name and n dir)
  case (Dir sz ok es)
  show ?case
  proof (cases "ok \<and> 0 < n")
    case True
    with Dir.prems have "fits_dir name es" by simp
    from Dir.IH [OF this, of "n - 1"] obtain c where c: "read_dir (n - 1) name es = Inr (c, n - 1 - opens_dir es)"
      "opens_dir es \<le> n - 1 \<Longrightarrow> (\<forall>k. copies (listing_dir (Suc k) name es) = repeat_mset (2 ^ k) (mset c))"
      "n - 1 < opens_dir es \<Longrightarrow> Opendir_error \<in> set c" by blast
    with True show ?thesis by (auto simp: multiset_eq_iff algebra_simps)
  next
    case False
    then show ?thesis by (auto simp: multiset_eq_iff)
  qed
next
  case (Dirent d f es)
  let ?p = "dir @ ''/'' @ d"
  from Dirent.prems have "fits_dir dir es" by simp
  note ih2 = Dirent.IH(2) [OF this]
  show ?case
  proof (cases "d = ''.'' \<or> d = ''..''")
    case True
    with ih2 [of n] show ?thesis by auto
  next
    case False
    with Dirent.prems have "fits ?p f" "length ?p < 256" by auto
    note ih1 = Dirent.IH(1) [OF this(1)]
    let ?n1 = "n - opens f" and ?n2 = "n - opens f - opens f"
    from ih1 [of n] obtain a where a: "isFile n ?p f = Inr (a, ?n1)"
      "opens f \<le> n \<Longrightarrow> \<forall>k. copies (listing k ?p f) = repeat_mset (2 ^ k) (mset a)"
      "n < opens f \<Longrightarrow> Opendir_error \<in> set a" by blast
    from ih1 [of ?n1] obtain b where b: "isFile ?n1 ?p f = Inr (b, ?n2)"
      "opens f \<le> ?n1 \<Longrightarrow> \<forall>k. copies (listing k ?p f) = repeat_mset (2 ^ k) (mset b)"
      "?n1 < opens f \<Longrightarrow> Opendir_error \<in> set b" by blast
    from ih2 [of ?n2] obtain c where c: "read_dir ?n2 dir es = Inr (c, ?n2 - opens_dir es)"
      "opens_dir es \<le> ?n2 \<Longrightarrow> \<forall>k. copies (listing_dir (Suc k) dir es) = repeat_mset (2 ^ k) (mset c)"
      "?n2 < opens_dir es \<Longrightarrow> Opendir_error \<in> set c" by blast
    have need: "opens_dir (Dirent d f es) = 2 * opens f + opens_dir es" using False by simp
    have "read_dir n dir (Dirent d f es) = Inr (a @ b @ c, n - opens_dir (Dirent d f es))"
      using False \<open>length ?p < 256\<close> a(1) b(1) c(1) by (simp add: need Let_def)
    moreover have "copies (listing_dir (Suc k) dir (Dirent d f es)) = repeat_mset (2 ^ k) (mset (a @ b @ c))"
      if enough: "opens_dir (Dirent d f es) \<le> n" for k
    proof -
      from enough need have le: "opens f \<le> n" "opens f \<le> ?n1" "opens_dir es \<le> ?n2" by simp_all
      have "mset a = mset b"
        using a(2) [OF le(1), THEN spec, of 0] b(2) [OF le(2), THEN spec, of 0] by simp
      then show ?thesis
        using False a(2) [OF le(1), THEN spec, of "Suc k"] c(2) [OF le(3), THEN spec, of k]
        by (simp add: multiset_eq_iff algebra_simps)
    qed
    moreover have "Opendir_error \<in> set (a @ b @ c)" if "n < opens_dir (Dirent d f es)"
      using that need a(3) b(3) c(3) by (cases "n < opens f"; cases "?n1 < opens f") auto
    ultimately show ?thesis by blast
  qed
qed (auto simp: multiset_eq_iff)

lemma overflow_found:
  "\<not> fits name f \<Longrightarrow> opens f \<le> n \<Longrightarrow> isFile n name f = Inl Out_of_bounds"
  "\<not> fits_dir dir es \<Longrightarrow> opens_dir es \<le> n \<Longrightarrow> read_dir n dir es = Inl Out_of_bounds"
proof (induction f and es arbitrary: n name and n dir)
  case (Dirent d f es)
  let ?p = "dir @ ''/'' @ d"
  show ?case
  proof (cases "(d = ''.'' \<or> d = ''..'') \<or> length ?p \<ge> 256 \<or> \<not> fits ?p f")
    case True
    with Dirent show ?thesis by (auto simp: Let_def)
  next
    case False
    with Dirent.prems have "\<not> fits_dir dir es" "fits ?p f" by auto
    from listing_printed(1) [OF this(2), of n] obtain a where a: "isFile n ?p f = Inr (a, n - opens f)" by blast
    from listing_printed(1) [OF \<open>fits ?p f\<close>, of "n - opens f"] obtain b
      where b: "isFile (n - opens f) ?p f = Inr (b, n - opens f - opens f)" by blast
    have "opens_dir es \<le> n - opens f - opens f" using Dirent.prems(2) False by simp
    from Dirent.IH(2) [OF \<open>\<not> fits_dir dir es\<close> this] a b False show ?thesis by (simp add: Let_def)
  qed
next
  case (Dir sz ok es)
  then show ?case by auto
qed (auto split: if_splits)

text \<open>
  Directories each holding only the next, \<open>k\<close> below the first: the listing opens \<open>2 ^ (k + 1) - 1\<close> of
  them. With the usual 1024 descriptors, 3 of them taken, ten directories are too many.
\<close>

primrec nested :: "nat \<Rightarrow> inode" where
  "nested 0 = Dir 0 True No_more"
| "nested (Suc k) = Dir 0 True (Dirent ''d'' (nested k) No_more)"

lemma nested_opens: "opens (nested k) = 2 ^ Suc k - 1"
proof (induction k)
  case (Suc k)
  obtain m where "(2::nat) ^ k = Suc m" by (metis nat.exhaust power_eq_0_iff zero_neq_numeral)
  with Suc show ?case by simp
qed simp

lemma nested_fits: "length name + 2 * k < 256 \<Longrightarrow> fits name (nested k)"
  by (induction k arbitrary: name) auto

lemma nested_fails: "\<exists>out. isFile 1021 ''.'' (nested 9) = Inr (out, 0) \<and> Opendir_error \<in> set out"
proof -
  have "fits ''.'' (nested 9)" by (rule nested_fits) simp
  from listing_printed(1) [OF this, of 1021] show ?thesis by (auto simp: nested_opens)
qed

text \<open>C37. myls, with enough descriptors for all the directories it opens, prints everything the tree
  contains, but an entry at depth \<open>k\<close> exactly \<open>2 ^ k\<close> times, because \<open>read_dir\<close> visits each entry
  twice; and then it writes past the array of 256 bytes exactly when the path of some entry it reaches
  does not fit. The directories are never closed: each visit costs one descriptor, and when they do not
  suffice some \<open>opendir\<close> fails, which is printed.\<close>

theorem myls_listing:
  "(fits name f \<longrightarrow> (\<exists>out. isFile n name f = Inr (out, n - opens f)
      \<and> (opens f \<le> n \<longrightarrow> mset out = copies (listing 0 name f))
      \<and> (n < opens f \<longrightarrow> Opendir_error \<in> set out)))
   \<and> (\<not> fits name f \<and> opens f \<le> n \<longrightarrow> isFile n name f = Inl Out_of_bounds)"
proof -
  have "\<exists>out. isFile n name f = Inr (out, n - opens f)
      \<and> (opens f \<le> n \<longrightarrow> mset out = copies (listing 0 name f))
      \<and> (n < opens f \<longrightarrow> Opendir_error \<in> set out)" if "fits name f"
  proof -
    from listing_printed(1) [OF that, of n] obtain out where out: "isFile n name f = Inr (out, n - opens f)"
      "opens f \<le> n \<Longrightarrow> \<forall>k. copies (listing k name f) = repeat_mset (2 ^ k) (mset out)"
      "n < opens f \<Longrightarrow> Opendir_error \<in> set out" by blast
    have "mset out = copies (listing 0 name f)" if "opens f \<le> n" using out(2) [OF that, THEN spec, of 0] by simp
    with out show ?thesis by blast
  qed
  then show ?thesis using overflow_found(1) [of name f n] by blast
qed

definition example_tree :: inode where
  "example_tree = Dir 9 True (Dirent ''.'' (Dir 9 True No_more)
     (Dirent ''a'' (Reg 3) (Dirent ''d'' (Dir 5 True (Dirent ''b'' (Reg 4) No_more)) No_more)))"

theorem myls_listing_witness:
  "(\<exists>out. isFile 3 ''.'' example_tree = Inr (out, 0) \<and> mset out = copies (listing 0 ''.'' example_tree))
   \<and> count (copies (listing 0 ''.'' example_tree)) (Entry 4 ''./d/b'') = 4
   \<and> (\<exists>out. isFile 2 ''.'' example_tree = Inr (out, 0) \<and> Opendir_error \<in> set out)"
proof -
  have "fits ''.'' example_tree" "opens example_tree = 3" by (simp_all add: example_tree_def)
  moreover have "count (copies (listing 0 ''.'' example_tree)) (Entry 4 ''./d/b'') = 4"
    by (simp add: example_tree_def)
  ultimately show ?thesis
    using myls_listing [of "''.''" example_tree 3] myls_listing [of "''.''" example_tree 2] by auto
qed

end
