(* ===== verification/Reaping.thy ===== *)
theory Reaping
  imports Prelude "HOL-Library.Word"
begin

text \<open>
  Parents that wait for their children: the status decoding of src/process_api/wait.cpp, and the two
  programs that fork ten children and reap them in a SIGCHLD handler, src/signal/recovery.cpp, which
  blocks the signal before it forks, and src/signal/r2.cpp, which blocks it afterwards.
\<close>

unbundle bit_operations_syntax

section \<open>The status of a child\<close>

text \<open>
  The status word that \<open>waitpid\<close> stores for a child that ended by \<open>exit\<close> with a code or by a signal,
  and the macros of <sys/wait.h> that read it.
\<close>

definition exit_status :: "32 word \<Rightarrow> 32 word" where
  "exit_status c = push_bit 8 (c AND 0xFF)"

definition kill_status :: "32 word \<Rightarrow> 32 word" where
  "kill_status sg = sg AND 0x7F"

definition WIFEXITED :: "32 word \<Rightarrow> bool" where "WIFEXITED s \<longleftrightarrow> s AND 0x7F = 0"
definition WEXITSTATUS :: "32 word \<Rightarrow> 32 word" where "WEXITSTATUS s = drop_bit 8 (s AND 0xFF00)"
definition WTERMSIG :: "32 word \<Rightarrow> 32 word" where "WTERMSIG s = s AND 0x7F"
definition WIFSIGNALED :: "32 word \<Rightarrow> bool" where
  "WIFSIGNALED s \<longleftrightarrow> 0 < s AND 0x7F \<and> s AND 0x7F < 0x7F"

text \<open>What the handlers print for one child, and what wait.cpp prints.\<close>

datatype report = Exited "32 word" | Signaled "32 word" | Silent

definition describe :: "32 word \<Rightarrow> report" where
  "describe status =
     (if WIFEXITED status then Exited (WEXITSTATUS status)
      else if WIFSIGNALED status then Signaled (WTERMSIG status)
      else Silent)"

definition wait_report :: "32 word \<Rightarrow> 32 word \<times> 32 word" where
  "wait_report status = (drop_bit 8 status AND 0xFF, status AND 0x7F)"

text \<open>
  The polling loop of wait.cpp: the \<open>i\<close>-th call of \<open>waitpid(pid, &status, WNOHANG)\<close> returns a number
  and stores a status. The loop goes on while it returns 0; a failure ends it without a report.
\<close>

partial_function (option) wait_loop :: "(nat \<Rightarrow> int \<times> 32 word) \<Rightarrow> nat \<Rightarrow> (32 word \<times> 32 word) option option" where
  "wait_loop waitpid i =
     (let (ret, status) = waitpid i in
      if ret = 0 then wait_loop waitpid (Suc i)
      else if ret > 0 then Some (Some (wait_report status))
      else Some None)"

lemma masks: "(0xFF :: 32 word) = mask 8" "(0x7F :: 32 word) = mask 7" "(0xFF00 :: 32 word) = push_bit 8 (mask 8)"
  by (simp_all add: mask_eq_exp_minus_1 push_bit_eq_mult)

lemma exit_bits:
  "exit_status c AND 0x7F = 0" "drop_bit 8 (exit_status c) = c AND 0xFF"
  "drop_bit 8 (exit_status c AND 0xFF00) = c AND 0xFF"
  unfolding exit_status_def masks
  by (rule bit_word_eqI; auto simp: bit_simps)+

lemma describe_exit: "describe (exit_status c) = Exited (c AND 0xFF)"
  by (simp add: describe_def WIFEXITED_def WEXITSTATUS_def exit_bits)

lemma describe_kill: "0 < sg \<Longrightarrow> sg < 0x7F \<Longrightarrow> describe (kill_status sg) = Signaled sg"
proof -
  assume sg: "0 < sg" "sg < 0x7F"
  have "sg < 2 ^ 7" by (intro order.strict_trans [OF sg(2)]) simp
  then have "sg AND 0x7F = sg" unfolding masks by (rule less_mask_eq)
  with sg show ?thesis
    by (simp add: describe_def kill_status_def WIFEXITED_def WIFSIGNALED_def WTERMSIG_def)
qed

lemma wait_report_exit: "wait_report (exit_status c) = (c AND 0xFF, 0)"
proof -
  have "(c AND 0xFF) AND 0xFF = c AND (0xFF :: 32 word)" by simp
  then show ?thesis by (simp only: wait_report_def exit_bits)
qed

lemma wait_loop_polls:
  "\<forall>j<n. fst (w (i + j)) = 0 \<Longrightarrow> wait_loop w i = wait_loop w (i + n)"
proof (induction n arbitrary: i)
  case (Suc n)
  from Suc.prems have "fst (w i) = 0" by auto
  then have "wait_loop w i = wait_loop w (Suc i)" by (subst wait_loop.simps) (simp add: case_prod_beta)
  moreover have "\<forall>j<n. fst (w (Suc i + j)) = 0"
    using Suc.prems by (metis Suc_less_eq add_Suc_shift)
  ultimately show ?case using Suc.IH [of "Suc i"] by simp
qed simp

section \<open>The two parents\<close>

text \<open>
  A child has the index of the loop that forked it, from which it computes the code it returns; it
  runs, has ended (by returning, or by the signal with a number), or has been waited for.
\<close>

datatype kid_state = Running | Zombie "32 word option" | Reaped "32 word option"

record kid =
  ord :: nat
  kst :: kid_state

text \<open>Where the parent's \<open>main\<close> is.\<close>

datatype parent_pc = Block_sig | Fork_loop nat | Install | Unblock_sig | Main_loop | Quit

text \<open>
  SIGCHLD of the parent: blocked or not, pending, with the handler installed, being handled. What the
  handler has printed is a log of reports with the child they are about.
\<close>

record family =
  kids :: "kid list"
  par :: parent_pc
  blocked :: bool
  pending :: bool
  installed :: bool
  in_handler :: bool
  reports :: "(nat \<times> report) list"

definition family_start :: "parent_pc \<Rightarrow> family" where
  "family_start c = \<lparr>kids = [], par = c, blocked = False, pending = False, installed = False,
     in_handler = False, reports = []\<rparr>"

text \<open>
  A label is a step of \<open>main\<close>, with the outcome of a fork; a child ending; the delivery of the
  signal; a call of \<open>waitpid\<close> in the handler that returns a child, or returns that there is none.
\<close>

datatype family_label = Parent bool | Child_ends nat "32 word option" | Deliver | Wait_kid nat | Wait_none

definition fork_kid :: "nat \<Rightarrow> family \<Rightarrow> family" where
  "fork_kid i s = s\<lparr>kids := kids s @ [\<lparr>ord = i, kst = Running\<rparr>]\<rparr>"

text \<open>\<open>main\<close> of recovery.cpp: a failed fork is not looked at.\<close>

fun recovery_main :: "bool \<Rightarrow> family \<Rightarrow> family option" where
  "recovery_main ok s =
     (case par s of
        Block_sig \<Rightarrow> Some (s\<lparr>blocked := True, par := Fork_loop 0\<rparr>)
      | Fork_loop i \<Rightarrow>
          if i < 10 then Some ((if ok then fork_kid i s else s)\<lparr>par := Fork_loop (i + 1)\<rparr>)
          else Some (s\<lparr>par := Install\<rparr>)
      | Install \<Rightarrow> Some (s\<lparr>installed := True, par := Unblock_sig\<rparr>)
      | Unblock_sig \<Rightarrow> Some (s\<lparr>blocked := False, par := Main_loop\<rparr>)
      | Main_loop \<Rightarrow> Some s
      | Quit \<Rightarrow> None)"

text \<open>\<open>main\<close> of r2.cpp: it gives up on a failed fork, and blocks the signal after the loop.\<close>

fun r2_main :: "bool \<Rightarrow> family \<Rightarrow> family option" where
  "r2_main ok s =
     (case par s of
        Fork_loop i \<Rightarrow>
          if i < 10 then if ok then Some ((fork_kid i s)\<lparr>par := Fork_loop (i + 1)\<rparr>) else Some (s\<lparr>par := Quit\<rparr>)
          else Some (s\<lparr>par := Block_sig\<rparr>)
      | Block_sig \<Rightarrow> Some (s\<lparr>blocked := True, par := Install\<rparr>)
      | Install \<Rightarrow> Some (s\<lparr>installed := True, par := Unblock_sig\<rparr>)
      | Unblock_sig \<Rightarrow> Some (s\<lparr>blocked := False, par := Main_loop\<rparr>)
      | Main_loop \<Rightarrow> Some s
      | Quit \<Rightarrow> None)"

text \<open>The status of an ended child: it returns the index of its loop plus one.\<close>

definition kid_status :: "nat \<Rightarrow> 32 word option \<Rightarrow> 32 word" where
  "kid_status i how = (case how of None \<Rightarrow> exit_status (word_of_nat (i + 1)) | Some sg \<Rightarrow> kill_status sg)"

definition set_kid :: "nat \<Rightarrow> kid_state \<Rightarrow> family \<Rightarrow> family" where
  "set_kid k st s = s\<lparr>kids := (kids s)[k := (kids s ! k)\<lparr>kst := st\<rparr>]\<rparr>"

definition zombie :: "kid \<Rightarrow> bool" where
  "zombie c \<longleftrightarrow> (case kst c of Zombie how \<Rightarrow> True | _ \<Rightarrow> False)"

text \<open>A child ends by returning, or by one of the signals 1 to 126.\<close>

definition can_end :: "32 word option \<Rightarrow> bool" where
  "can_end how \<longleftrightarrow> (case how of None \<Rightarrow> True | Some sg \<Rightarrow> 0 < sg \<and> sg < 0x7F)"

text \<open>
  The signal of an ending child is discarded if it is neither blocked nor handled; while it is
  handled it is blocked. The handler (\<open>catch_child\<close>, \<open>handler\<close>) calls \<open>waitpid\<close> until it returns no child.
\<close>

fun family_step :: "(bool \<Rightarrow> family \<Rightarrow> family option) \<Rightarrow> family_label \<Rightarrow> family \<Rightarrow> family outcome option" where
  "family_step main (Parent ok) s = (if in_handler s then None else map_option Inr (main ok s))"
| "family_step main (Child_ends k how) s =
     (if k < length (kids s) \<and> kst (kids s ! k) = Running \<and> can_end how
      then Some (Inr ((set_kid k (Zombie how) s)\<lparr>pending := (pending s \<or> blocked s \<or> installed s)\<rparr>))
      else None)"
| "family_step main Deliver s =
     (if pending s \<and> \<not> blocked s \<and> installed s \<and> \<not> in_handler s
      then Some (Inr (s\<lparr>pending := False, in_handler := True\<rparr>)) else None)"
| "family_step main (Wait_kid k) s =
     (if in_handler s \<and> k < length (kids s)
      then (case kst (kids s ! k) of
              Zombie how \<Rightarrow> Some (Inr ((set_kid k (Reaped how) s)
                \<lparr>reports := reports s @ [(k, describe (kid_status (ord (kids s ! k)) how))]\<rparr>))
            | _ \<Rightarrow> None)
      else None)"
| "family_step main Wait_none s =
     (if in_handler s \<and> \<not> (\<exists>c\<in>set (kids s). zombie c) then Some (Inr (s\<lparr>in_handler := False\<rparr>)) else None)"

abbreviation recovery_step :: "family_label \<Rightarrow> family \<Rightarrow> family outcome option" where
  "recovery_step \<equiv> family_step recovery_main"

abbreviation r2_step :: "family_label \<Rightarrow> family \<Rightarrow> family outcome option" where
  "r2_step \<equiv> family_step r2_main"

section \<open>Invariants\<close>

text \<open>What has been told of a child: nothing until it is reaped, then how it ended.\<close>

definition told :: "family \<Rightarrow> nat \<Rightarrow> report list" where
  "told s k = map snd (filter (\<lambda>x. fst x = k) (reports s))"

definition due_report :: "kid \<Rightarrow> report list" where
  "due_report c = (case kst c of Reaped how \<Rightarrow> [describe (kid_status (ord c) how)] | _ \<Rightarrow> [])"

definition death_ok :: "kid \<Rightarrow> bool" where
  "death_ok c \<longleftrightarrow> (case kst c of Running \<Rightarrow> True | Zombie how \<Rightarrow> can_end how | Reaped how \<Rightarrow> can_end how)"

definition kids_ok :: "family \<Rightarrow> bool" where
  "kids_ok s \<longleftrightarrow> (\<forall>c\<in>set (kids s). ord c < 10 \<and> death_ok c)
     \<and> (\<forall>k. told s k = (if k < length (kids s) then due_report (kids s ! k) else []))"

text \<open>
  Of the program that blocks first: the signal of a child is blocked or handled from the first fork
  on, and a zombie is announced, or being looked for.
\<close>

definition guarded :: "family \<Rightarrow> bool" where
  "guarded s \<longleftrightarrow>
     (case par s of
        Block_sig \<Rightarrow> kids s = []
      | Fork_loop i \<Rightarrow> blocked s
      | Install \<Rightarrow> blocked s
      | Unblock_sig \<Rightarrow> blocked s \<and> installed s
      | Main_loop \<Rightarrow> installed s \<and> \<not> blocked s
      | Quit \<Rightarrow> False)"

definition has_zombie :: "family \<Rightarrow> bool" where
  "has_zombie s \<longleftrightarrow> (\<exists>c\<in>set (kids s). zombie c)"

definition announced :: "family \<Rightarrow> bool" where
  "announced s \<longleftrightarrow> guarded s \<and> (has_zombie s \<longrightarrow> pending s \<or> in_handler s)"

lemma told_kids: "told (s\<lparr>kids := ks\<rparr>) k = told s k" "told (s\<lparr>par := c\<rparr>) k = told s k"
  "told (s\<lparr>pending := b\<rparr>) k = told s k" "told (s\<lparr>in_handler := b\<rparr>) k = told s k"
  "told (s\<lparr>blocked := b\<rparr>) k = told s k" "told (s\<lparr>installed := b\<rparr>) k = told s k"
  by (simp_all add: told_def)

lemma kids_ok_same: "kids s' = kids s \<Longrightarrow> reports s' = reports s \<Longrightarrow> kids_ok s' = kids_ok s"
  by (simp add: kids_ok_def told_def)

lemma kids_ok_fork: "kids_ok s \<Longrightarrow> i < 10 \<Longrightarrow> kids_ok (fork_kid i s)"
  by (auto simp: kids_ok_def fork_kid_def told_kids nth_append due_report_def death_ok_def)

lemma kids_ok_set:
  assumes "kids_ok s" "k < length (kids s)" "reports s' = reports s @ rs"
    and "kids s' = (kids s)[k := (kids s ! k)\<lparr>kst := st\<rparr>]"
    and "due_report ((kids s ! k)\<lparr>kst := st\<rparr>) = due_report (kids s ! k) @ map snd rs" "\<forall>x\<in>set rs. fst x = k"
    and "death_ok (kids s ! k) \<Longrightarrow> death_ok ((kids s ! k)\<lparr>kst := st\<rparr>)"
  shows "kids_ok s'"
proof -
  have rs: "map snd (filter (\<lambda>x. fst x = j) rs) = (if j = k then map snd rs else [])" for j
    using assms(6) by (induction rs) auto
  have "kids s ! k \<in> set (kids s)" using assms(2) by simp
  then have "\<forall>c\<in>set (kids s'). ord c < 10 \<and> death_ok c"
    using assms(1,7) set_update_subset_insert [of "kids s" k "(kids s ! k)\<lparr>kst := st\<rparr>"]
    unfolding assms(4) kids_ok_def by fastforce
  moreover have "told s' j = (if j < length (kids s') then due_report (kids s' ! j) else [])" for j
    using assms(1,2,5) rs [of j] unfolding kids_ok_def
    by (auto simp: told_def assms(3,4) nth_list_update)
  ultimately show ?thesis unfolding kids_ok_def by blast
qed

lemma main_frame:
  "recovery_main ok s = Some s' \<Longrightarrow> kids s' = kids s \<and> reports s' = reports s
     \<or> (\<exists>i<10. kids s' = kids (fork_kid i s) \<and> reports s' = reports (fork_kid i s))"
  "r2_main ok s = Some s' \<Longrightarrow> kids s' = kids s \<and> reports s' = reports s
     \<or> (\<exists>i<10. kids s' = kids (fork_kid i s) \<and> reports s' = reports (fork_kid i s))"
  by (cases "par s"; force split: if_splits)+

lemma main_kids:
  "recovery_main ok s = Some s' \<Longrightarrow> kids_ok s \<Longrightarrow> kids_ok s'"
  "r2_main ok s = Some s' \<Longrightarrow> kids_ok s \<Longrightarrow> kids_ok s'"
  using main_frame [of ok s s'] kids_ok_same [of s' s] kids_ok_same [of s'] kids_ok_fork [of s] by blast+

lemma family_step_kids:
  assumes st: "family_step main l s = Some (Inr s')" and ok: "kids_ok s"
    and main: "\<And>ok s'. main ok s = Some s' \<Longrightarrow> kids_ok s'"
  shows "kids_ok s'"
proof (cases l)
  case (Parent b)
  with st main show ?thesis by (auto split: if_splits)
next
  case (Child_ends k how)
  with st have k: "k < length (kids s)" "kst (kids s ! k) = Running" "can_end how"
    and s': "s' = (set_kid k (Zombie how) s)\<lparr>pending := (pending s \<or> blocked s \<or> installed s)\<rparr>"
    by (auto split: if_splits)
  show ?thesis
    by (rule kids_ok_set [OF ok k(1), where rs = "[]" and st = "Zombie how"])
       (auto simp: s' set_kid_def due_report_def death_ok_def k(2-))
next
  case Deliver
  with st have "kids s' = kids s" "reports s' = reports s" by (auto split: if_splits)
  with ok show ?thesis using kids_ok_same [of s' s] by simp
next
  case (Wait_kid k)
  with st obtain how where k: "k < length (kids s)" "kst (kids s ! k) = Zombie how"
    and s': "s' = (set_kid k (Reaped how) s)\<lparr>reports := reports s @ [(k, describe (kid_status (ord (kids s ! k)) how))]\<rparr>"
    by (auto split: if_splits kid_state.splits)
  show ?thesis
    by (rule kids_ok_set [OF ok k(1), where rs = "[(k, describe (kid_status (ord (kids s ! k)) how))]" and st = "Reaped how"])
       (auto simp: s' set_kid_def due_report_def death_ok_def k(2-))
next
  case Wait_none
  with st have "kids s' = kids s" "reports s' = reports s" by (auto split: if_splits)
  with ok show ?thesis using kids_ok_same [of s' s] by simp
qed

lemma zombie_set:
  "k < length (kids s) \<Longrightarrow> \<not> zombie ((kids s ! k)\<lparr>kst := st\<rparr>) \<Longrightarrow> has_zombie (set_kid k st s) \<Longrightarrow> has_zombie s"
  using set_update_subset_insert [of "kids s" k "(kids s ! k)\<lparr>kst := st\<rparr>"]
  by (auto simp: has_zombie_def set_kid_def)

lemma has_zombie_fork [simp]: "has_zombie (fork_kid i s) = has_zombie s"
  by (auto simp: has_zombie_def fork_kid_def zombie_def)

lemma has_zombie_same: "kids s' = kids s \<Longrightarrow> has_zombie s' = has_zombie s"
  by (simp add: has_zombie_def)

lemma announced_main:
  assumes "recovery_main ok s = Some s'" "announced s"
  shows "announced s'"
  using assms
  by (auto simp: announced_def guarded_def has_zombie_def fork_kid_def zombie_def
      split: parent_pc.splits if_splits)

lemma announced_step:
  assumes st: "recovery_step l s = Some (Inr s')" and a: "announced s"
  shows "announced s'"
proof (cases l)
  case (Parent b)
  with st a show ?thesis by (auto simp del: recovery_main.simps intro: announced_main split: if_splits)
next
  case (Child_ends k how)
  with st have k: "k < length (kids s)"
    and s': "s' = (set_kid k (Zombie how) s)\<lparr>pending := (pending s \<or> blocked s \<or> installed s)\<rparr>"
    by (auto split: if_splits)
  from k have "kids s \<noteq> []" by auto
  with a have "blocked s \<or> installed s" by (auto simp: announced_def guarded_def split: parent_pc.splits)
  with a show ?thesis by (auto simp: s' announced_def guarded_def set_kid_def split: parent_pc.splits)
next
  case Deliver
  with st a show ?thesis by (auto simp: announced_def guarded_def split: parent_pc.splits if_splits)
next
  case (Wait_kid k)
  with st obtain how where h: "in_handler s"
    and s': "s' = (set_kid k (Reaped how) s)\<lparr>reports := reports s @ [(k, describe (kid_status (ord (kids s ! k)) how))]\<rparr>"
    by (auto split: if_splits kid_state.splits)
  with a show ?thesis by (auto simp: announced_def guarded_def set_kid_def split: parent_pc.splits)
next
  case Wait_none
  with st a show ?thesis by (auto simp: announced_def guarded_def has_zombie_def split: parent_pc.splits if_splits)
qed

lemma family_start_ok: "kids_ok (family_start c)"
  by (simp add: kids_ok_def family_start_def told_def)

interpretation recovery: inductive_invariant "\<lambda>s. s = family_start Block_sig" "fires recovery_step"
  "\<lambda>s. kids_ok s \<and> announced s"
proof (unfold_locales, goal_cases)
  case (1 s)
  then show ?case by (simp add: family_start_ok) (simp add: family_start_def announced_def guarded_def has_zombie_def)
next
  case (2 s l s')
  then show ?case
    using family_step_kids [of recovery_main l s s'] announced_step [of l s s'] main_kids(1)
    by (auto simp: fires_def simp del: recovery_main.simps)
qed

interpretation r2: inductive_invariant "\<lambda>s. s = family_start (Fork_loop 0)" "fires r2_step" kids_ok
proof (unfold_locales, goal_cases)
  case (1 s)
  then show ?case by (simp add: family_start_ok)
next
  case (2 s l s')
  then show ?case
    using family_step_kids [of r2_main l s s'] main_kids(2) by (auto simp: fires_def simp del: r2_main.simps)
qed

section \<open>The handler makes progress\<close>

text \<open>What the handler still has to do: one call per zombie, one to see that there is none, the delivery.\<close>

definition to_do :: "family \<Rightarrow> nat" where
  "to_do s = nat (cnt zombie (kids s)) + (if in_handler s then 1 else 0) + (if pending s then 2 else 0)"

fun handler_label :: "family_label \<Rightarrow> bool" where
  "handler_label Deliver = True" | "handler_label (Wait_kid k) = True" | "handler_label Wait_none = True"
| "handler_label l = False"

fun_cases handler_labelE: "handler_label l"

lemma reap_counts:
  assumes "k < length (kids s)" "kst (kids s ! k) = Zombie how"
  shows "0 < cnt zombie (kids s) \<and> cnt zombie ((kids s)[k := (kids s ! k)\<lparr>kst := Reaped how\<rparr>]) < cnt zombie (kids s)"
  using cnt_update [OF assms(1), of zombie "(kids s ! k)\<lparr>kst := Reaped how\<rparr>"] assms(2)
    cnt_nonneg [of zombie "(kids s)[k := (kids s ! k)\<lparr>kst := Reaped how\<rparr>]"]
  by (simp add: zombie_def)

lemma handler_decreases:
  assumes "handler_label l" "family_step main l s = Some (Inr s')"
  shows "to_do s' < to_do s"
  using assms
  by (elim handler_labelE) (auto simp: to_do_def set_kid_def reap_counts split: if_splits kid_state.splits)

lemma handler_enabled:
  assumes "announced s" "par s = Main_loop" "has_zombie s"
  shows "\<exists>l s'. handler_label l \<and> recovery_step l s = Some (Inr s')"
proof (cases "in_handler s")
  case True
  from assms(3) obtain k how where "k < length (kids s)" "kst (kids s ! k) = Zombie how"
    by (auto simp: has_zombie_def zombie_def in_set_conv_nth split: kid_state.splits) (metis kid_state.exhaust)
  with True have "\<exists>s'. recovery_step (Wait_kid k) s = Some (Inr s')" by simp
  moreover have "handler_label (Wait_kid k)" by simp
  ultimately show ?thesis by blast
next
  case False
  with assms have "recovery_step Deliver s = Some (Inr (s\<lparr>pending := False, in_handler := True\<rparr>))"
    by (auto simp: announced_def guarded_def)
  moreover have "handler_label Deliver" by simp
  ultimately show ?thesis by blast
qed

section \<open>Properties\<close>

abbreviation recovery_reach :: "family \<Rightarrow> bool" where
  "recovery_reach \<equiv> reach (\<lambda>s. s = family_start Block_sig) (fires recovery_step)"

abbreviation r2_reach :: "family \<Rightarrow> bool" where
  "r2_reach \<equiv> reach (\<lambda>s. s = family_start (Fork_loop 0)) (fires r2_step)"

text \<open>The codes the children return fit in the byte the status has for them.\<close>

lemma low_byte: "n < 256 \<Longrightarrow> (word_of_nat n :: 32 word) AND 0xFF = word_of_nat n"
  unfolding masks by (rule less_mask_eq) (simp add: word_less_nat_alt unat_of_nat)

lemma kid_code: "i < 10 \<Longrightarrow> (word_of_nat (i + 1) :: 32 word) AND 0xFF = word_of_nat (i + 1)"
  by (rule low_byte) simp

text \<open>Decoding a status: whatever code a child exits with, \<open>wait\<close> and the handlers read back its low 8
  bits and no signal; a child killed by signal 1 to 126 is reported with that signal. The polling loop
  of wait.cpp returns the report of the first status \<open>waitpid\<close> delivers, however long it polls; the
  child's \<open>exit(11)\<close> is reported as (11, 0).\<close>

theorem wait_status:
  "wait_report (exit_status c) = (c AND 0xFF, 0) \<and> describe (exit_status c) = Exited (c AND 0xFF)
   \<and> (0 < sg \<and> sg < 0x7F \<longrightarrow> describe (kill_status sg) = Signaled sg)
   \<and> ((\<forall>j<n. fst (w j) = 0) \<and> w n = (pid, exit_status 11) \<and> 0 < pid \<longrightarrow> wait_loop w 0 = Some (Some (11, 0)))"
proof (intro conjI impI)
  assume a: "(\<forall>j<n. fst (w j) = 0) \<and> w n = (pid, exit_status 11) \<and> 0 < pid"
  then have "wait_loop w 0 = wait_loop w n" using wait_loop_polls [of n w 0] by simp
  also have "\<dots> = Some (Some (wait_report (exit_status 11)))" using a by (subst wait_loop.simps) simp
  also have "wait_report (exit_status 11) = (11, 0)" by (simp add: wait_report_exit)
  finally show "wait_loop w 0 = Some (Some (11, 0))" .
qed (simp_all add: wait_report_exit describe_exit describe_kill)

theorem wait_status_witness:
  "wait_loop (\<lambda>i. if i < 3 then (0, 0) else (42, exit_status 11)) 0 = Some (Some (11, 0))
   \<and> describe (kill_status 9) = Signaled 9"
  using wait_status [of 0 9 3 "\<lambda>i. if i < 3 then (0, 0) else (42, exit_status 11)" 42] by simp

text \<open>C28. recovery.cpp reports every child: whenever its parent is in its loop, with no signal pending and
  not in the handler, each child it forked is still running and unreported, or has been reported
  exactly once, as exited with the number it returned (its place, 1 to 10) or as killed by the signal, of 1 to 126,
  that did it. No child stays a zombie, although one signal may stand for many children.\<close>

theorem recovery_complete:
  assumes "recovery_reach s" "par s = Main_loop" "\<not> pending s" "\<not> in_handler s" "k < length (kids s)"
  shows "kst (kids s ! k) = Running \<and> told s k = []
    \<or> kst (kids s ! k) = Reaped None \<and> told s k = [Exited (word_of_nat (ord (kids s ! k) + 1))] \<and> ord (kids s ! k) < 10
    \<or> (\<exists>sg. kst (kids s ! k) = Reaped (Some sg) \<and> 0 < sg \<and> sg < 0x7F \<and> told s k = [Signaled sg])"
proof -
  have inv: "kids_ok s" "announced s" using recovery.inv_reach [OF assms(1)] by auto
  have "\<not> has_zombie s" using inv(2) assms(3,4) by (simp add: announced_def)
  then have z: "\<not> zombie (kids s ! k)" using assms(5) by (auto simp: has_zombie_def)
  have o: "ord (kids s ! k) < 10" and d: "death_ok (kids s ! k)" and t: "told s k = due_report (kids s ! k)"
    using inv(1) assms(5) by (auto simp: kids_ok_def)
  have code: "describe (kid_status (ord (kids s ! k)) None) = Exited (word_of_nat (ord (kids s ! k) + 1))"
    using kid_code [OF o] by (simp add: kid_status_def describe_exit)
  show ?thesis
  proof (cases "kst (kids s ! k)")
    case (Reaped how)
    with t o code d show ?thesis
      by (cases how) (auto simp: due_report_def kid_status_def death_ok_def can_end_def describe_kill)
  qed (use z t in \<open>auto simp: zombie_def due_report_def\<close>)
qed

definition recovery_run :: "family_label list" where
  "recovery_run = Parent True # Parent True # Child_ends 0 None # replicate 9 (Parent True) @
     [Child_ends 1 (Some 9)] @ replicate 3 (Parent True) @ [Deliver, Wait_kid 1, Wait_kid 0, Wait_none]"

definition recovery_end :: family where
  "recovery_end = \<lparr>kids = [\<lparr>ord = 0, kst = Reaped None\<rparr>, \<lparr>ord = 1, kst = Reaped (Some 9)\<rparr>] @
       map (\<lambda>i. \<lparr>ord = i, kst = Running\<rparr>) [2..<10],
     par = Main_loop, blocked = False, pending = False, installed = True, in_handler = False,
     reports = [(1, Signaled 9), (0, Exited 1)]\<rparr>"

lemma recovery_end_run: "run recovery_step recovery_run (family_start Block_sig) = Some recovery_end"
  by code_simp

lemma recovery_end_reach: "recovery_reach recovery_end"
  by (rule run_reach [OF recovery_end_run]) (simp add: reach_init)

theorem recovery_complete_witness:
  "told recovery_end 0 = [Exited 1]"
  using recovery_complete [OF recovery_end_reach, of 0] by (simp add: recovery_end_def upt_rec)

text \<open>C29. The handler of recovery.cpp cannot stall: while the parent is in its loop and some child is a
  zombie, the delivery of the signal or a call of \<open>waitpid\<close> is possible, and each such step, as well as
  the one that ends the handler, brings the measure of what is left to do down. So between two
  endings of children at most \<open>to_do\<close> steps reap them all.\<close>

theorem recovery_reaps:
  assumes "recovery_reach s" "par s = Main_loop" "has_zombie s"
  shows "(\<exists>l s'. handler_label l \<and> recovery_step l s = Some (Inr s'))
    \<and> (\<forall>l s'. handler_label l \<and> recovery_step l s = Some (Inr s') \<longrightarrow> to_do s' < to_do s)"
proof -
  have "announced s" using recovery.inv_reach [OF assms(1)] by simp
  with handler_enabled [OF _ assms(2,3)] show ?thesis using handler_decreases by blast
qed

definition recovery_mid :: family where
  "recovery_mid = recovery_end\<lparr>kids := [\<lparr>ord = 0, kst = Zombie None\<rparr>, \<lparr>ord = 1, kst = Reaped (Some 9)\<rparr>] @
       map (\<lambda>i. \<lparr>ord = i, kst = Running\<rparr>) [2..<10], in_handler := True, reports := [(1, Signaled 9)]\<rparr>"

lemma recovery_mid_run: "run recovery_step (take 18 recovery_run) (family_start Block_sig) = Some recovery_mid"
  by code_simp

theorem recovery_reaps_witness:
  "\<exists>l s'. handler_label l \<and> recovery_step l recovery_mid = Some (Inr s')"
proof -
  have "recovery_reach recovery_mid"
    by (rule run_reach [OF recovery_mid_run]) (simp add: reach_init)
  moreover have "par recovery_mid = Main_loop" "has_zombie recovery_mid"
    by (simp_all add: recovery_mid_def recovery_end_def has_zombie_def zombie_def)
  ultimately show ?thesis using recovery_reaps [of recovery_mid] by blast
qed

text \<open>r2.cpp can lose all its children: it blocks the signal and installs the handler only after it has
  forked, so if the children end before, their signals are discarded. The program then gets to a
  state with ten zombies and nothing reported which no step of anything ever changes.\<close>

theorem r2_zombies:
  "\<exists>s. r2_reach s \<and> par s = Main_loop \<and> length (kids s) = 10 \<and> list_all zombie (kids s) \<and> reports s = []
     \<and> (\<forall>l. r2_step l s = None \<or> r2_step l s = Some (Inr s))"
proof -
  define s where "s = \<lparr>kids = map (\<lambda>i. \<lparr>ord = i, kst = Zombie None\<rparr>) [0..<10], par = Main_loop,
     blocked = False, pending = False, installed = True, in_handler = False, reports = []\<rparr>"
  have "run r2_step (replicate 10 (Parent True) @ map (\<lambda>k. Child_ends k None) [0..<10] @ replicate 4 (Parent True))
      (family_start (Fork_loop 0)) = Some s"
    unfolding s_def by code_simp
  then have "r2_reach s" by (rule run_reach) (simp add: reach_init)
  moreover have "r2_step l s = None \<or> r2_step l s = Some (Inr s)" for l
    by (cases l) (auto simp: s_def)
  ultimately show ?thesis by (intro exI [of _ s]) (auto simp: s_def zombie_def list_all_iff)
qed

end
