(* ===== verification/Kernel.thy ===== *)
theory Kernel
  imports File_Tools Sockets
begin

text \<open>
  The part of the operating system that the small file and pipe programs use: a table of
  descriptors per process, open file descriptions that descriptors share (after \<open>dup\<close>, \<open>dup2\<close> and
  \<open>fork\<close>), files, pipes and one terminal. Each call is a function on the state of the kernel; what it
  returns is written out as documented, errors and blocking included.
\<close>

section \<open>Descriptors and open files\<close>

datatype access = RdOnly | WrOnly | RdWr
datatype oflag = O_CREAT | O_TRUNC
datatype whence = SEEK_SET | SEEK_END

text \<open>What an open file description refers to. A fifo that is open is a pipe.\<close>

datatype target = Disk string | Pipe nat | Tty

record descr =
  obj :: target
  acc :: access
  seekp :: nat

text \<open>
  \<open>disk\<close> has the files by name, \<open>ofiles\<close> all open file descriptions there ever were, \<open>bufs\<close> what is in
  the pipes, \<open>tables\<close> the descriptors of each process (an entry is the number of its description),
  \<open>typed\<close> what will be typed at the terminal, one line per \<open>read\<close>, and \<open>screen\<close> what it shows.
\<close>

record kernel =
  disk :: "string \<Rightarrow> bytes option"
  ofiles :: "descr list"
  bufs :: "bytes list"
  tables :: "nat option list list"
  typed :: "bytes list"
  screen :: bytes

text \<open>
  A call returns, waits, or ends the process: \<open>Sigpipe\<close> by the default action of that signal,
  \<open>Fault\<close> by something that C leaves undefined.
\<close>

datatype 'a io = Ret 'a | Block | Sigpipe | Fault fault

primrec io_bind :: "'a io \<Rightarrow> ('a \<Rightarrow> 'b io) \<Rightarrow> 'b io" where
  "io_bind (Ret x) f = f x"
| "io_bind Block f = Block"
| "io_bind Sigpipe f = Sigpipe"
| "io_bind (Fault e) f = Fault e"

lemma io_bind_Ret_iff [simp]: "io_bind m f = Ret y \<longleftrightarrow> (\<exists>x. m = Ret x \<and> f x = Ret y)"
  by (cases m) auto

lemma io_bind_assoc: "io_bind (io_bind m f) g = io_bind m (\<lambda>x. io_bind (f x) g)"
  by (cases m) auto

definition lookup_fd :: "nat \<Rightarrow> int \<Rightarrow> kernel \<Rightarrow> nat option" where
  "lookup_fd p fd k =
     (if p < length (tables k) \<and> 0 \<le> fd \<and> fd < int (length (tables k ! p)) then tables k ! p ! nat fd
      else None)"

text \<open>A new descriptor gets the lowest number that is free.\<close>

fun free_fd :: "'a option list \<Rightarrow> nat" where
  "free_fd (Some x # t) = Suc (free_fd t)"
| "free_fd t = 0"

definition set_fd :: "nat \<Rightarrow> 'a option \<Rightarrow> 'a option list \<Rightarrow> 'a option list" where
  "set_fd i x t = (t @ replicate (Suc i - length t) None)[i := x]"

definition put_fd :: "nat \<Rightarrow> nat \<Rightarrow> nat option \<Rightarrow> kernel \<Rightarrow> kernel" where
  "put_fd p i x k = k\<lparr>tables := (tables k)[p := set_fd i x (tables k ! p)]\<rparr>"

definition next_fd :: "nat \<Rightarrow> kernel \<Rightarrow> nat" where
  "next_fd p k = free_fd (tables k ! p)"

definition new_fd :: "nat \<Rightarrow> descr \<Rightarrow> kernel \<Rightarrow> int \<times> kernel" where
  "new_fd p d k =
     (int (next_fd p k), put_fd p (next_fd p k) (Some (length (ofiles k))) (k\<lparr>ofiles := ofiles k @ [d]\<rparr>))"

section \<open>The calls\<close>

definition sys_open :: "nat \<Rightarrow> string \<Rightarrow> access \<Rightarrow> oflag list \<Rightarrow> kernel \<Rightarrow> int \<times> kernel" where
  "sys_open p path a fl k =
     (let old = disk k path;
          c = (if O_TRUNC \<in> set fl then [] else (case old of None \<Rightarrow> [] | Some c \<Rightarrow> c)) in
      if old \<noteq> None \<or> O_CREAT \<in> set fl
      then new_fd p \<lparr>obj = Disk path, acc = a, seekp = 0\<rparr> (k\<lparr>disk := (disk k)(path := Some c)\<rparr>)
      else (-1, k))"

definition sys_close :: "nat \<Rightarrow> int \<Rightarrow> kernel \<Rightarrow> int \<times> kernel" where
  "sys_close p fd k = (if lookup_fd p fd k = None then (-1, k) else (0, put_fd p (nat fd) None k))"

definition sys_dup :: "nat \<Rightarrow> int \<Rightarrow> kernel \<Rightarrow> int \<times> kernel" where
  "sys_dup p fd k =
     (case lookup_fd p fd k of None \<Rightarrow> (-1, k)
      | Some d \<Rightarrow> (int (next_fd p k), put_fd p (next_fd p k) (Some d) k))"

definition sys_dup2 :: "nat \<Rightarrow> int \<Rightarrow> int \<Rightarrow> kernel \<Rightarrow> int \<times> kernel" where
  "sys_dup2 p fd fd' k =
     (case lookup_fd p fd k of None \<Rightarrow> (-1, k)
      | Some d \<Rightarrow> if fd' < 0 then (-1, k) else (fd', put_fd p (nat fd') (Some d) k))"

definition sys_pipe :: "nat \<Rightarrow> kernel \<Rightarrow> int \<times> int \<times> kernel" where
  "sys_pipe p k =
     (let i = length (bufs k);
          (r, k1) = new_fd p \<lparr>obj = Pipe i, acc = RdOnly, seekp = 0\<rparr> (k\<lparr>bufs := bufs k @ [[]]\<rparr>);
          (w, k2) = new_fd p \<lparr>obj = Pipe i, acc = WrOnly, seekp = 0\<rparr> k1 in
      (r, w, k2))"

text \<open>The child gets the descriptors of its parent. A process that ends closes all it has.\<close>

definition sys_fork :: "nat \<Rightarrow> kernel \<Rightarrow> nat \<times> kernel" where
  "sys_fork p k = (length (tables k), k\<lparr>tables := tables k @ [tables k ! p]\<rparr>)"

definition sys_exit :: "nat \<Rightarrow> kernel \<Rightarrow> kernel" where
  "sys_exit p k = k\<lparr>tables := (tables k)[p := []]\<rparr>"

text \<open>Whether some process has an end of pipe \<open>i\<close> open.\<close>

definition holds_end :: "(access \<Rightarrow> bool) \<Rightarrow> nat \<Rightarrow> kernel \<Rightarrow> bool" where
  "holds_end A i k \<longleftrightarrow>
     list_ex (list_ex (\<lambda>e. case e of None \<Rightarrow> False
       | Some d \<Rightarrow> obj (ofiles k ! d) = Pipe i \<and> A (acc (ofiles k ! d)))) (tables k)"

definition can_read :: "access \<Rightarrow> bool" where "can_read a \<longleftrightarrow> a \<noteq> WrOnly"
definition can_write :: "access \<Rightarrow> bool" where "can_write a \<longleftrightarrow> a \<noteq> RdOnly"

definition PIPE_CAPACITY :: nat where "PIPE_CAPACITY = 65536"

definition set_seek :: "nat \<Rightarrow> nat \<Rightarrow> kernel \<Rightarrow> kernel" where
  "set_seek d n k = k\<lparr>ofiles := (ofiles k)[d := (ofiles k ! d)\<lparr>seekp := n\<rparr>]\<rparr>"

definition contents_of :: "string \<Rightarrow> kernel \<Rightarrow> bytes" where
  "contents_of f k = (case disk k f of None \<Rightarrow> [] | Some c \<Rightarrow> c)"

text \<open>
  \<open>read\<close> moves the position in a file; an empty pipe that somebody can still write to makes it wait, one
  that nobody can write to is at its end. \<open>write\<close> puts all it is given, waits for room in a pipe, and
  raises SIGPIPE when nobody can read from it.
\<close>

definition sys_read :: "nat \<Rightarrow> int \<Rightarrow> nat \<Rightarrow> kernel \<Rightarrow> (int \<times> bytes \<times> kernel) io" where
  "sys_read p fd n k =
     (case lookup_fd p fd k of None \<Rightarrow> Ret (-1, [], k)
      | Some d \<Rightarrow>
          if \<not> can_read (acc (ofiles k ! d)) then Ret (-1, [], k)
          else (case obj (ofiles k ! d) of
              Disk f \<Rightarrow>
                let s = seekp (ofiles k ! d); x = take n (drop s (contents_of f k)) in
                Ret (int (length x), x, set_seek d (s + length x) k)
            | Pipe i \<Rightarrow>
                let b = bufs k ! i in
                if b = [] \<and> holds_end can_write i k then Block
                else Ret (int (length (take n b)), take n b, k\<lparr>bufs := (bufs k)[i := drop n b]\<rparr>)
            | Tty \<Rightarrow>
                (case typed k of [] \<Rightarrow> Block
                 | l # ls \<Rightarrow> Ret (int (length (take n l)), take n l,
                     k\<lparr>typed := (if length l \<le> n then ls else drop n l # ls)\<rparr>))))"

definition sys_write :: "nat \<Rightarrow> int \<Rightarrow> bytes \<Rightarrow> kernel \<Rightarrow> (int \<times> kernel) io" where
  "sys_write p fd x k =
     (case lookup_fd p fd k of None \<Rightarrow> Ret (-1, k)
      | Some d \<Rightarrow>
          if \<not> can_write (acc (ofiles k ! d)) then Ret (-1, k)
          else (case obj (ofiles k ! d) of
              Disk f \<Rightarrow>
                let s = seekp (ofiles k ! d) in
                Ret (int (length x),
                     set_seek d (s + length x) (k\<lparr>disk := (disk k)(f := Some (write_at s x (contents_of f k)))\<rparr>))
            | Pipe i \<Rightarrow>
                if \<not> holds_end can_read i k then Sigpipe
                else if PIPE_CAPACITY < length (bufs k ! i) + length x then Block
                else Ret (int (length x), k\<lparr>bufs := (bufs k)[i := bufs k ! i @ x]\<rparr>)
            | Tty \<Rightarrow> Ret (int (length x), k\<lparr>screen := screen k @ x\<rparr>)))"

definition sys_lseek :: "nat \<Rightarrow> int \<Rightarrow> nat \<Rightarrow> whence \<Rightarrow> kernel \<Rightarrow> int \<times> kernel" where
  "sys_lseek p fd off wh k =
     (case lookup_fd p fd k of None \<Rightarrow> (-1, k)
      | Some d \<Rightarrow>
          (case obj (ofiles k ! d) of
             Disk f \<Rightarrow>
               let n = (case wh of SEEK_SET \<Rightarrow> off | SEEK_END \<Rightarrow> length (contents_of f k) + off) in
               (int n, set_seek d n k)
           | _ \<Rightarrow> (-1, k)))"

section \<open>Laws of the descriptor tables\<close>

lemma length_set_fd [simp]: "length (set_fd i x t) = max (length t) (Suc i)"
  by (simp add: set_fd_def)

lemma nth_set_fd_same [simp]: "set_fd i x t ! i = x"
  by (simp add: set_fd_def)

lemma nth_set_fd_other: "j \<noteq> i \<Longrightarrow> j < length t \<Longrightarrow> set_fd i x t ! j = t ! j"
  by (simp add: set_fd_def nth_append)

lemma set_set_fd: "set (set_fd i x t) \<subseteq> insert x (insert None (set t))"
proof -
  have "set (set_fd i x t) \<subseteq> insert x (set (t @ replicate (Suc i - length t) None))"
    unfolding set_fd_def by (rule set_update_subset_insert)
  then show ?thesis by auto
qed

lemma free_fd_free: "free_fd t < length t \<Longrightarrow> t ! free_fd t = None"
  by (induction t rule: free_fd.induct) auto

lemma free_fd_lowest: "i < free_fd t \<Longrightarrow> i < length t \<and> t ! i \<noteq> None"
  by (induction t arbitrary: i rule: free_fd.induct) (auto simp: nth_Cons split: nat.splits)

lemma lookup_put_same [simp]:
  "p < length (tables k) \<Longrightarrow> lookup_fd p (int i) (put_fd p i x k) = x"
  by (simp add: lookup_fd_def put_fd_def less_max_iff_disj)

lemma lookup_put_other:
  assumes "fd \<noteq> int i"
  shows "lookup_fd p fd (put_fd p i x k) = lookup_fd p fd k"
proof -
  have "set_fd i x t ! nat fd = t ! nat fd" if "0 \<le> fd" "fd < int (length t)" for t
    using that assms by (intro nth_set_fd_other) auto
  moreover have "set_fd i x t ! nat fd = None" if "0 \<le> fd" "\<not> fd < int (length t)" "fd < 1 + int i" for t
    using that assms by (auto simp: set_fd_def nth_append)
  ultimately show ?thesis by (auto simp: lookup_fd_def put_fd_def)
qed

lemma lookup_process:
  assumes "q \<noteq> p"
  shows "lookup_fd q fd (put_fd p i x k) = lookup_fd q fd k"
  using assms by (simp add: lookup_fd_def put_fd_def)

lemma lookup_put:
  "p < length (tables k) \<Longrightarrow>
   lookup_fd q fd (put_fd p i x k) = (if q = p \<and> fd = int i then x else lookup_fd q fd k)"
  by (cases "q = p"; cases "fd = int i") (simp_all add: lookup_process lookup_put_other)

lemma lookup_fields [simp]:
  "lookup_fd p fd (k\<lparr>disk := a\<rparr>) = lookup_fd p fd k" "lookup_fd p fd (k\<lparr>ofiles := b\<rparr>) = lookup_fd p fd k"
  "lookup_fd p fd (k\<lparr>bufs := c\<rparr>) = lookup_fd p fd k" "lookup_fd p fd (set_seek d n k) = lookup_fd p fd k"
  by (simp_all add: lookup_fd_def set_seek_def)

lemma next_fd_other: "p < length (tables k) \<Longrightarrow> next_fd p (put_fd p i (Some d) k) \<noteq> i"
  using free_fd_free [of "set_fd i (Some d) (tables k ! p)"]
  by (auto simp: next_fd_def put_fd_def less_max_iff_disj)

lemma put_fd_fields [simp]:
  "disk (put_fd p i x k) = disk k" "ofiles (put_fd p i x k) = ofiles k" "bufs (put_fd p i x k) = bufs k"
  "typed (put_fd p i x k) = typed k" "screen (put_fd p i x k) = screen k"
  "length (tables (put_fd p i x k)) = length (tables k)"
  by (simp_all add: put_fd_def)

section \<open>Well-formed kernels\<close>

text \<open>
  Every entry of a table is a description that exists, a description of a pipe has its buffer, one
  of a file has its file.
\<close>

fun target_ok :: "kernel \<Rightarrow> target \<Rightarrow> bool" where
  "target_ok k (Disk f) \<longleftrightarrow> disk k f \<noteq> None"
| "target_ok k (Pipe i) \<longleftrightarrow> i < length (bufs k)"
| "target_ok k Tty \<longleftrightarrow> True"

lemma target_ok_mono:
  "dom (disk k) \<subseteq> dom (disk k') \<Longrightarrow> length (bufs k) \<le> length (bufs k') \<Longrightarrow> target_ok k x \<Longrightarrow> target_ok k' x"
  by (cases x) auto

definition wf_kernel :: "kernel \<Rightarrow> bool" where
  "wf_kernel k \<longleftrightarrow>
     (\<forall>t \<in> set (tables k). \<forall>d. Some d \<in> set t \<longrightarrow> d < length (ofiles k)) \<and>
     (\<forall>d \<in> set (ofiles k). target_ok k (obj d))"

lemma wf_lookup: "wf_kernel k \<Longrightarrow> lookup_fd p fd k = Some d \<Longrightarrow> d < length (ofiles k)"
  unfolding wf_kernel_def lookup_fd_def
  by (smt (verit) nat_less_iff nth_mem option.discI)

lemma wf_target: "wf_kernel k \<Longrightarrow> lookup_fd p fd k = Some d \<Longrightarrow> target_ok k (obj (ofiles k ! d))"
  using wf_lookup by (auto simp: wf_kernel_def)

lemma wf_put_fd:
  assumes "wf_kernel k" "x = None \<or> (\<exists>d. x = Some d \<and> d < length (ofiles k))"
  shows "wf_kernel (put_fd p i x k)"
proof (cases "p < length (tables k)")
  case True
  have "d < length (ofiles k)" if "Some d \<in> set (set_fd i x (tables k ! p))" for d
    using that set_set_fd [of i x "tables k ! p"] assms nth_mem [OF True] by (auto simp: wf_kernel_def)
  moreover have "set ((tables k)[p := set_fd i x (tables k ! p)]) \<subseteq> insert (set_fd i x (tables k ! p)) (set (tables k))"
    by (rule set_update_subset_insert)
  ultimately have "\<forall>t \<in> set (tables (put_fd p i x k)). \<forall>d. Some d \<in> set t \<longrightarrow> d < length (ofiles k)"
    using assms(1) unfolding wf_kernel_def put_fd_def by auto
  moreover have "target_ok (put_fd p i x k) y" if "target_ok k y" for y
    using that by (rule target_ok_mono [rotated 2]) auto
  ultimately show ?thesis using assms(1) by (simp add: wf_kernel_def)
next
  case False
  then have "put_fd p i x k = k" by (cases k) (simp add: put_fd_def list_update_beyond)
  with assms(1) show ?thesis by simp
qed

lemma wf_grow:
  assumes wf: "wf_kernel k" and same: "tables k' = tables k" "map obj (ofiles k') = map obj (ofiles k) @ xs"
    and mono: "dom (disk k) \<subseteq> dom (disk k')" "length (bufs k) \<le> length (bufs k')"
    and new: "\<forall>x \<in> set xs. target_ok k' x"
  shows "wf_kernel k'"
proof -
  from same(2) have "length (ofiles k) \<le> length (ofiles k')"
    by (metis length_append length_map le_add1)
  then have "\<forall>t \<in> set (tables k'). \<forall>d. Some d \<in> set t \<longrightarrow> d < length (ofiles k')"
    using wf same(1) unfolding wf_kernel_def by (metis order_less_le_trans)
  moreover have "target_ok k' x" if "x \<in> set (map obj (ofiles k'))" for x
  proof -
    from that same(2) have "x \<in> set (map obj (ofiles k)) \<or> x \<in> set xs" by simp
    with wf new show ?thesis by (auto simp: wf_kernel_def intro: target_ok_mono [OF mono])
  qed
  ultimately show ?thesis by (simp add: wf_kernel_def)
qed

lemma wf_new_fd:
  assumes "wf_kernel k" "target_ok k (obj d)"
  shows "wf_kernel (snd (new_fd p d k))"
proof -
  let ?k = "k\<lparr>ofiles := ofiles k @ [d]\<rparr>"
  have "target_ok ?k (obj d)" using assms(2) by (rule target_ok_mono [rotated 2]) auto
  then have "wf_kernel ?k" by (intro wf_grow [OF assms(1), of ?k "[obj d]"]) auto
  then show ?thesis by (auto simp: new_fd_def intro!: wf_put_fd)
qed

lemma map_obj_seek [simp]: "map obj (ds[d := (ds ! d)\<lparr>seekp := n\<rparr>]) = map obj ds"
  by (cases "d < length ds")
    (auto intro!: nth_equalityI simp: nth_list_update list_update_beyond simp del: map_update)

lemma wf_set_seek: "wf_kernel k \<Longrightarrow> wf_kernel (set_seek d n k)"
  by (erule wf_grow [of _ _ "[]"]) (simp_all add: set_seek_def del: map_update)

lemma wf_disk: "wf_kernel k \<Longrightarrow> wf_kernel (k\<lparr>disk := (disk k)(f := Some c)\<rparr>)"
  by (erule wf_grow [of _ _ "[]"]) auto

lemma wf_bufs: "wf_kernel k \<Longrightarrow> length (bufs k) \<le> length b \<Longrightarrow> wf_kernel (k\<lparr>bufs := b\<rparr>)"
  by (erule wf_grow [of _ _ "[]"]) auto

lemma wf_screen: "wf_kernel k \<Longrightarrow> wf_kernel (k\<lparr>screen := x\<rparr>)"
  by (erule wf_grow [of _ _ "[]"]) auto

lemma wf_typed: "wf_kernel k \<Longrightarrow> wf_kernel (k\<lparr>typed := y\<rparr>)"
  by (erule wf_grow [of _ _ "[]"]) auto

lemma wf_sys_open: "wf_kernel k \<Longrightarrow> wf_kernel (snd (sys_open p f a fl k))"
  by (auto simp: sys_open_def Let_def intro!: wf_new_fd wf_disk)

lemma wf_sys_pipe: "wf_kernel k \<Longrightarrow> wf_kernel (snd (snd (sys_pipe p k)))"
proof -
  assume wf: "wf_kernel k"
  let ?i = "length (bufs k)" let ?k = "k\<lparr>bufs := bufs k @ [[]]\<rparr>"
  define k1 where "k1 = snd (new_fd p \<lparr>obj = Pipe ?i, acc = RdOnly, seekp = 0\<rparr> ?k)"
  from wf have "wf_kernel ?k" by (simp add: wf_bufs)
  then have k1: "wf_kernel k1" unfolding k1_def by (rule wf_new_fd) simp
  have "bufs k1 = bufs k @ [[]]" by (simp add: k1_def new_fd_def)
  then have "target_ok k1 (Pipe ?i)" by simp
  with k1 have "wf_kernel (snd (new_fd p \<lparr>obj = Pipe ?i, acc = WrOnly, seekp = 0\<rparr> k1))"
    by (intro wf_new_fd) auto
  then show "wf_kernel (snd (snd (sys_pipe p k)))"
    by (simp add: sys_pipe_def Let_def case_prod_beta k1_def)
qed

lemma wf_sys_dup: "wf_kernel k \<Longrightarrow> wf_kernel (snd (sys_dup p fd k))"
  by (auto simp: sys_dup_def intro!: wf_put_fd dest: wf_lookup split: option.split)

lemma wf_sys_dup2: "wf_kernel k \<Longrightarrow> wf_kernel (snd (sys_dup2 p fd fd' k))"
  by (auto simp: sys_dup2_def intro!: wf_put_fd dest: wf_lookup split: option.split)

lemma wf_sys_close: "wf_kernel k \<Longrightarrow> wf_kernel (snd (sys_close p fd k))"
  by (auto simp: sys_close_def intro!: wf_put_fd)

lemma wf_sys_fork: "wf_kernel k \<Longrightarrow> p < length (tables k) \<Longrightarrow> wf_kernel (snd (sys_fork p k))"
  by (auto simp: wf_kernel_def sys_fork_def intro: target_ok_mono [rotated 2])

lemma wf_sys_exit: "wf_kernel k \<Longrightarrow> wf_kernel (sys_exit p k)"
  using set_update_subset_insert [of "tables k" p "[]"]
  by (auto simp: wf_kernel_def sys_exit_def intro: target_ok_mono [rotated 2])

lemma wf_sys_lseek: "wf_kernel k \<Longrightarrow> wf_kernel (snd (sys_lseek p fd n w k))"
  by (auto simp: sys_lseek_def Let_def intro!: wf_set_seek split: option.split target.split)

lemma wf_sys_read: "wf_kernel k \<Longrightarrow> sys_read p fd n k = Ret (r, x, k') \<Longrightarrow> wf_kernel k'"
  by (auto simp: sys_read_def Let_def intro!: wf_set_seek wf_bufs wf_typed
      split: option.splits target.splits list.splits if_splits)

lemma wf_sys_write: "wf_kernel k \<Longrightarrow> sys_write p fd x k = Ret (r, k') \<Longrightarrow> wf_kernel k'"
  by (auto simp: sys_write_def Let_def intro!: wf_set_seek wf_bufs wf_disk wf_screen
      split: option.splits target.splits if_splits)

lemmas wf_calls = wf_sys_open wf_sys_pipe wf_sys_dup wf_sys_dup2 wf_sys_close wf_sys_fork wf_sys_exit
  wf_sys_lseek wf_sys_read wf_sys_write

text \<open>The calls as the labels of a transition system: who calls, and what.\<close>

datatype call =
    Open string access "oflag list" | Close int | Dup int | Dup2 int int | Make_pipe | Fork | Exit
  | Read int nat | Write int bytes | Lseek int nat whence

definition kernel_call :: "nat \<times> call \<Rightarrow> kernel \<Rightarrow> kernel io" where
  "kernel_call pc k = (case pc of (p, c) \<Rightarrow>
     (if length (tables k) \<le> p then Block
      else (case c of
        Open f a fl \<Rightarrow> Ret (snd (sys_open p f a fl k))
      | Close fd \<Rightarrow> Ret (snd (sys_close p fd k))
      | Dup fd \<Rightarrow> Ret (snd (sys_dup p fd k))
      | Dup2 fd fd' \<Rightarrow> Ret (snd (sys_dup2 p fd fd' k))
      | Make_pipe \<Rightarrow> Ret (snd (snd (sys_pipe p k)))
      | Fork \<Rightarrow> Ret (snd (sys_fork p k))
      | Exit \<Rightarrow> Ret (sys_exit p k)
      | Read fd n \<Rightarrow> io_bind (sys_read p fd n k) (\<lambda>(_, _, k'). Ret k')
      | Write fd x \<Rightarrow> io_bind (sys_write p fd x k) (\<lambda>(_, k'). Ret k')
      | Lseek fd n w \<Rightarrow> Ret (snd (sys_lseek p fd n w k)))))"

text \<open>A shell has started the first process on the terminal.\<close>

definition shell :: "(string \<Rightarrow> bytes option) \<Rightarrow> bytes list \<Rightarrow> kernel" where
  "shell files input =
     \<lparr>disk = files, ofiles = [\<lparr>obj = Tty, acc = RdWr, seekp = 0\<rparr>], bufs = [],
      tables = [[Some 0, Some 0, Some 0]], typed = input, screen = []\<rparr>"

lemma wf_shell: "wf_kernel (shell files input)"
  by (simp add: shell_def wf_kernel_def)

interpretation kernel_wf: inductive_invariant "\<lambda>k. \<exists>files input. k = shell files input"
    "\<lambda>l k k'. kernel_call l k = Ret k'" wf_kernel
proof unfold_locales
  fix l k k'
  assume "wf_kernel k" "kernel_call l k = Ret k'"
  then show "wf_kernel k'"
    by (cases l; cases "snd l") (auto simp: kernel_call_def intro: wf_calls split: if_splits)
qed (auto simp: wf_shell)

end
