(* ===== verification/Fd_Programs.thy ===== *)
theory Fd_Programs
  imports Kernel
begin

text \<open>
  Programs of one process on the descriptors of Kernel: src/process_api/dup.cpp and dup2.cpp,
  src/bases/file_opts.cpp and NonblockRead.cpp, src/IPC/mmap.cpp and SIGPIPE.cpp, and the daemon of
  src/session/Daemon.cpp. What a program prints is a list of items beside the state.
\<close>

section \<open>Text, C strings and output\<close>

definition ascii :: "string \<Rightarrow> bytes" where
  "ascii s = map of_char s"

datatype out = Say string | Num int | Shown bytes

text \<open>
  What \<open>%s\<close> prints of a buffer: the bytes before the first NUL. Without one it reads past the end.
\<close>

definition c_str :: "bytes \<Rightarrow> bytes io" where
  "c_str b = (if 0 \<in> set b then Ret (takeWhile (\<lambda>x. x \<noteq> 0) b) else Fault Out_of_bounds)"

text \<open>What is in a buffer after \<open>read\<close>: the bytes read, then what was there before.\<close>

definition filled :: "bytes \<Rightarrow> bytes \<Rightarrow> bytes" where
  "filled x buf = x @ drop (length x) buf"

section \<open>dup.cpp\<close>

definition dup_main :: "string option \<Rightarrow> kernel \<Rightarrow> (int \<times> out list \<times> kernel) io" where
  "dup_main arg k =
     (case arg of
        None \<Rightarrow> Ret (-1, [Say ''missing parameter to dup''], k)
      | Some path \<Rightarrow>
          (let (fd, k) = sys_open 0 path RdOnly [] k;
               (newfd, k) = sys_dup 0 fd k in
           io_bind (sys_write 0 newfd (ascii ''111'') k) (\<lambda>(n, k). Ret (0, [Num n], k))))"

section \<open>dup2.cpp\<close>

text \<open>The variable \<open>fd2\<close> is never assigned: its value is an input, and so are the bytes in \<open>buf\<close>.\<close>

definition dup2_main :: "int \<Rightarrow> bytes \<Rightarrow> kernel \<Rightarrow> (int \<times> out list \<times> kernel) io" where
  "dup2_main fd2 buf k =
     (let (fd1, k) = sys_open 0 ''test.txt'' WrOnly [O_CREAT, O_TRUNC] k in
      if fd1 < 0 then Ret (1, [Say ''open file error''], k)
      else io_bind (sys_write 0 fd1 (ascii ''Hello, World!'' @ [10]) k) (\<lambda>(_, k).
        let (_, k) = sys_lseek 0 fd1 0 SEEK_SET k in
        if fd2 < 0 then Ret (1, [Say ''dup2 error!''], k)
        else io_bind (sys_read 0 fd2 1024 k) (\<lambda>(_, x, k).
          io_bind (c_str (filled x buf)) (\<lambda>s.
            let (_, k) = sys_close 0 fd1 k; (_, k) = sys_close 0 fd2 k in
            Ret (0, [Shown s], k)))))"

section \<open>file\_opts.cpp\<close>

definition file_opts_main :: "bytes \<Rightarrow> kernel \<Rightarrow> (out list \<times> kernel) io" where
  "file_opts_main buf k =
     (let (fd, k) = sys_open 0 ''test.cpp'' RdWr [O_CREAT] k in
      io_bind (sys_write 0 fd (ascii ''hello'') k) (\<lambda>(_, k).
        let (_, k) = sys_lseek 0 fd 0 SEEK_SET k in
        io_bind (sys_read 0 fd 100 k) (\<lambda>(_, x, k).
          io_bind (c_str (filled x buf)) (\<lambda>s.
            let (_, k) = sys_close 0 fd k in Ret ([Shown s], k)))))"

section \<open>mmap.cpp\<close>

text \<open>
  A mapping has whole pages: beyond the length that was asked for, up to the end of the last page,
  there are zeros, and what is written there does not reach the file.
\<close>

definition page_end :: "nat \<Rightarrow> nat" where
  "page_end n = 4096 * ((n + 4095) div 4096)"

definition map_pages :: "nat \<Rightarrow> bytes \<Rightarrow> bytes" where
  "map_pages n c = take n c @ replicate (page_end n - length (take n c)) 0"

definition poke :: "nat \<Rightarrow> bytes \<Rightarrow> bytes \<Rightarrow> bytes io" where
  "poke i x m = (if i + length x \<le> length m then Ret (take i m @ x @ drop (i + length x) m)
     else Fault Out_of_bounds)"

definition mmap_main :: "kernel \<Rightarrow> (out list \<times> kernel) io" where
  "mmap_main k =
     (let (fd, k) = sys_open 0 ''test'' RdWr [O_CREAT, O_TRUNC] k;
          (_, k) = sys_lseek 0 fd 100 SEEK_END k in
      io_bind (sys_write 0 fd (take 1 (ascii ''/0'')) k) (\<lambda>(_, k).
        let (len, k) = sys_lseek 0 fd 0 SEEK_END k;
            p = map_pages (nat len) (contents_of ''test'' k) in
        io_bind (poke 0 (ascii ''hella'' @ [0]) p) (\<lambda>p.
          io_bind (c_str (drop 110 p)) (\<lambda>s.
            Ret ([Num fd, Num len, Num len, Shown s],
                 k\<lparr>disk := (disk k)(''test'' \<mapsto> take (nat len) p)\<rparr>)))))"

section \<open>SIGPIPE.cpp\<close>

definition EPIPE :: nat where "EPIPE = 32"
definition SIGPIPE :: nat where "SIGPIPE = 13"

text \<open>
  The disposition of SIGPIPE is inherited: by default the write ends the process, if it is ignored
  the write returns -1 with \<open>errno = EPIPE\<close>.
\<close>

definition sigpipe_main :: "bool \<Rightarrow> kernel \<Rightarrow> (out list \<times> kernel) io" where
  "sigpipe_main ignored k =
     (let (r, w, k) = sys_pipe 0 k;
          (_, k) = sys_close 0 r k;
          x = ascii ''hello'' @ [0];
          res = (case sys_write 0 w x k of
                   Sigpipe \<Rightarrow> if ignored then Ret (-1, EPIPE, k) else Sigpipe
                 | Ret (n, k) \<Rightarrow> Ret (n, 0, k)
                 | Block \<Rightarrow> Block | Fault e \<Rightarrow> Fault e) in
      io_bind res (\<lambda>(n, errno, k).
        let said = (if n = -1 then
                      (if errno = SIGPIPE then [Say ''write'', Say ''Caught SIGPIPE signal!'']
                       else [Say ''write'', Say ''?''])
                    else []);
            (_, k) = sys_close 0 w k in
        Ret (said @ [Say ''good''], k)))"

section \<open>The daemon\<close>

text \<open>
  The loop of \<open>Daemon_work\<close> writes the time again and again; the list has what \<open>ctime_r\<close> gives in the
  rounds so far. \<open>chdir\<close> has moved the daemon one directory up.
\<close>

fun log_times :: "nat \<Rightarrow> int \<Rightarrow> bytes list \<Rightarrow> kernel \<Rightarrow> kernel io" where
  "log_times p fd [] k = Ret k"
| "log_times p fd (x # xs) k = io_bind (sys_write p fd x k) (\<lambda>(_, k). log_times p fd xs k)"

definition Daemon_work :: "nat \<Rightarrow> bytes list \<Rightarrow> kernel \<Rightarrow> (int \<times> kernel) io" where
  "Daemon_work p stamps k =
     (let (fd, k) = sys_open p ''../time.log'' RdWr [O_CREAT] k in
      io_bind (log_times p fd stamps k) (\<lambda>k. Ret (fd, k)))"

text \<open>
  \<open>fork\<close> returns the child's number to the parent, 0 to the child, -1 when it fails. What the parent
  says; and the daemon, process 1, after its first rounds.
\<close>

definition daemon_parent :: "int \<Rightarrow> out list" where
  "daemon_parent pid = (if pid = 0 then [] else [Say ''fork err''])"

definition Daemon_Create :: "bytes list \<Rightarrow> kernel \<Rightarrow> (int \<times> out list \<times> kernel) io" where
  "Daemon_Create stamps k =
     (let (err, k) = sys_open 0 ''ERROR_FILE'' RdWr [O_CREAT] k;
          (pid, k) = sys_fork 0 k;
          said = daemon_parent (int pid);
          k = sys_exit 0 k;
          (_, k) = sys_close pid 0 k;
          (_, k) = sys_close pid 1 k;
          (_, k) = sys_dup2 pid err 2 k in
      io_bind (Daemon_work pid stamps k) (\<lambda>(fd, k). Ret (fd, said, k)))"

section \<open>NonblockRead.cpp\<close>

definition EAGAIN :: int where "EAGAIN = 11"
definition EWOULDBLOCK :: int where "EWOULDBLOCK = 11"

text \<open>
  Each call of \<open>read\<close> gives what it returns, the value of \<open>errno\<close> after it, and bytes. The result is the
  exit code and the output; \<open>None\<close> when the loop goes on after the calls of the list.
\<close>

fun nonblock_loop :: "(int \<times> int \<times> bytes) list \<Rightarrow> out list \<Rightarrow> (int \<times> out list) option" where
  "nonblock_loop [] said = None"
| "nonblock_loop ((n, errno, x) # rs) said =
     (if n < 1 then
        (if errno \<noteq> EAGAIN \<or> errno \<noteq> EWOULDBLOCK then Some (1, said @ [Say ''read file error''])
         else nonblock_loop rs (said @ [Shown (ascii ''try again'' @ [0])]))
      else Some (0, said @ [Shown (take (nat n) x)]))"

section \<open>What the programs do\<close>

lemmas kernel_calls = sys_open_def sys_close_def sys_dup_def sys_dup2_def sys_pipe_def sys_fork_def
  sys_exit_def sys_read_def sys_write_def sys_lseek_def
lemmas kernel_tables = new_fd_def put_fd_def next_fd_def set_fd_def lookup_fd_def set_seek_def
  contents_of_def can_read_def can_write_def holds_end_def

text \<open>
  A descriptor that \<open>open\<close> with \<open>O_RDONLY\<close> gave cannot be written to, nor can a copy of it.
\<close>

lemma write_read_only:
  assumes "lookup_fd p fd k = Some d" "acc (ofiles k ! d) = RdOnly"
  shows "sys_write p fd x k = Ret (-1, k)"
  using assms by (simp add: sys_write_def can_write_def)

theorem dup_cannot_write:
  assumes "0 < length (tables k)"
  shows "\<exists>k'. dup_main (Some path) k = Ret (0, [Num (-1)], k') \<and> disk k' = disk k \<and> screen k' = screen k"
proof (cases "disk k path")
  case None
  then show ?thesis using assms
    by (simp add: dup_main_def sys_open_def sys_dup_def sys_write_def lookup_fd_def)
next
  case (Some c)
  define k1 where "k1 = snd (sys_open 0 path RdOnly [] k)"
  define fd where "fd = next_fd 0 k"
  define k2 where "k2 = put_fd 0 (next_fd 0 k1) (Some (length (ofiles k))) k1"
  have o: "sys_open 0 path RdOnly [] k = (int fd, k1)"
    using Some by (simp add: k1_def sys_open_def fd_def new_fd_def next_fd_def)
  have k1: "lookup_fd 0 (int fd) k1 = Some (length (ofiles k))"
    "ofiles k1 = ofiles k @ [\<lparr>obj = Disk path, acc = RdOnly, seekp = 0\<rparr>]"
    "disk k1 = disk k" "screen k1 = screen k" "length (tables k1) = length (tables k)"
    using Some assms by (auto simp: k1_def fd_def sys_open_def new_fd_def next_fd_def Let_def)
  then have d: "sys_dup 0 (int fd) k1 = (int (next_fd 0 k1), k2)"
    by (simp add: sys_dup_def k2_def)
  have "sys_write 0 (int (next_fd 0 k1)) x k2 = Ret (-1, k2)" for x
    using k1 assms by (intro write_read_only [of _ _ _ "length (ofiles k)"]) (auto simp: k2_def)
  then have "dup_main (Some path) k = Ret (0, [Num (-1)], k2)"
    by (simp add: dup_main_def o d)
  with k1 show ?thesis by (simp add: k2_def)
qed

text \<open>
  A process with one file open, as descriptor 3, and its calls on that file: three of the programs
  never leave these states.
\<close>

definition one_file :: "string \<Rightarrow> access \<Rightarrow> nat \<Rightarrow> bytes \<Rightarrow> (string \<Rightarrow> bytes option) \<Rightarrow> bytes list \<Rightarrow> kernel" where
  "one_file f a s c files input =
     \<lparr>disk = files(f \<mapsto> c),
      ofiles = [\<lparr>obj = Tty, acc = RdWr, seekp = 0\<rparr>, \<lparr>obj = Disk f, acc = a, seekp = s\<rparr>], bufs = [],
      tables = [[Some 0, Some 0, Some 0, Some 1]], typed = input, screen = []\<rparr>"

lemma open_one_file:
  "O_CREAT \<in> set fl \<Longrightarrow> sys_open 0 f a fl (shell files input) =
     (3, one_file f a 0 (if O_TRUNC \<in> set fl then [] else (case files f of None \<Rightarrow> [] | Some c \<Rightarrow> c)) files input)"
  by (simp add: sys_open_def kernel_tables shell_def one_file_def)

lemma write_one_file:
  "can_write a \<Longrightarrow> sys_write 0 3 x (one_file f a s c files input) =
     Ret (int (length x), one_file f a (s + length x) (write_at s x c) files input)"
  by (simp add: sys_write_def kernel_tables one_file_def Let_def)

lemma read_one_file:
  "can_read a \<Longrightarrow> sys_read 0 3 n (one_file f a s c files input) =
     (let x = take n (drop s c) in Ret (int (length x), x, one_file f a (s + length x) c files input))"
  by (simp add: sys_read_def kernel_tables one_file_def Let_def)

lemma lseek_one_file:
  "sys_lseek 0 3 n w (one_file f a s c files input) =
     (let m = (case w of SEEK_SET \<Rightarrow> n | SEEK_END \<Rightarrow> length c + n) in (int m, one_file f a m c files input))"
  by (simp add: sys_lseek_def kernel_tables one_file_def Let_def split: whence.split)

lemma one_file_disk [simp]: "disk (one_file f a s c files input) = files(f \<mapsto> c)"
  by (simp add: one_file_def)

lemma close_disk [simp]: "disk (snd (sys_close p fd k)) = disk k"
  by (simp add: sys_close_def)

lemmas file_calls = open_one_file write_one_file read_one_file lseek_one_file can_read_def can_write_def

lemma c_str_zeros [simp]: "0 < n \<Longrightarrow> c_str (replicate n 0) = Ret []"
  by (cases n) (auto simp: c_str_def)

lemma mmap_result:
  "\<exists>k. mmap_main (shell files input) = Ret ([Num 3, Num 101, Num 101, Shown []], k) \<and>
     disk k ''test'' = Some (ascii ''hella'' @ [0] @ replicate 94 0 @ ascii ''/'')"
proof -
  let ?c = "replicate 100 0 @ ascii ''/''"
  let ?d = "ascii ''hella'' @ [0] @ replicate 94 0 @ ascii ''/'' @ replicate 3995 0"
  have w: "write_at 100 (take 1 (ascii ''/0'')) [] = ?c" "length (take 1 (ascii ''/0'')) = 1"
    by (simp_all add: write_at_def ascii_def)
  have m: "map_pages 101 ?c = ?c @ replicate 3995 0" "length ?c = 101"
    by (simp_all add: map_pages_def page_end_def ascii_def)
  have p: "poke 0 (ascii ''hella'' @ [0]) (?c @ replicate 3995 0) = Ret ?d"
    by (simp add: poke_def ascii_def)
  have c: "c_str (drop 110 ?d) = Ret []" by (simp add: ascii_def)
  have l: "take 101 ?d = ascii ''hella'' @ [0] @ replicate 94 0 @ ascii ''/''"
    by (simp add: ascii_def)
  show ?thesis
    using w m p c l by (simp add: mmap_main_def file_calls Let_def contents_of_def
      del: append_assoc append.simps take_append length_append)
qed

lemma file_opts_result:
  assumes "file_opts_main buf (shell files input) = Ret (os, k)"
    and old: "old = (case files ''test.cpp'' of None \<Rightarrow> [] | Some c \<Rightarrow> c)"
  shows "disk k ''test.cpp'' = Some (ascii ''hello'' @ drop 5 old) \<and>
    (\<exists>s. c_str (filled (take 100 (ascii ''hello'' @ drop 5 old)) buf) = Ret s \<and> os = [Shown s])"
proof -
  have w: "write_at 0 (ascii ''hello'') old = ascii ''hello'' @ drop 5 old"
    by (simp add: write_at_def ascii_def numeral_eq_Suc)
  show ?thesis
    using assms(1) w [unfolded old] unfolding file_opts_main_def old
    by (auto simp: file_calls Let_def case_prod_beta simp del: append_assoc append.simps take_append length_append)
qed

text \<open>
  In a well-formed kernel a new pipe is referred to by the two new descriptors only.
\<close>

lemma holds_end_iff:
  "holds_end A i k \<longleftrightarrow> (\<exists>p fd d. lookup_fd p fd k = Some d \<and> obj (ofiles k ! d) = Pipe i \<and> A (acc (ofiles k ! d)))"
proof
  assume "holds_end A i k"
  then obtain t d where t: "t \<in> set (tables k)" "Some d \<in> set t" "obj (ofiles k ! d) = Pipe i" "A (acc (ofiles k ! d))"
    by (auto simp: holds_end_def list_ex_iff split: option.splits)
  then obtain p fd where "p < length (tables k)" "tables k ! p = t" "fd < length t" "t ! fd = Some d"
    by (metis in_set_conv_nth)
  then have "lookup_fd p (int fd) k = Some d" by (simp add: lookup_fd_def)
  with t show "\<exists>p fd d. lookup_fd p fd k = Some d \<and> obj (ofiles k ! d) = Pipe i \<and> A (acc (ofiles k ! d))"
    by blast
next
  assume "\<exists>p fd d. lookup_fd p fd k = Some d \<and> obj (ofiles k ! d) = Pipe i \<and> A (acc (ofiles k ! d))"
  then obtain p fd d where d: "lookup_fd p fd k = Some d" "obj (ofiles k ! d) = Pipe i" "A (acc (ofiles k ! d))"
    by blast
  then have "tables k ! p \<in> set (tables k)" "Some d \<in> set (tables k ! p)"
    by (auto simp: lookup_fd_def split: if_splits) (metis nat_less_iff nth_mem)
  with d show "holds_end A i k" unfolding holds_end_def list_ex_iff by force
qed

lemma dup2_result:
  assumes "dup2_main fd2 buf (shell files input) = Ret (r, os, k)"
  shows "disk k ''test.txt'' = Some (ascii ''Hello, World!'' @ [10]) \<and>
    (fd2 < 0 \<and> os = [Say ''dup2 error!''] \<or>
     0 \<le> fd2 \<and> fd2 \<le> 2 \<and> (\<exists>l ls s. input = l # ls \<and> c_str (filled (take 1024 l) buf) = Ret s \<and> os = [Shown s]) \<or>
     3 \<le> fd2 \<and> (\<exists>s. c_str buf = Ret s \<and> os = [Shown s]))"
proof -
  let ?h = "ascii ''Hello, World!'' @ [10]"
  let ?k = "one_file ''test.txt'' WrOnly 0 ?h files input"
  have w: "write_at 0 ?h [] = ?h" by (simp add: write_at_def ascii_def)
  have rest: "(if fd2 < 0 then Ret (1, [Say ''dup2 error!''], ?k)
        else io_bind (sys_read 0 fd2 1024 ?k) (\<lambda>(_, x, k).
          io_bind (c_str (filled x buf)) (\<lambda>s.
            let (_, k) = sys_close 0 3 k; (_, k) = sys_close 0 fd2 k in
            Ret (0, [Shown s], k)))) = Ret (r, os, k)"
    using assms w by (simp add: dup2_main_def file_calls Let_def del: append.simps length_append)
  consider "fd2 < 0" | "fd2 = 0 \<or> fd2 = 1 \<or> fd2 = 2" | "3 \<le> fd2" by linarith
  then show ?thesis
  proof cases
    case 2
    then have "sys_read 0 fd2 1024 ?k = (case input of [] \<Rightarrow> Block
        | l # ls \<Rightarrow> Ret (int (length (take 1024 l)), take 1024 l,
            ?k\<lparr>typed := (if length l \<le> 1024 then ls else drop 1024 l # ls)\<rparr>))"
      by (auto simp: sys_read_def kernel_tables one_file_def split: list.split)
    with rest 2 show ?thesis
      by (auto simp: case_prod_beta Let_def split: list.splits)
  next
    case 3
    then have "sys_read 0 fd2 1024 ?k = Ret (-1, [], ?k)"
      by (cases "fd2 = 3") (auto simp: sys_read_def kernel_tables one_file_def)
    with rest 3 show ?thesis by (auto simp: case_prod_beta Let_def filled_def)
  qed (use rest in auto)
qed

section \<open>SIGPIPE\<close>

lemma new_pipe_unread:
  assumes wf: "wf_kernel k" and p: "p < length (tables k)" and s: "sys_pipe p k = (r, w, k1)"
  defines "k2 \<equiv> snd (sys_close p r k1)"
  shows "\<not> holds_end can_read (length (bufs k)) k2 \<and>
    (\<exists>d. lookup_fd p w k2 = Some d \<and> obj (ofiles k2 ! d) = Pipe (length (bufs k)) \<and> acc (ofiles k2 ! d) = WrOnly)"
proof -
  let ?n = "length (ofiles k)" let ?i = "length (bufs k)"
  let ?rd = "\<lparr>obj = Pipe ?i, acc = RdOnly, seekp = 0\<rparr>" let ?wd = "\<lparr>obj = Pipe ?i, acc = WrOnly, seekp = 0\<rparr>"
  define ka where "ka = put_fd p (next_fd p k) (Some ?n) (k\<lparr>bufs := bufs k @ [[]], ofiles := ofiles k @ [?rd]\<rparr>)"
  define j where "j = next_fd p ka"
  have r: "r = int (next_fd p k)" "w = int j" "k1 = put_fd p j (Some (Suc ?n)) (ka\<lparr>ofiles := ofiles k @ [?rd, ?wd]\<rparr>)"
    using s by (auto simp: sys_pipe_def new_fd_def ka_def j_def Let_def next_fd_def)
  have "next_fd p ka \<noteq> next_fd p k" unfolding ka_def using p by (intro next_fd_other) simp
  then have ne: "j \<noteq> next_fd p k" by (simp add: j_def)
  have len: "p < length (tables ka)" using p by (simp add: ka_def)
  have lka: "lookup_fd q fd ka = (if q = p \<and> fd = r then Some ?n else lookup_fd q fd k)" for q fd
    using p by (simp add: ka_def r(1) lookup_put)
  have l1: "lookup_fd q fd k1 = (if q = p \<and> fd = w then Some (Suc ?n) else lookup_fd q fd ka)" for q fd
    using len by (simp add: r(2,3) lookup_put)
  have k2: "k2 = put_fd p (next_fd p k) None k1"
    using l1 lka ne by (simp add: k2_def sys_close_def r(1,2))
  have "p < length (tables k1)" using len by (simp add: r(3))
  then have l2: "lookup_fd q fd k2 = (if q = p \<and> fd = r then None
      else if q = p \<and> fd = w then Some (Suc ?n) else lookup_fd q fd k)" for q fd
    by (simp add: k2 lookup_put l1 lka r(1))
  have o2: "ofiles k2 = ofiles k @ [?rd, ?wd]" by (simp add: k2 r(3))
  have "obj (ofiles k2 ! d) \<noteq> Pipe ?i" if "lookup_fd q fd k = Some d" for q fd d
    using wf_lookup [OF wf that] wf_target [OF wf that] by (auto simp: o2 nth_append)
  moreover have "\<not> can_read (acc (ofiles k2 ! Suc ?n))" by (simp add: o2 nth_append can_read_def)
  ultimately have "\<not> holds_end can_read ?i k2"
    unfolding holds_end_iff l2 by (auto split: if_splits)
  moreover have "lookup_fd p w k2 = Some (Suc ?n)" using ne by (simp add: l2 r(1,2))
  ultimately show ?thesis by (auto simp: o2 nth_append)
qed

text \<open>A write to a pipe whose reader has been closed: started with the default action of SIGPIPE the
  program is ended in the write and prints nothing; started with SIGPIPE ignored the write returns
  -1 with \<open>EPIPE\<close>, which is not the number of the signal, so the program prints the question mark
  and never the line that says it caught SIGPIPE. So in every well-formed kernel.
\<close>

theorem sigpipe_outcome:
  assumes "wf_kernel k" "0 < length (tables k)"
  shows "sigpipe_main False k = Sigpipe \<and>
    (\<exists>k'. sigpipe_main True k = Ret ([Say ''write'', Say ''?'', Say ''good''], k'))"
proof -
  obtain r w k1 where s: "sys_pipe 0 k = (r, w, k1)" by (metis prod_cases3)
  let ?k2 = "snd (sys_close 0 r k1)"
  from new_pipe_unread [OF assms s] have "sys_write 0 w x ?k2 = Sigpipe" for x
    by (auto simp: sys_write_def can_write_def)
  then show ?thesis
    by (simp add: sigpipe_main_def s case_prod_beta Let_def EPIPE_def SIGPIPE_def)
qed

theorem sigpipe_outcome_witness:
  "sigpipe_main False (shell (\<lambda>_. None) []) = Sigpipe"
  using sigpipe_outcome [OF wf_shell, of "\<lambda>_. None" "[]"] by (simp add: shell_def)

section \<open>The daemon\<close>

lemma set_seek_fields [simp]:
  "ofiles (set_seek d n k) = (ofiles k)[d := (ofiles k ! d)\<lparr>seekp := n\<rparr>]" "disk (set_seek d n k) = disk k"
  "tables (set_seek d n k) = tables k"
  by (simp_all add: set_seek_def)

lemma write_file:
  assumes "lookup_fd p fd k = Some d" "ofiles k ! d = \<lparr>obj = Disk f, acc = RdWr, seekp = s\<rparr>" "disk k f = Some c"
  shows "sys_write p fd x k = Ret (int (length x), set_seek d (s + length x) (k\<lparr>disk := (disk k)(f \<mapsto> write_at s x c)\<rparr>))"
  using assms by (simp add: sys_write_def can_write_def contents_of_def Let_def)

lemma write_at_append:
  "write_at (s + length x) y (write_at s x c) = write_at s (x @ y) c" if "s \<le> length c"
  using that by (auto simp: write_at_def min_def add.commute add.left_commute)

lemma log_times_file:
  "lookup_fd p fd k = Some d \<Longrightarrow> ofiles k ! d = \<lparr>obj = Disk f, acc = RdWr, seekp = s\<rparr> \<Longrightarrow> d < length (ofiles k) \<Longrightarrow>
   disk k f = Some c \<Longrightarrow> s \<le> length c \<Longrightarrow>
   \<exists>k'. log_times p fd xs k = Ret k' \<and> disk k' f = Some (write_at s (concat xs) c) \<and> tables k' = tables k"
proof (induction xs arbitrary: k s c)
  case Nil
  then show ?case by (simp add: write_at_def)
next
  case (Cons x xs)
  let ?k = "set_seek d (s + length x) (k\<lparr>disk := (disk k)(f \<mapsto> write_at s x c)\<rparr>)"
  have w: "sys_write p fd x k = Ret (int (length x), ?k)" using Cons.prems by (intro write_file)
  have "\<exists>k'. log_times p fd xs ?k = Ret k' \<and> disk k' f = Some (write_at (s + length x) (concat xs) (write_at s x c))
      \<and> tables k' = tables ?k"
    using Cons.prems by (intro Cons.IH)
      (simp_all add: length_write_at)
  with Cons.prems(5) w show ?case by (auto simp: write_at_append)
qed

text \<open>The daemon. The parent says that \<open>fork\<close> failed although it did not. The daemon has closed
  descriptors 0 and 1, so the log is opened as its standard input; since it is opened without
  \<open>O_APPEND\<close> or \<open>O_TRUNC\<close>, the times are written over the beginning of the log of the previous run, and
  what was longer stays.
\<close>

theorem daemon_log:
  "\<exists>k. Daemon_Create stamps (shell files input) = Ret (0, [Say ''fork err''], k) \<and>
     disk k ''../time.log'' = Some (concat stamps @ drop (length (concat stamps)) (contents_of ''../time.log'' (shell files input))) \<and>
     tables k = [[], [Some 2, None, Some 1, Some 1]]"
proof -
  let ?c = "contents_of ''../time.log'' (shell files input)"
  let ?k = "\<lparr>disk = (files(''ERROR_FILE'' \<mapsto> contents_of ''ERROR_FILE'' (shell files input)))(''../time.log'' \<mapsto> ?c),
      ofiles = [\<lparr>obj = Tty, acc = RdWr, seekp = 0\<rparr>, \<lparr>obj = Disk ''ERROR_FILE'', acc = RdWr, seekp = 0\<rparr>,
        \<lparr>obj = Disk ''../time.log'', acc = RdWr, seekp = 0\<rparr>],
      bufs = [], tables = [[], [Some 2, None, Some 1, Some 1]], typed = input, screen = []\<rparr>"
  have "Daemon_Create stamps (shell files input) =
      io_bind (log_times 1 0 stamps ?k) (\<lambda>k. Ret (0, [Say ''fork err''], k))"
    by (simp add: Daemon_Create_def Daemon_work_def daemon_parent_def kernel_calls kernel_tables shell_def
        io_bind_assoc numeral_eq_Suc)
  moreover have "\<exists>k. log_times 1 0 stamps ?k = Ret k \<and> disk k ''../time.log'' = Some (write_at 0 (concat stamps) ?c)
      \<and> tables k = tables ?k"
    by (rule log_times_file [of _ _ _ 2]) (simp_all add: lookup_fd_def)
  moreover have "write_at 0 x c = x @ drop (length x) c" for x c by (simp add: write_at_def)
  ultimately show ?thesis by auto
qed

section \<open>NonblockRead\<close>

text \<open>
  On Linux the two error numbers are the same, so the disjunction tests for \<open>EAGAIN\<close> as meant. The end of
  the file is not an error but returns 0 too, and then \<open>errno\<close> is what an earlier call left: an empty
  file is reported as an error, and after an \<open>EAGAIN\<close> the loop goes on for ever.
\<close>

lemma nonblock_retries:
  "nonblock_loop (replicate n (-1, EAGAIN, []) @ rs) said =
     nonblock_loop rs (said @ replicate n (Shown (ascii ''try again'' @ [0])))"
  by (induction n arbitrary: said) (auto simp: EAGAIN_def EWOULDBLOCK_def)

lemma nonblock_end_of_file:
  "nonblock_loop [(0, 0, [])] [] = Some (1, [Say ''read file error''])"
  "nonblock_loop (replicate (Suc n) (-1, EAGAIN, []) @ replicate m (0, EAGAIN, [])) said = None"
  "x \<noteq> [] \<Longrightarrow> nonblock_loop ((int (length x), e, x) # rs) said = Some (0, said @ [Shown x])"
proof -
  have "nonblock_loop (replicate m (0, EAGAIN, [])) said = None" for said
    by (induction m arbitrary: said) (auto simp: EAGAIN_def EWOULDBLOCK_def)
  then show "nonblock_loop (replicate (Suc n) (-1, EAGAIN, []) @ replicate m (0, EAGAIN, [])) said = None"
    unfolding nonblock_retries .
qed (auto simp: EAGAIN_def EWOULDBLOCK_def Suc_le_eq)

end
