(* ===== verification/Pipe_Programs.thy ===== *)
theory Pipe_Programs
  imports Fd_Programs
begin

text \<open>
  Two processes and a pipe: src/IPC/PIPE.cpp (a line goes from the parent to the child), src/IPC/mywc.cpp
  (\<open>ls | wc -l\<close>), src/IPC/fifo_A.cpp and fifo_B.cpp (two writes through a fifo). Each is a transition
  system over the kernel of Kernel; a label says which process moves.
\<close>

datatype who = Parent | Child

text \<open>
  A step that makes a call: it waits with the call, SIGPIPE ends the process in the state \<open>dead\<close>.
\<close>

fun io_step :: "'a io \<Rightarrow> ('a \<Rightarrow> 's) \<Rightarrow> 's \<Rightarrow> 's outcome option" where
  "io_step (Ret x) f dead = Some (Inr (f x))"
| "io_step Block f dead = None"
| "io_step Sigpipe f dead = Some (Inr dead)"
| "io_step (Fault e) f dead = Some (Inl e)"

section \<open>PIPE.cpp\<close>

datatype par_pc = P_close | P_read | P_write | P_close1 | P_end
datatype chi_pc = C_close | C_read | C_show | C_close0 | C_end

record pipe_run =
  kern :: kernel
  fd_r :: int
  fd_w :: int
  ppc :: par_pc
  cpc :: chi_pc
  pbuf :: bytes
  cbuf :: bytes

text \<open>
  Process 0 is the parent, process 1 the child; \<open>pbuf\<close> and \<open>cbuf\<close> are their arrays \<open>buf\<close> of 100 bytes.
  The last steps close the descriptor and return from \<open>main\<close>.
\<close>

fun PIPE_step :: "who \<Rightarrow> pipe_run \<Rightarrow> pipe_run outcome option" where
  "PIPE_step Parent s =
     (case ppc s of
        P_close \<Rightarrow> Some (Inr (s\<lparr>kern := snd (sys_close 0 (fd_r s) (kern s)), ppc := P_read\<rparr>))
      | P_read \<Rightarrow> io_step (sys_read 0 0 100 (kern s))
          (\<lambda>(n, x, k). s\<lparr>kern := k, pbuf := filled x (pbuf s), ppc := P_write\<rparr>) s
      | P_write \<Rightarrow> io_step (sys_write 0 (fd_w s) (pbuf s) (kern s))
          (\<lambda>(n, k). s\<lparr>kern := k, ppc := P_close1\<rparr>) (s\<lparr>kern := sys_exit 0 (kern s), ppc := P_end\<rparr>)
      | P_close1 \<Rightarrow> Some (Inr (s\<lparr>kern := sys_exit 0 (snd (sys_close 0 (fd_w s) (kern s))), ppc := P_end\<rparr>))
      | P_end \<Rightarrow> None)"
| "PIPE_step Child s =
     (case cpc s of
        C_close \<Rightarrow> Some (Inr (s\<lparr>kern := snd (sys_close 1 (fd_w s) (kern s)), cpc := C_read\<rparr>))
      | C_read \<Rightarrow> io_step (sys_read 1 (fd_r s) 100 (kern s))
          (\<lambda>(n, x, k). s\<lparr>kern := k, cbuf := filled x (cbuf s), cpc := C_show\<rparr>) s
      | C_show \<Rightarrow> io_step (io_bind (c_str (cbuf s)) (\<lambda>x. sys_write 1 1 x (kern s)))
          (\<lambda>(n, k). s\<lparr>kern := k, cpc := C_close0\<rparr>) (s\<lparr>kern := sys_exit 1 (kern s), cpc := C_end\<rparr>)
      | C_close0 \<Rightarrow> Some (Inr (s\<lparr>kern := sys_exit 1 (snd (sys_close 1 (fd_r s) (kern s))), cpc := C_end\<rparr>))
      | C_end \<Rightarrow> None)"

text \<open>
  \<open>main\<close> up to the fork. The arrays are not initialised: their bytes are inputs.
\<close>

definition PIPE_main :: "bytes list \<Rightarrow> bytes \<Rightarrow> bytes \<Rightarrow> pipe_run" where
  "PIPE_main input pj cj =
     (let (r, w, k) = sys_pipe 0 (shell (\<lambda>_. None) input); (pid, k) = sys_fork 0 k in
      \<lparr>kern = k, fd_r = r, fd_w = w, ppc = P_close, cpc = C_close, pbuf = pj, cbuf = cj\<rparr>)"

text \<open>
  The whole of \<open>main\<close>, with what \<open>pipe\<close> and \<open>fork\<close> do. A failing \<open>pipe\<close> is reported and the program goes on:
  the first thing both processes do then is to close a descriptor that was never set. If \<open>fork\<close> fails neither
  branch is taken and \<open>main\<close> returns, without a word.
\<close>

datatype PIPE_begun = Both pipe_run | Returned kernel

definition PIPE_begin :: "bool \<Rightarrow> bool \<Rightarrow> bytes list \<Rightarrow> bytes \<Rightarrow> bytes \<Rightarrow> PIPE_begun outcome" where
  "PIPE_begin piped forked input pj cj =
     (if \<not> forked then Inr (Returned (sys_exit 0 (if piped then snd (snd (sys_pipe 0 (shell (\<lambda>_. None) input)))
        else shell (\<lambda>_. None) input)))
      else if \<not> piped then Inl Indeterminate
      else Inr (Both (PIPE_main input pj cj)))"

lemma PIPE_begun:
  "PIPE_begin piped forked input pj cj = Inl f \<longleftrightarrow> forked \<and> \<not> piped \<and> f = Indeterminate"
  "PIPE_begin piped forked input pj cj = Inr (Both s) \<longleftrightarrow> forked \<and> piped \<and> s = PIPE_main input pj cj"
  "PIPE_begin piped False input pj cj = Inr (Returned k) \<Longrightarrow> screen k = [] \<and> typed k = input"
  by (auto simp: PIPE_begin_def kernel_calls kernel_tables shell_def Let_def split: if_splits)

text \<open>
  The state as a function of the two program counters: the line has been read when the parent is
  past its \<open>read\<close>, the 100 bytes are in the pipe while only the parent is past its call.
\<close>

definition PIPE_at :: "bytes \<Rightarrow> bytes \<Rightarrow> bytes list \<Rightarrow> bytes \<Rightarrow> bytes \<Rightarrow> par_pc \<Rightarrow> chi_pc \<Rightarrow> pipe_run" where
  "PIPE_at b l ls pj cj p c =
     \<lparr>kern = \<lparr>disk = \<lambda>_. None,
         ofiles = [\<lparr>obj = Tty, acc = RdWr, seekp = 0\<rparr>, \<lparr>obj = Pipe 0, acc = RdOnly, seekp = 0\<rparr>,
           \<lparr>obj = Pipe 0, acc = WrOnly, seekp = 0\<rparr>],
         bufs = [if (p = P_close1 \<or> p = P_end) \<and> (c = C_close \<or> c = C_read) then b else []],
         tables = [case p of P_close \<Rightarrow> [Some 0, Some 0, Some 0, Some 1, Some 2] | P_end \<Rightarrow> []
             | _ \<Rightarrow> [Some 0, Some 0, Some 0, None, Some 2],
           case c of C_close \<Rightarrow> [Some 0, Some 0, Some 0, Some 1, Some 2] | C_end \<Rightarrow> []
             | _ \<Rightarrow> [Some 0, Some 0, Some 0, Some 1, None]],
         typed = (if p = P_close \<or> p = P_read then l # ls else if length l \<le> 100 then ls else drop 100 l # ls),
         screen = (if c = C_close0 \<or> c = C_end then takeWhile (\<lambda>x. x \<noteq> 0) b else [])\<rparr>,
       fd_r = 3, fd_w = 4, ppc = p, cpc = c, pbuf = (if p = P_close \<or> p = P_read then pj else b),
       cbuf = (if c = C_close \<or> c = C_read then cj else b)\<rparr>"

lemma length_filled: "length (filled x b) = max (length x) (length b)"
  by (simp add: filled_def)

lemma PIPE_start: "PIPE_main (l # ls) pj cj = PIPE_at b l ls pj cj P_close C_close"
  by (simp add: PIPE_main_def PIPE_at_def kernel_calls kernel_tables shell_def Let_def numeral_eq_Suc)

text \<open>The steps between these states. The child waits in \<open>read\<close> until the parent has written.\<close>

lemmas PIPE_simps = PIPE_at_def kernel_calls kernel_tables Let_def

lemma PIPE_parent:
  "PIPE_step Parent (PIPE_at b l ls pj cj P_close c) = Some (Inr (PIPE_at b l ls pj cj P_read c))"
  "b = filled (take 100 l) pj \<Longrightarrow>
   PIPE_step Parent (PIPE_at b l ls pj cj P_read c) = Some (Inr (PIPE_at b l ls pj cj P_write c))"
  "PIPE_step Parent (PIPE_at b l ls pj cj P_close1 c) = Some (Inr (PIPE_at b l ls pj cj P_end c))"
  "PIPE_step Parent (PIPE_at b l ls pj cj P_end c) = None"
  by (simp_all add: PIPE_simps)

lemma PIPE_parent_write:
  "length b = 100 \<Longrightarrow> c = C_close \<or> c = C_read \<Longrightarrow>
   PIPE_step Parent (PIPE_at b l ls pj cj P_write c) = Some (Inr (PIPE_at b l ls pj cj P_close1 c))"
  by (auto simp: PIPE_simps PIPE_CAPACITY_def)

lemma PIPE_child:
  "PIPE_step Child (PIPE_at b l ls pj cj p C_close) = Some (Inr (PIPE_at b l ls pj cj p C_read))"
  "PIPE_step Child (PIPE_at b l ls pj cj p C_show) =
     (if 0 \<in> set b then Some (Inr (PIPE_at b l ls pj cj p C_close0)) else Some (Inl Out_of_bounds))"
  "PIPE_step Child (PIPE_at b l ls pj cj p C_close0) = Some (Inr (PIPE_at b l ls pj cj p C_end))"
  "PIPE_step Child (PIPE_at b l ls pj cj p C_end) = None"
  by (simp_all add: PIPE_simps c_str_def)

lemma PIPE_child_read:
  "length b = 100 \<Longrightarrow> length cj = 100 \<Longrightarrow> PIPE_step Child (PIPE_at b l ls pj cj p C_read) =
     (if p = P_close1 \<or> p = P_end then Some (Inr (PIPE_at b l ls pj cj p C_show)) else None)"
  by (cases p) (auto simp: PIPE_simps filled_def)

definition PIPE_inv :: "bytes \<Rightarrow> bytes list \<Rightarrow> bytes \<Rightarrow> bytes \<Rightarrow> pipe_run \<Rightarrow> bool" where
  "PIPE_inv l ls pj cj s \<longleftrightarrow>
     length pj = 100 \<and> length cj = 100 \<and>
     (\<exists>p c. s = PIPE_at (filled (take 100 l) pj) l ls pj cj p c \<and>
       (c = C_close \<or> c = C_read \<or> p = P_close1 \<or> p = P_end))"

interpretation pipe_run: inductive_invariant
    "\<lambda>s. length pj = 100 \<and> length cj = 100 \<and> s = PIPE_main (l # ls) pj cj" "fires PIPE_step" "PIPE_inv l ls pj cj"
  for l ls pj cj
proof unfold_locales
  fix s
  assume "length pj = 100 \<and> length cj = 100 \<and> s = PIPE_main (l # ls) pj cj"
  then show "PIPE_inv l ls pj cj s"
    unfolding PIPE_inv_def PIPE_start [of l ls pj cj "filled (take 100 l) pj"] by blast
next
  fix w s s'
  assume "PIPE_inv l ls pj cj s" "fires PIPE_step w s s'"
  then obtain p c where s: "s = PIPE_at (filled (take 100 l) pj) l ls pj cj p c"
    "c = C_close \<or> c = C_read \<or> p = P_close1 \<or> p = P_end"
    and len: "length pj = 100" "length cj = 100" and st: "PIPE_step w s = Some (Inr s')"
    by (auto simp: PIPE_inv_def fires_def)
  have b: "length (filled (take 100 l) pj) = 100" using len by (simp add: length_filled)
  have "\<exists>p c. s' = PIPE_at (filled (take 100 l) pj) l ls pj cj p c \<and>
       (c = C_close \<or> c = C_read \<or> p = P_close1 \<or> p = P_end)"
  proof (cases w)
    case Parent
    with st s(2) b show ?thesis unfolding s(1)
      by (cases p) (auto simp: PIPE_parent PIPE_parent_write simp del: PIPE_step.simps)
  next
    case Child
    with st s(2) b len show ?thesis unfolding s(1)
      by (cases c) (auto simp: PIPE_child PIPE_child_read simp del: PIPE_step.simps split: if_splits)
  qed
  with len show "PIPE_inv l ls pj cj s'" by (simp add: PIPE_inv_def)
qed

text \<open>C31. PIPE.cpp. However the two processes are interleaved: nothing but the final text is ever shown,
  the two end unless the child's buffer has no NUL (then it reads past the buffer), and when both have
  ended the terminal has what was typed followed by what happened to be in the parent's array behind it,
  since the whole array is sent and not the bytes that were read. What was typed is below 100 bytes and has no NUL;
  \<open>pipe\<close> and \<open>fork\<close> have succeeded (PIPE\_begun says what happens if not).
\<close>

theorem pipe_transfer:
  assumes "reach (\<lambda>s. length pj = 100 \<and> length cj = 100 \<and> s = PIPE_main (l # ls) pj cj) (fires PIPE_step) s"
    and "0 \<notin> set l" "length l < 100"
  shows "(screen (kern s) = [] \<or> screen (kern s) = l @ takeWhile (\<lambda>x. x \<noteq> 0) (drop (length l) pj)) \<and>
    (if ppc s = P_end \<and> cpc s = C_end then screen (kern s) = l @ takeWhile (\<lambda>x. x \<noteq> 0) (drop (length l) pj)
     else (\<exists>w s'. PIPE_step w s = Some (Inr s')) \<or>
       (0 \<notin> set (drop (length l) pj) \<and> PIPE_step Child s = Some (Inl Out_of_bounds)))"
proof -
  let ?b = "filled (take 100 l) pj"
  from pipe_run.inv_reach [OF assms(1)] obtain p c where s: "s = PIPE_at ?b l ls pj cj p c"
    "c = C_close \<or> c = C_read \<or> p = P_close1 \<or> p = P_end" and len: "length pj = 100" "length cj = 100"
    by (auto simp: PIPE_inv_def)
  have b: "length ?b = 100" using len by (simp add: length_filled)
  have tw: "takeWhile (\<lambda>x. x \<noteq> 0) ?b = l @ takeWhile (\<lambda>x. x \<noteq> 0) (drop (length l) pj)"
    using assms(2,3) by (auto simp: filled_def takeWhile_append)
  have z: "0 \<in> set ?b \<longleftrightarrow> 0 \<in> set (drop (length l) pj)" using assms(2,3) by (auto simp: filled_def)
  have shown: "screen (kern s) = (if c = C_close0 \<or> c = C_end then takeWhile (\<lambda>x. x \<noteq> 0) ?b else [])"
    "ppc s = p" "cpc s = c"
    unfolding s(1) by (simp_all add: PIPE_at_def)
  have next_move: "p = P_end \<and> c = C_end \<or> (\<exists>w s'. PIPE_step w s = Some (Inr s')) \<or>
      (0 \<notin> set ?b \<and> PIPE_step Child s = Some (Inl Out_of_bounds))"
  proof (cases "p = P_end")
    case True
    then have "c = C_end \<or> (\<exists>s'. PIPE_step Child s = Some (Inr s')) \<or>
        (0 \<notin> set ?b \<and> PIPE_step Child s = Some (Inl Out_of_bounds))"
      unfolding s(1) by (cases c) (simp_all add: PIPE_child PIPE_child_read [OF b len(2)] del: PIPE_step.simps)
    with True show ?thesis by blast
  next
    case False
    then have "\<exists>s'. PIPE_step Parent s = Some (Inr s')" unfolding s(1)
      using PIPE_parent [where b = ?b and l = l and pj = pj and c = c] PIPE_parent_write [of ?b c l ls pj cj] b s(2)
      by (cases p) (auto simp del: PIPE_step.simps)
    then show ?thesis by blast
  qed
  with shown tw z show ?thesis by auto
qed

definition pipe_end :: pipe_run where
  "pipe_end = PIPE_at (104 # replicate 99 0) [104] [] (replicate 100 0) (replicate 100 0) P_end C_end"

lemma pipe_end_reached:
  "reach (\<lambda>s. length (replicate 100 (0::8 word)) = 100 \<and> length (replicate 100 (0::8 word)) = 100 \<and>
     s = PIPE_main [[104]] (replicate 100 0) (replicate 100 0)) (fires PIPE_step) pipe_end"
proof (rule run_reach)
  let ?b = "104 # replicate 99 (0 :: 8 word)"
  have b: "?b = filled (take 100 [104]) (replicate 100 0)" "length ?b = 100" "0 \<in> set ?b"
    by (simp_all add: filled_def)
  show "run PIPE_step [Parent, Parent, Parent, Parent, Child, Child, Child, Child]
      (PIPE_main [[104]] (replicate 100 0) (replicate 100 0)) = Some pipe_end"
    unfolding PIPE_start [of _ _ _ _ ?b] pipe_end_def
    by (simp add: PIPE_parent(1,3) PIPE_parent(2) [OF b(1)] PIPE_parent_write [OF b(2)] PIPE_child
        PIPE_child_read [OF b(2)] del: PIPE_step.simps)
qed (rule reach_init, simp)

theorem pipe_transfer_witness: "screen (kern pipe_end) = [104]"
  using pipe_transfer [OF pipe_end_reached] by (auto simp: pipe_end_def PIPE_at_def)

section \<open>mywc.cpp\<close>

text \<open>
  The parent becomes \<open>ls\<close>, the child \<open>wc -l\<close>: the programs that \<open>exec\<close> starts are not of this repository.
  Of \<open>ls\<close> it is used that it writes its listing to descriptor 1, in some pieces, and ends; of \<open>wc\<close> that it
  reads descriptor 0 to its end and prints the number of newlines. \<open>exec\<close> keeps the descriptors.
\<close>

datatype ls_pc = L_close | L_dup2 | L_ls "bytes list" | L_end
datatype wc_pc = W_close | W_dup2 | W_wc bytes | W_said nat

record wc_run =
  wkern :: kernel
  wc_r :: int
  wc_w :: int
  lpc :: ls_pc
  wpc :: wc_pc

definition count_lines :: "bytes \<Rightarrow> nat" where
  "count_lines b = length (filter (\<lambda>x. x = 10) b)"

fun wc_step :: "bytes list \<Rightarrow> who \<Rightarrow> wc_run \<Rightarrow> wc_run outcome option" where
  "wc_step ls_out Parent s =
     (case lpc s of
        L_close \<Rightarrow> Some (Inr (s\<lparr>wkern := snd (sys_close 0 (wc_r s) (wkern s)), lpc := L_dup2\<rparr>))
      | L_dup2 \<Rightarrow> Some (Inr (s\<lparr>wkern := snd (sys_dup2 0 (wc_w s) 1 (wkern s)), lpc := L_ls ls_out\<rparr>))
      | L_ls [] \<Rightarrow> Some (Inr (s\<lparr>wkern := sys_exit 0 (wkern s), lpc := L_end\<rparr>))
      | L_ls (x # xs) \<Rightarrow> io_step (sys_write 0 1 x (wkern s)) (\<lambda>(n, k). s\<lparr>wkern := k, lpc := L_ls xs\<rparr>)
          (s\<lparr>wkern := sys_exit 0 (wkern s), lpc := L_end\<rparr>)
      | L_end \<Rightarrow> None)"
| "wc_step ls_out Child s =
     (case wpc s of
        W_close \<Rightarrow> Some (Inr (s\<lparr>wkern := snd (sys_close 1 (wc_w s) (wkern s)), wpc := W_dup2\<rparr>))
      | W_dup2 \<Rightarrow> Some (Inr (s\<lparr>wkern := snd (sys_dup2 1 (wc_r s) 0 (wkern s)), wpc := W_wc []\<rparr>))
      | W_wc got \<Rightarrow> io_step (sys_read 1 0 16384 (wkern s))
          (\<lambda>(n, x, k). if n = 0 then s\<lparr>wkern := sys_exit 1 k, wpc := W_said (count_lines got)\<rparr>
             else s\<lparr>wkern := k, wpc := W_wc (got @ x)\<rparr>) s
      | W_said n \<Rightarrow> None)"

definition mywc_main :: wc_run where
  "mywc_main =
     (let (r, w, k) = sys_pipe 0 (shell (\<lambda>_. None) []); (pid, k) = sys_fork 0 k in
      \<lparr>wkern = k, wc_r = r, wc_w = w, lpc = L_close, wpc = W_close\<rparr>)"

text \<open>The state as a function of the program counters and of what is in the pipe.\<close>

definition wc_at :: "bytes \<Rightarrow> ls_pc \<Rightarrow> wc_pc \<Rightarrow> wc_run" where
  "wc_at b p c =
     \<lparr>wkern = \<lparr>disk = \<lambda>_. None,
        ofiles = [\<lparr>obj = Tty, acc = RdWr, seekp = 0\<rparr>, \<lparr>obj = Pipe 0, acc = RdOnly, seekp = 0\<rparr>,
          \<lparr>obj = Pipe 0, acc = WrOnly, seekp = 0\<rparr>],
        bufs = [b],
        tables = [case p of L_close \<Rightarrow> [Some 0, Some 0, Some 0, Some 1, Some 2]
            | L_dup2 \<Rightarrow> [Some 0, Some 0, Some 0, None, Some 2]
            | L_ls xs \<Rightarrow> [Some 0, Some 2, Some 0, None, Some 2] | L_end \<Rightarrow> [],
          case c of W_close \<Rightarrow> [Some 0, Some 0, Some 0, Some 1, Some 2]
            | W_dup2 \<Rightarrow> [Some 0, Some 0, Some 0, Some 1, None]
            | W_wc got \<Rightarrow> [Some 1, Some 0, Some 0, Some 1, None] | W_said n \<Rightarrow> []],
        typed = [], screen = []\<rparr>,
      wc_r = 3, wc_w = 4, lpc = p, wpc = c\<rparr>"

lemma mywc_start: "mywc_main = wc_at [] L_close W_close"
  by (simp add: mywc_main_def wc_at_def kernel_calls kernel_tables shell_def Let_def numeral_eq_Suc)

lemmas wc_simps = wc_at_def kernel_calls kernel_tables Let_def

lemma wc_parent:
  "wc_step ls_out Parent (wc_at b L_close c) = Some (Inr (wc_at b L_dup2 c))"
  "wc_step ls_out Parent (wc_at b L_dup2 c) = Some (Inr (wc_at b (L_ls ls_out) c))"
  "wc_step ls_out Parent (wc_at b (L_ls []) c) = Some (Inr (wc_at b L_end c))"
  "wc_step ls_out Parent (wc_at b L_end c) = None"
  by (simp_all add: wc_simps)

lemma wc_parent_write:
  "(\<forall>n. c \<noteq> W_said n) \<Longrightarrow> wc_step ls_out Parent (wc_at b (L_ls (x # xs)) c) =
     (if PIPE_CAPACITY < length b + length x then None else Some (Inr (wc_at (b @ x) (L_ls xs) c)))"
  by (cases c) (auto simp: wc_simps)

lemma wc_child:
  "wc_step ls_out Child (wc_at b p W_close) = Some (Inr (wc_at b p W_dup2))"
  "wc_step ls_out Child (wc_at b p W_dup2) = Some (Inr (wc_at b p (W_wc [])))"
  "wc_step ls_out Child (wc_at b p (W_said n)) = None"
  by (simp_all add: wc_simps)

text \<open>The child has closed its own write end, so the end of the pipe is the end of \<open>ls\<close>.\<close>

lemma wc_child_read:
  "wc_step ls_out Child (wc_at b p (W_wc got)) =
     (if b \<noteq> [] then Some (Inr (wc_at (drop 16384 b) p (W_wc (got @ take 16384 b))))
      else if p = L_end then Some (Inr (wc_at [] p (W_said (count_lines got)))) else None)"
  by (cases p) (auto simp: wc_simps)

fun ls_rest :: "bytes list \<Rightarrow> ls_pc \<Rightarrow> bytes list" where
  "ls_rest ls_out (L_ls xs) = xs"
| "ls_rest ls_out L_end = []"
| "ls_rest ls_out _ = ls_out"

fun wc_ok :: "bytes list \<Rightarrow> bytes \<Rightarrow> ls_pc \<Rightarrow> wc_pc \<Rightarrow> bool" where
  "wc_ok ls_out b p (W_wc got) \<longleftrightarrow> got @ b @ concat (ls_rest ls_out p) = concat ls_out"
| "wc_ok ls_out b p (W_said n) \<longleftrightarrow> p = L_end \<and> n = count_lines (concat ls_out)"
| "wc_ok ls_out b p _ \<longleftrightarrow> b @ concat (ls_rest ls_out p) = concat ls_out"

definition wc_inv :: "bytes list \<Rightarrow> wc_run \<Rightarrow> bool" where
  "wc_inv ls_out s \<longleftrightarrow>
     (\<exists>b p c. s = wc_at b p c \<and> wc_ok ls_out b p c \<and> set (ls_rest ls_out p) \<subseteq> set ls_out)"

fun ls_todo :: "ls_pc \<Rightarrow> nat" where
  "ls_todo L_close = 3" | "ls_todo L_dup2 = 2" | "ls_todo (L_ls _) = 1" | "ls_todo L_end = 0"

fun wc_todo :: "wc_pc \<Rightarrow> nat" where
  "wc_todo W_close = 3" | "wc_todo W_dup2 = 2" | "wc_todo (W_wc _) = 1" | "wc_todo (W_said _) = 0"

definition wc_left :: "bytes list \<Rightarrow> wc_run \<Rightarrow> nat" where
  "wc_left ls_out s = ls_todo (lpc s) + wc_todo (wpc s) + length (ls_rest ls_out (lpc s))
     + 2 * length (concat (ls_rest ls_out (lpc s))) + length (bufs (wkern s) ! 0)"

lemma wc_at_fields [simp]: "lpc (wc_at b p c) = p" "wpc (wc_at b p c) = c" "bufs (wkern (wc_at b p c)) = [b]"
  by (simp_all add: wc_at_def)

lemma wc_invI:
  "wc_ok ls_out b p c \<Longrightarrow> set (ls_rest ls_out p) \<subseteq> set ls_out \<Longrightarrow> wc_inv ls_out (wc_at b p c)"
  by (auto simp: wc_inv_def)

lemma take_drop_append [simp]: "take n b @ drop n b @ x = b @ x"
  by (metis append.assoc append_take_drop_id)

lemma wc_step_inv:
  assumes "wc_inv ls_out s" "wc_step ls_out w s = Some (Inr s')"
  shows "wc_inv ls_out s' \<and> wc_left ls_out s' < wc_left ls_out s"
proof -
  obtain b p c where s: "s = wc_at b p c" "wc_ok ls_out b p c" "set (ls_rest ls_out p) \<subseteq> set ls_out"
    using assms(1) by (auto simp: wc_inv_def)
  show ?thesis
  proof (cases w)
    case Parent
    show ?thesis
    proof (cases "\<exists>x xs. p = L_ls (x # xs)")
      case True
      then obtain x xs where p: "p = L_ls (x # xs)" by blast
      with s(2) have "\<forall>n. c \<noteq> W_said n" by (cases c) auto
      from wc_parent_write [OF this] assms(2) s(2,3) show ?thesis unfolding s(1) p Parent
        by (cases c) (auto simp: wc_left_def intro!: wc_invI simp del: wc_step.simps split: if_splits)
    next
      case False
      then consider "p = L_close" | "p = L_dup2" | "p = L_ls []" | "p = L_end"
        by (metis list.exhaust ls_pc.exhaust)
      then show ?thesis using assms(2) s(2,3) unfolding s(1) Parent
        by cases (cases c; auto simp: wc_parent wc_left_def intro!: wc_invI simp del: wc_step.simps)+
    qed
  next
    case Child
    then show ?thesis using assms(2) s(2,3) unfolding s(1)
      by (cases c) (auto simp: wc_child wc_child_read wc_left_def intro!: wc_invI simp del: wc_step.simps split: if_splits)
  qed
qed

interpretation wc_pipe: inductive_invariant "\<lambda>s. s = mywc_main" "fires (wc_step ls_out)" "wc_inv ls_out"
  for ls_out
  by unfold_locales (auto simp: mywc_start fires_def dest: wc_step_inv intro!: wc_invI)

text \<open>C30. mywc.cpp. Whatever the listing, provided no piece of it is larger than the pipe, and however the
  processes are interleaved: the pipeline never gets stuck, no schedule is longer than the measure
  allows, and what \<open>wc\<close> prints is the number of lines of the whole listing. The end of the pipe is
  seen because the child has closed its own copy of the write end.
\<close>

theorem mywc_counts:
  assumes "reach (\<lambda>s. s = mywc_main) (fires (wc_step ls_out)) s"
    and "list_all (\<lambda>x. length x \<le> PIPE_CAPACITY) ls_out"
  shows "(if wpc s = W_said (count_lines (concat ls_out)) then lpc s = L_end
     else (\<exists>w s'. wc_step ls_out w s = Some (Inr s')) \<and> (case wpc s of W_said _ \<Rightarrow> False | _ \<Rightarrow> True)) \<and>
    (case run (wc_step ls_out) sched s of None \<Rightarrow> True | Some s' \<Rightarrow> length sched + wc_left ls_out s' \<le> wc_left ls_out s)"
proof
  from wc_pipe.inv_reach [OF assms(1)] obtain b p c where s: "s = wc_at b p c" "wc_ok ls_out b p c"
    "set (ls_rest ls_out p) \<subseteq> set ls_out"
    by (auto simp: wc_inv_def)
  have moves: "\<exists>w s'. wc_step ls_out w s = Some (Inr s')" if "\<forall>n. c \<noteq> W_said n"
  proof (cases "\<exists>s'. wc_step ls_out Child s = Some (Inr s')")
    case False
    then have "b = [] \<and> p \<noteq> L_end" using that unfolding s(1)
      by (cases c) (auto simp: wc_child wc_child_read simp del: wc_step.simps split: if_splits)
    moreover have "length x \<le> PIPE_CAPACITY" if "p = L_ls (x # xs)" for x xs
      using that s(3) assms(2) by (auto simp: list_all_iff)
    ultimately have "\<exists>s'. wc_step ls_out Parent s = Some (Inr s')"
      using wc_parent_write [OF that] unfolding s(1)
      by (cases p; cases "ls_rest ls_out p") (auto simp: wc_parent simp del: wc_step.simps)
    then show ?thesis by blast
  qed blast
  show "if wpc s = W_said (count_lines (concat ls_out)) then lpc s = L_end
     else (\<exists>w s'. wc_step ls_out w s = Some (Inr s')) \<and> (case wpc s of W_said _ \<Rightarrow> False | _ \<Rightarrow> True)"
    using moves s(2) by (cases c) (auto simp: s(1) simp del: wc_step.simps)
  show "case run (wc_step ls_out) sched s of None \<Rightarrow> True | Some s' \<Rightarrow> length sched + wc_left ls_out s' \<le> wc_left ls_out s"
    using wc_pipe.inv_reach [OF assms(1)]
  proof (induction sched arbitrary: s)
    case (Cons w ws)
    then show ?case
      by (fastforce dest: wc_step_inv simp del: wc_step.simps split: option.splits sum.splits)
  qed simp
qed

definition mywc_end :: wc_run where
  "mywc_end = wc_at [] L_end (W_said 2)"

lemma mywc_end_reached:
  "reach (\<lambda>s. s = mywc_main) (fires (wc_step [[97, 10], [98, 10]])) mywc_end"
proof (rule run_reach)
  have c: "count_lines [97, 10, 98, 10] = 2" by (simp add: count_lines_def)
  show "run (wc_step [[97, 10], [98, 10]]) [Parent, Child, Parent, Parent, Child, Child, Parent, Parent, Child, Child]
      mywc_main = Some mywc_end"
    by (simp add: mywc_start mywc_end_def wc_parent wc_parent_write wc_child wc_child_read PIPE_CAPACITY_def c
        del: wc_step.simps)
qed (simp add: reach_init)

theorem mywc_counts_witness: "lpc mywc_end = L_end"
  using mywc_counts [OF mywc_end_reached]
  by (simp add: mywc_end_def count_lines_def PIPE_CAPACITY_def split: if_splits)

section \<open>fifo\_A.cpp and fifo\_B.cpp\<close>

text \<open>
  The opening of a fifo waits for the other side, so both processes start with it open: A, process 0,
  has the write end, B, process 1, the read end. A writes \<open>sizeof(buf)\<close> bytes, the size of a pointer,
  from a literal of six: two bytes of the memory behind it, \<open>extra\<close>, go along.
\<close>

datatype fifo_a = A_first | A_second | A_close | A_end
datatype fifo_b = B_read | B_show bytes | B_end

record fifo_run =
  fkern :: kernel
  apc :: fifo_a
  bpc :: fifo_b
  printed :: "bytes list"

definition fifo_open :: fifo_run where
  "fifo_open =
     \<lparr>fkern = \<lparr>disk = \<lambda>_. None,
        ofiles = [\<lparr>obj = Tty, acc = RdWr, seekp = 0\<rparr>, \<lparr>obj = Pipe 0, acc = RdOnly, seekp = 0\<rparr>,
          \<lparr>obj = Pipe 0, acc = WrOnly, seekp = 0\<rparr>],
        bufs = [[]], tables = [[Some 0, Some 0, Some 0, Some 2], [Some 0, Some 0, Some 0, Some 1]],
        typed = [], screen = []\<rparr>,
      apc = A_first, bpc = B_read, printed = []\<rparr>"

definition fifo_msg :: "bytes \<Rightarrow> bytes" where
  "fifo_msg extra = take 8 (ascii ''hello'' @ [0] @ extra)"

text \<open>\<open>printed\<close> has what B shows with \<open>%s\<close>; \<open>junk\<close> is what its buffer holds before it is read into.\<close>

definition fifo_A :: "bytes \<Rightarrow> fifo_run \<Rightarrow> fifo_run outcome option" where
  "fifo_A extra s =
     (let dead = s\<lparr>fkern := sys_exit 0 (fkern s), apc := A_end\<rparr> in
      case apc s of
        A_first \<Rightarrow> io_step (sys_write 0 3 (fifo_msg extra) (fkern s)) (\<lambda>(n, k). s\<lparr>fkern := k, apc := A_second\<rparr>) dead
      | A_second \<Rightarrow> io_step (sys_write 0 3 (fifo_msg extra) (fkern s)) (\<lambda>(n, k). s\<lparr>fkern := k, apc := A_close\<rparr>) dead
      | A_close \<Rightarrow> Some (Inr (s\<lparr>fkern := sys_exit 0 (snd (sys_close 0 3 (fkern s))), apc := A_end\<rparr>))
      | A_end \<Rightarrow> None)"

definition fifo_B :: "bytes \<Rightarrow> fifo_run \<Rightarrow> fifo_run outcome option" where
  "fifo_B junk s =
     (case bpc s of
        B_read \<Rightarrow> io_step (sys_read 1 3 1024 (fkern s))
          (\<lambda>(n, x, k). if n = 0 then s\<lparr>fkern := sys_exit 1 (snd (sys_close 1 3 k)), bpc := B_end\<rparr>
             else s\<lparr>fkern := k, bpc := B_show (filled x junk)\<rparr>) s
      | B_show b \<Rightarrow> io_step (c_str b) (\<lambda>x. s\<lparr>printed := printed s @ [x], bpc := B_read\<rparr>) s
      | B_end \<Rightarrow> None)"

fun fifo_step :: "bytes \<Rightarrow> bytes \<Rightarrow> who \<Rightarrow> fifo_run \<Rightarrow> fifo_run outcome option" where
  "fifo_step extra junk Parent s = fifo_A extra s"
| "fifo_step extra junk Child s = fifo_B junk s"

definition fifo_at :: "bytes \<Rightarrow> fifo_a \<Rightarrow> fifo_b \<Rightarrow> bytes list \<Rightarrow> fifo_run" where
  "fifo_at b p c out =
     \<lparr>fkern = (fkern fifo_open)\<lparr>bufs := [b],
        tables := [if p = A_end then [] else [Some 0, Some 0, Some 0, Some 2],
          if c = B_end then [] else [Some 0, Some 0, Some 0, Some 1]]\<rparr>,
      apc = p, bpc = c, printed = out\<rparr>"

lemmas fifo_simps = fifo_A_def fifo_B_def fifo_at_def fifo_open_def kernel_calls kernel_tables Let_def

lemma fifo_start: "fifo_open = fifo_at [] A_first B_read []"
  by (simp add: fifo_at_def fifo_open_def)

lemma fifo_writer:
  "length extra = 2 \<Longrightarrow> length b \<le> 16 \<Longrightarrow> c \<noteq> B_end \<or> p = A_end \<Longrightarrow>
   fifo_step extra junk Parent (fifo_at b p c out) =
     (case p of A_first \<Rightarrow> Some (Inr (fifo_at (b @ fifo_msg extra) A_second c out))
      | A_second \<Rightarrow> Some (Inr (fifo_at (b @ fifo_msg extra) A_close c out))
      | A_close \<Rightarrow> Some (Inr (fifo_at b A_end c out)) | A_end \<Rightarrow> None)"
  by (cases p) (auto simp: fifo_simps PIPE_CAPACITY_def fifo_msg_def ascii_def)

lemma fifo_reader:
  "length b \<le> 16 \<Longrightarrow> fifo_step extra junk Child (fifo_at b p B_read out) =
     (if b \<noteq> [] then Some (Inr (fifo_at [] p (B_show (filled b junk)) out))
      else if p = A_end then Some (Inr (fifo_at [] p B_end out)) else None)"
  "fifo_step extra junk Child (fifo_at b p (B_show x) out) =
     (if 0 \<in> set x then Some (Inr (fifo_at b p B_read (out @ [takeWhile (\<lambda>y. y \<noteq> 0) x]))) else Some (Inl Out_of_bounds))"
  "fifo_step extra junk Child (fifo_at b p B_end out) = None"
  by (auto simp: fifo_simps c_str_def)

text \<open>
  \<open>n\<close> messages are in the fifo, \<open>j\<close> in B's buffer, \<open>r\<close> have been shown, in \<open>q\<close> pieces.
\<close>

fun fifo_sent :: "fifo_a \<Rightarrow> nat" where
  "fifo_sent A_first = 0" | "fifo_sent A_second = 1" | "fifo_sent _ = 2"

fun fifo_holds :: "bytes \<Rightarrow> bytes \<Rightarrow> nat \<Rightarrow> nat \<Rightarrow> fifo_a \<Rightarrow> fifo_b \<Rightarrow> bool" where
  "fifo_holds extra junk n j p B_read \<longleftrightarrow> j = 0"
| "fifo_holds extra junk n j p (B_show x) \<longleftrightarrow> 0 < j \<and> x = filled (concat (replicate j (fifo_msg extra))) junk"
| "fifo_holds extra junk n j p B_end \<longleftrightarrow> p = A_end \<and> n = 0 \<and> j = 0"

definition fifo_inv :: "bytes \<Rightarrow> bytes \<Rightarrow> fifo_run \<Rightarrow> bool" where
  "fifo_inv extra junk s \<longleftrightarrow> length extra = 2 \<and>
     (\<exists>n j r q p c. s = fifo_at (concat (replicate n (fifo_msg extra))) p c (replicate q (ascii ''hello''))
        \<and> fifo_sent p = n + j + r \<and> fifo_holds extra junk n j p c \<and> q \<le> r \<and> (r = 0 \<or> 0 < q))"

lemma fifo_invI:
  "length extra = 2 \<Longrightarrow> b = concat (replicate n (fifo_msg extra)) \<Longrightarrow> out = replicate q (ascii ''hello'') \<Longrightarrow>
   fifo_sent p = n + j + r \<Longrightarrow> fifo_holds extra junk n j p c \<Longrightarrow> q \<le> r \<Longrightarrow> r = 0 \<or> 0 < q \<Longrightarrow>
   fifo_inv extra junk (fifo_at b p c out)"
  unfolding fifo_inv_def by blast

lemma fifo_msgs:
  assumes "length extra = 2"
  shows "length (concat (replicate n (fifo_msg extra))) = 8 * n"
    "concat (replicate n (fifo_msg extra)) @ fifo_msg extra = concat (replicate (Suc n) (fifo_msg extra))"
    "0 < j \<Longrightarrow> 0 \<in> set (filled (concat (replicate j (fifo_msg extra))) junk)"
    "0 < j \<Longrightarrow> takeWhile (\<lambda>y. y \<noteq> 0) (filled (concat (replicate j (fifo_msg extra))) junk) = ascii ''hello''"
proof -
  show "length (concat (replicate n (fifo_msg extra))) = 8 * n"
    using assms by (induction n) (auto simp: fifo_msg_def ascii_def)
  show "concat (replicate n (fifo_msg extra)) @ fifo_msg extra = concat (replicate (Suc n) (fifo_msg extra))"
    by (induction n) auto
  have m: "fifo_msg extra = ascii ''hello'' @ 0 # extra" using assms by (simp add: fifo_msg_def ascii_def)
  show "0 < j \<Longrightarrow> 0 \<in> set (filled (concat (replicate j (fifo_msg extra))) junk)"
    by (cases j) (auto simp: m filled_def)
  show "0 < j \<Longrightarrow> takeWhile (\<lambda>y. y \<noteq> 0) (filled (concat (replicate j (fifo_msg extra))) junk) = ascii ''hello''"
    by (cases j) (auto simp: m filled_def ascii_def)
qed

lemma fifo_keeps:
  assumes "fifo_inv extra junk s" "fifo_step extra junk w s = Some x"
  shows "\<exists>s'. x = Inr s' \<and> fifo_inv extra junk s'"
proof -
  let ?m = "fifo_msg extra"
  obtain n j r q p c where s: "s = fifo_at (concat (replicate n ?m)) p c (replicate q (ascii ''hello''))"
    and sent: "fifo_sent p = n + j + r" and h: "fifo_holds extra junk n j p c" and qr: "q \<le> r" "r = 0 \<or> 0 < q"
    and len: "length extra = 2"
    using assms(1) unfolding fifo_inv_def by blast
  have "fifo_sent p \<le> 2" by (cases p) auto
  with sent have b: "length (concat (replicate n ?m)) \<le> 16" by (simp add: fifo_msgs(1) [OF len])
  note I = fifo_invI [OF len refl refl, where q = q and r = r]
  show ?thesis
  proof (cases w)
    case Parent
    have "c \<noteq> B_end \<or> p = A_end" using h by (cases c) auto
    from fifo_writer [OF len b this] assms(2) have x: "Some x = (case p of
        A_first \<Rightarrow> Some (Inr (fifo_at (concat (replicate (Suc n) ?m)) A_second c (replicate q (ascii ''hello''))))
      | A_second \<Rightarrow> Some (Inr (fifo_at (concat (replicate (Suc n) ?m)) A_close c (replicate q (ascii ''hello''))))
      | A_close \<Rightarrow> Some (Inr (fifo_at (concat (replicate n ?m)) A_end c (replicate q (ascii ''hello'')))) | A_end \<Rightarrow> None)"
      unfolding s Parent by (simp only: fifo_msgs(2) [OF len])
    have h': "p \<noteq> A_end \<Longrightarrow> fifo_holds extra junk m j p' c" for m p' using h by (cases c) auto
    show ?thesis
    proof (cases p)
      case A_first
      with x have "x = Inr (fifo_at (concat (replicate (Suc n) ?m)) A_second c (replicate q (ascii ''hello'')))"
        by (simp del: replicate_Suc)
      moreover have "fifo_inv extra junk (fifo_at (concat (replicate (Suc n) ?m)) A_second c (replicate q (ascii ''hello'')))"
        by (rule I [where j = j]) (use sent A_first h' qr in simp_all)
      ultimately show ?thesis by blast
    next
      case A_second
      with x have "x = Inr (fifo_at (concat (replicate (Suc n) ?m)) A_close c (replicate q (ascii ''hello'')))"
        by (simp del: replicate_Suc)
      moreover have "fifo_inv extra junk (fifo_at (concat (replicate (Suc n) ?m)) A_close c (replicate q (ascii ''hello'')))"
        by (rule I [where j = j]) (use sent A_second h' qr in simp_all)
      ultimately show ?thesis by blast
    next
      case A_close
      with x have "x = Inr (fifo_at (concat (replicate n ?m)) A_end c (replicate q (ascii ''hello'')))"
        by (simp del: replicate_Suc)
      moreover have "fifo_inv extra junk (fifo_at (concat (replicate n ?m)) A_end c (replicate q (ascii ''hello'')))"
        by (rule I [where j = j]) (use sent A_close h' qr in simp_all)
      ultimately show ?thesis by blast
    qed (use x in auto)
  next
    case Child
    show ?thesis
    proof (cases c)
      case B_read
      then have j: "j = 0" using h by simp
      have ne: "?m \<noteq> []" by (simp add: fifo_msg_def ascii_def)
      show ?thesis
      proof (cases "n = 0")
        case True
        with fifo_reader(1) [of "[]" extra junk p] assms(2) have "p = A_end"
          "x = Inr (fifo_at [] p B_end (replicate q (ascii ''hello'')))"
          unfolding s Child B_read by (auto split: if_splits simp del: fifo_step.simps)
        with sent qr j True show ?thesis by (intro exI conjI) (auto intro!: fifo_invI [OF len, where n = 0 and j = 0 and q = q and r = r])
      next
        case False
        with fifo_reader(1) [OF b, of extra junk p] assms(2) ne
        have "x = Inr (fifo_at [] p (B_show (filled (concat (replicate n ?m)) junk)) (replicate q (ascii ''hello'')))"
          unfolding s Child B_read by (cases n) (auto simp del: fifo_step.simps)
        with sent qr j False show ?thesis by (intro exI conjI) (auto intro!: fifo_invI [OF len, where n = 0 and j = n and q = q and r = r])
      qed
    next
      case (B_show y)
      then have y: "0 < j" "y = filled (concat (replicate j ?m)) junk" using h by auto
      with fifo_reader(2) [of extra junk "concat (replicate n ?m)" p y] assms(2)
      have x: "x = Inr (fifo_at (concat (replicate n ?m)) p B_read (replicate (Suc q) (ascii ''hello'')))"
        unfolding s Child B_show
        by (simp add: fifo_msgs(3,4) [OF len] replicate_append_same del: fifo_step.simps)
      moreover have "fifo_inv extra junk (fifo_at (concat (replicate n ?m)) p B_read (replicate (Suc q) (ascii ''hello'')))"
        by (rule fifo_invI [OF len refl refl, where j = 0 and r = "r + j"]) (use sent qr y(1) in simp_all)
      ultimately show ?thesis by blast
    next
      case B_end
      with assms(2) show ?thesis unfolding s Child by (simp add: fifo_reader(3) del: fifo_step.simps)
    qed
  qed
qed

interpretation fifo: inductive_invariant "\<lambda>s. s = fifo_open \<and> length extra = 2" "fires (fifo_step extra junk)"
    "fifo_inv extra junk" for extra junk
  by unfold_locales (auto simp: fifo_start fires_def dest: fifo_keeps
      intro!: fifo_invI [where n = 0 and q = 0 and j = 0 and r = 0])

text \<open>The fifo. Whatever the eight bytes hold behind the literal, and however the processes are
  interleaved: no step faults, and when the reader has ended it has shown the text once or twice. The
  text is shown once only when both messages are in the fifo at a \<open>read\<close>: \<open>%s\<close> stops at the NUL of the
  first, and the second message is lost.
\<close>

theorem fifo_shows:
  assumes "reach (\<lambda>s. s = fifo_open \<and> length extra = 2) (fires (fifo_step extra junk)) s"
  shows "(case fifo_step extra junk w s of Some (Inl f) \<Rightarrow> False | _ \<Rightarrow> True) \<and>
    (if bpc s = B_end then apc s = A_end \<and> (printed s = [ascii ''hello''] \<or> printed s = [ascii ''hello'', ascii ''hello''])
     else printed s = [] \<or> printed s = [ascii ''hello''] \<or> printed s = [ascii ''hello'', ascii ''hello''])"
proof
  note inv = fifo.inv_reach [OF assms]
  from fifo_keeps [OF inv] show "case fifo_step extra junk w s of Some (Inl f) \<Rightarrow> False | _ \<Rightarrow> True"
    by (fastforce split: option.split sum.split)
  from inv obtain n j r q p c where s: "s = fifo_at (concat (replicate n (fifo_msg extra))) p c (replicate q (ascii ''hello''))"
    and sent: "fifo_sent p = n + j + r" and h: "fifo_holds extra junk n j p c" and qr: "q \<le> r" "r = 0 \<or> 0 < q"
    unfolding fifo_inv_def by blast
  have "fifo_sent p \<le> 2" by (cases p) auto
  with sent qr have "q \<le> 2" by simp
  then consider "q = 0" | "q = 1" | "q = 2" by linarith
  moreover have "q \<noteq> 0" "p = A_end" if "c = B_end" using that sent h qr by auto
  ultimately show "if bpc s = B_end then apc s = A_end \<and> (printed s = [ascii ''hello''] \<or> printed s = [ascii ''hello'', ascii ''hello''])
     else printed s = [] \<or> printed s = [ascii ''hello''] \<or> printed s = [ascii ''hello'', ascii ''hello'']"
    unfolding s by cases (auto simp: fifo_at_def fifo_open_def numeral_2_eq_2)
qed

lemma fifo_start_reached: "reach (\<lambda>s. s = fifo_open \<and> length [0, 0 :: 8 word] = 2) (fires (fifo_step [0, 0] [])) fifo_open"
  by (rule reach_init) simp

theorem fifo_shows_witness: "printed fifo_open = [] \<or> printed fifo_open = [ascii ''hello''] \<or> bpc fifo_open \<noteq> B_end"
  using fifo_shows [OF fifo_start_reached] by (auto simp: fifo_open_def)

text \<open>Both endings occur: with the reads after each write, and with one read after both.\<close>

lemma fifo_endings:
  assumes "length extra = 2"
  shows "\<exists>s. run (fifo_step extra junk) [Parent, Child, Child, Parent, Child, Child, Parent, Child] fifo_open = Some s
      \<and> printed s = [ascii ''hello'', ascii ''hello'']"
    and "\<exists>s. run (fifo_step extra junk) [Parent, Parent, Child, Child, Parent, Child] fifo_open = Some s
      \<and> printed s = [ascii ''hello'']"
proof -
  note m = fifo_msgs(1) [OF assms, of 1] fifo_msgs(3,4) [OF assms, of 1] fifo_msgs(3,4) [OF assms, of 2]
  have ne: "fifo_msg extra \<noteq> []" by (simp add: fifo_msg_def ascii_def)
  have p: "printed (fifo_at b p c out) = out" for b p c out by (simp add: fifo_at_def)
  show "\<exists>s. run (fifo_step extra junk) [Parent, Child, Child, Parent, Child, Child, Parent, Child] fifo_open = Some s
      \<and> printed s = [ascii ''hello'', ascii ''hello'']"
    and "\<exists>s. run (fifo_step extra junk) [Parent, Parent, Child, Child, Parent, Child] fifo_open = Some s
      \<and> printed s = [ascii ''hello'']"
    using m ne by (simp_all add: fifo_start fifo_writer fifo_reader assms p numeral_2_eq_2 del: fifo_step.simps)
qed

end
