(* ===== verification/Processes.thy ===== *)
theory Processes
  imports Prelude
begin

text \<open>
  Processes that fork, print through the buffer of \<open>stdio\<close>, change their process group and session,
  and replace themselves by another program. A program is a function from its program counter to
  the next call it makes; what the call returns selects the next program counter.
\<close>

section \<open>Programs\<close>

text \<open>What a process can find out about itself.\<close>

record info =
  my_pid :: nat
  my_ppid :: nat
  my_grp :: nat
  my_sid :: nat

text \<open>
  \<open>Print\<close> writes a line: to the buffer, to the buffer and then out (\<open>endl\<close> flushes), or past it to the
  standard error, which has none; \<open>Fork\<close> names the counters of the child, of the parent (with the child's number) and of the
  parent when it fails; \<open>Set_sid\<close> those of success and failure; \<open>Exec\<close> the one after a failure.
\<close>

datatype way = Buffered | Flushed | Unbuffered

datatype ('l, 'c) action =
    Print way "info \<Rightarrow> 'l" 'c
  | Fork 'c "nat \<Rightarrow> 'c" 'c
  | Set_sid 'c 'c
  | Set_pgrp 'c
  | Exec string "string list" 'c
  | Sleep 'c
  | Exit

datatype status = Lives | Ended | Became string "string list"

record ('l, 'c) proc =
  counter :: 'c
  stdio :: "'l list"
  parent_of :: nat
  grp :: nat
  sid :: nat
  status :: status

record ('l, 'c) world =
  procs :: "('l, 'c) proc list"
  written :: "'l list"

section \<open>Steps\<close>

text \<open>
  The \<open>i\<close>-th process there ever was has the number \<open>i + 2\<close>; number 1 started the first one and becomes
  the parent of a process whose parent has ended.
\<close>

definition pid_of :: "nat \<Rightarrow> nat" where
  "pid_of i = i + 2"

definition ppid_of :: "('l, 'c) world \<Rightarrow> nat \<Rightarrow> nat" where
  "ppid_of w i =
     (let p = parent_of (procs w ! i) in
      if p < 2 \<or> length (procs w) \<le> p - 2 \<or> status (procs w ! (p - 2)) = Ended then 1 else p)"

definition info_of :: "('l, 'c) world \<Rightarrow> nat \<Rightarrow> info" where
  "info_of w i =
     \<lparr>my_pid = pid_of i, my_ppid = ppid_of w i, my_grp = grp (procs w ! i), my_sid = sid (procs w ! i)\<rparr>"

definition put_proc :: "nat \<Rightarrow> ('l, 'c) proc \<Rightarrow> ('l, 'c) world \<Rightarrow> ('l, 'c) world" where
  "put_proc i p w = w\<lparr>procs := (procs w)[i := p]\<rparr>"

text \<open>
  On a terminal (\<open>tty\<close>) the buffer is written out at each newline, into a file only when it is flushed or the
  process ends by returning from \<open>main\<close>. \<open>fork\<close> copies the buffer, \<open>exec\<close> drops it. The label is the process
  that moves and whether its \<open>fork\<close> or \<open>exec\<close> succeeds.
\<close>

definition world_step ::
  "bool \<Rightarrow> ('c \<Rightarrow> ('l, 'c) action) \<Rightarrow> nat \<times> bool \<Rightarrow> ('l, 'c) world \<Rightarrow> ('l, 'c) world outcome option" where
  "world_step tty prog = (\<lambda>(i, ok) w.
     (if i < length (procs w) \<and> status (procs w ! i) = Lives then
        (let p = procs w ! i in
         Some (Inr (case prog (counter p) of
           Print to f c \<Rightarrow>
             (if to = Unbuffered
              then (put_proc i (p\<lparr>counter := c\<rparr>) w)\<lparr>written := written w @ [f (info_of w i)]\<rparr>
              else if tty \<or> to = Flushed
              then (put_proc i (p\<lparr>counter := c, stdio := []\<rparr>) w)\<lparr>written := written w @ stdio p @ [f (info_of w i)]\<rparr>
              else put_proc i (p\<lparr>counter := c, stdio := stdio p @ [f (info_of w i)]\<rparr>) w)
         | Fork c g e \<Rightarrow>
             (if ok
              then (let n = length (procs w) in
                    w\<lparr>procs := (procs w)[i := p\<lparr>counter := g (pid_of n)\<rparr>] @ [p\<lparr>counter := c, parent_of := pid_of i\<rparr>]\<rparr>)
              else put_proc i (p\<lparr>counter := e\<rparr>) w)
         | Set_sid c e \<Rightarrow>
             (if grp p = pid_of i then put_proc i (p\<lparr>counter := e\<rparr>) w
              else put_proc i (p\<lparr>counter := c, grp := pid_of i, sid := pid_of i\<rparr>) w)
         | Set_pgrp c \<Rightarrow> put_proc i (p\<lparr>counter := c, grp := pid_of i\<rparr>) w
         | Exec f args e \<Rightarrow>
             (if ok then put_proc i (p\<lparr>stdio := [], status := Became f args\<rparr>) w
              else put_proc i (p\<lparr>counter := e\<rparr>) w)
         | Sleep c \<Rightarrow> put_proc i (p\<lparr>counter := c\<rparr>) w
         | Exit \<Rightarrow> (put_proc i (p\<lparr>stdio := [], status := Ended\<rparr>) w)\<lparr>written := written w @ stdio p\<rparr>)))
      else None))"

text \<open>A shell starts the first process as the leader of a group of its own.\<close>

definition launch :: "'c \<Rightarrow> ('l, 'c) world" where
  "launch c = \<lparr>procs = [\<lparr>counter = c, stdio = [], parent_of = 1, grp = pid_of 0, sid = 1, status = Lives\<rparr>], written = []\<rparr>"

definition over :: "('l, 'c) world \<Rightarrow> bool" where
  "over w \<longleftrightarrow> list_all (\<lambda>p. status p \<noteq> Lives) (procs w)"

text \<open>The steps in which the system refuses nothing.\<close>

definition smooth :: "bool \<Rightarrow> ('c \<Rightarrow> ('l, 'c) action) \<Rightarrow> nat \<Rightarrow> ('l, 'c) world \<Rightarrow> ('l, 'c) world \<Rightarrow> bool" where
  "smooth tty prog i w w' \<longleftrightarrow> fires (world_step tty prog) (i, True) w w'"

section \<open>Counting lines\<close>

text \<open>
  How often the lines with a property are printed is found by a weight: how many of them a process
  at a program counter, with \<open>m\<close> of them in its buffer, and all its descendants still write. It has to
  agree with each call; then output and weights together stay the same.
\<close>

definition lines_in :: "('l \<Rightarrow> bool) \<Rightarrow> 'l list \<Rightarrow> nat" where
  "lines_in P ls = length (filter P ls)"

lemma lines_in_simps [simp]:
  "lines_in P [] = 0" "lines_in P (l # ls) = of_bool (P l) + lines_in P ls"
  "lines_in P (ls @ ks) = lines_in P ls + lines_in P ks"
  by (simp_all add: lines_in_def)

locale line_weight =
  fixes tty :: bool and prog :: "'c \<Rightarrow> ('l, 'c) action" and P :: "'l \<Rightarrow> bool" and W :: "'c \<Rightarrow> nat \<Rightarrow> nat"
  assumes print_law: "prog c = Print to f c' \<Longrightarrow>
      W c m = (if to = Unbuffered then of_bool (P (f x)) + W c' m
        else if tty \<or> to = Flushed then m + of_bool (P (f x)) + W c' 0 else W c' (m + of_bool (P (f x))))"
    and fork_law: "prog c = Fork c' g e \<Longrightarrow> 1 < n \<Longrightarrow> W c m = W c' m + W (g n) m"
    and sid_law: "prog c = Set_sid c' e \<Longrightarrow> W c m = W c' m \<and> W c m = W e m"
    and pgrp_law: "prog c = Set_pgrp c' \<Longrightarrow> W c m = W c' m"
    and exec_law: "prog c = Exec a b e \<Longrightarrow> W c m = 0"
    and sleep_law: "prog c = Sleep c' \<Longrightarrow> W c m = W c' m"
    and exit_law: "prog c = Exit \<Longrightarrow> W c m = m"
begin

definition still :: "('l, 'c) proc \<Rightarrow> nat" where
  "still p = (if status p = Lives then W (counter p) (lines_in P (stdio p)) else 0)"

definition due :: "('l, 'c) world \<Rightarrow> nat" where
  "due w = lines_in P (written w) + (\<Sum>p\<leftarrow>procs w. still p)"

lemma sum_still_update:
  "i < length ps \<Longrightarrow> (\<Sum>p\<leftarrow>ps[i := q]. still p) + still (ps ! i) = (\<Sum>p\<leftarrow>ps. still p) + still q"
  by (induction ps arbitrary: i) (auto split: nat.splits)

lemma due_put:
  assumes "i < length (procs w)" "lines_in P (written w') = lines_in P (written w) + n" "procs w' = (procs w)[i := q]"
    "still (procs w ! i) = n + still q"
  shows "due w' = due w"
  using sum_still_update [OF assms(1), of q] assms(2-) by (simp add: due_def)

lemma due_step:
  assumes "smooth tty prog i w w'"
  shows "due w' = due w"
proof -
  let ?p = "procs w ! i"
  from assms have i: "i < length (procs w)" and lives: "status ?p = Lives"
    and w': "world_step tty prog (i, True) w = Some (Inr w')"
    by (auto simp: smooth_def fires_def world_step_def split: if_splits)
  have p: "still ?p = W (counter ?p) (lines_in P (stdio ?p))" using lives by (simp add: still_def)
  show ?thesis
  proof (cases "prog (counter ?p)")
    case (Print to f c)
    note law = print_law [OF Print, of "lines_in P (stdio ?p)" "info_of w i"]
    consider "to = Unbuffered" | "to \<noteq> Unbuffered" "tty \<or> to = Flushed" | "to \<noteq> Unbuffered" "\<not> (tty \<or> to = Flushed)"
      by blast
    then show ?thesis
    proof cases
      case 1
      with w' i lives Print p law show ?thesis
        by (intro due_put [OF i, of w' "of_bool (P (f (info_of w i)))" "?p\<lparr>counter := c\<rparr>"])
          (auto simp: world_step_def Let_def put_proc_def still_def)
    next
      case 2
      with w' i lives Print p law show ?thesis
        by (intro due_put [OF i, of w' "lines_in P (stdio ?p) + of_bool (P (f (info_of w i)))"
              "?p\<lparr>counter := c, stdio := []\<rparr>"])
          (auto simp: world_step_def Let_def put_proc_def still_def)
    next
      case 3
      with w' i lives Print p law show ?thesis
        by (intro due_put [OF i, of w' 0 "?p\<lparr>counter := c, stdio := stdio ?p @ [f (info_of w i)]\<rparr>"])
          (auto simp: world_step_def Let_def put_proc_def still_def)
    qed
  next
    case (Fork c g e)
    let ?n = "pid_of (length (procs w))"
    from sum_still_update [OF i, of "?p\<lparr>counter := g ?n\<rparr>"] fork_law [OF Fork, of ?n "lines_in P (stdio ?p)"]
    show ?thesis using w' i lives Fork p
      by (auto simp: world_step_def Let_def due_def still_def pid_of_def)
  next
    case (Set_sid c e)
    with w' i lives p sid_law [OF Set_sid, of "lines_in P (stdio ?p)"] show ?thesis
      by (cases "grp ?p = pid_of i"; intro due_put [OF i, of w' 0 "procs w' ! i"])
        (auto simp: world_step_def Let_def put_proc_def still_def)
  next
    case (Set_pgrp c)
    with w' i lives p pgrp_law [OF Set_pgrp, of "lines_in P (stdio ?p)"] show ?thesis
      by (intro due_put [OF i, of w' 0 "procs w' ! i"]) (auto simp: world_step_def Let_def put_proc_def still_def)
  next
    case (Exec f args e)
    with w' i lives p exec_law [OF Exec, of "lines_in P (stdio ?p)"] show ?thesis
      by (intro due_put [OF i, of w' 0 "procs w' ! i"]) (auto simp: world_step_def Let_def put_proc_def still_def)
  next
    case (Sleep c)
    with w' i lives p sleep_law [OF Sleep, of "lines_in P (stdio ?p)"] show ?thesis
      by (intro due_put [OF i, of w' 0 "procs w' ! i"]) (auto simp: world_step_def Let_def put_proc_def still_def)
  next
    case Exit
    with w' i lives p exit_law [OF Exit, of "lines_in P (stdio ?p)"] show ?thesis
      by (intro due_put [OF i, of w' "lines_in P (stdio ?p)" "procs w' ! i"])
        (auto simp: world_step_def Let_def put_proc_def still_def)
  qed
qed

lemma due_launch: "due (launch c) = W c 0"
  by (simp add: due_def launch_def still_def)

lemma due_reach: "reach (\<lambda>w. w = launch c) (smooth tty prog) w \<Longrightarrow> due w = W c 0"
  by (induction rule: reach.induct) (auto simp: due_launch due_step)

lemma lines_bound: "reach (\<lambda>w. w = launch c) (smooth tty prog) w \<Longrightarrow> lines_in P (written w) \<le> W c 0"
  using due_reach [of c w] by (simp add: due_def)

lemma lines_at_end:
  "reach (\<lambda>w. w = launch c) (smooth tty prog) w \<Longrightarrow> over w \<Longrightarrow> lines_in P (written w) = W c 0"
proof -
  assume r: "reach (\<lambda>w. w = launch c) (smooth tty prog) w" and "over w"
  then have "(\<Sum>p\<leftarrow>procs w. still p) = 0"
    by (auto simp: over_def list_all_iff still_def)
  with due_reach [OF r] show "lines_in P (written w) = W c 0" by (simp add: due_def)
qed

end

lemma smooth_run:
  "run (world_step tty prog) (map (\<lambda>i. (i, True)) is) w = Some w' \<Longrightarrow> reach init (smooth tty prog) w \<Longrightarrow>
   reach init (smooth tty prog) w'"
proof (induction "is" arbitrary: w)
  case (Cons i "is")
  then obtain u where u: "world_step tty prog (i, True) w = Some (Inr u)"
      "run (world_step tty prog) (map (\<lambda>i. (i, True)) is) u = Some w'"
    by (auto split: option.splits sum.splits)
  then have "smooth tty prog i w u" by (simp add: smooth_def fires_def)
  with Cons u(2) show ?case by (blast intro: reach_step)
qed simp

end
