(* ===== verification/Forking.thy ===== *)
theory Forking
  imports Processes
begin

text \<open>
  The programs that fork: src/process_api/fork.cpp, subprocess.cpp, execl.cpp and execlp.cpp, and
  src/session/session.cpp. What they print depends on whether the output is a terminal or a file,
  because \<open>fork\<close> copies the buffer of \<open>stdio\<close> and \<open>exec\<close> drops it.
\<close>

section \<open>fork.cpp\<close>

text \<open>A line has the round, whether the child printed it, and the numbers ppid, pid, ret. The code has \<open>n = 2\<close> rounds.\<close>

datatype fork_line = Fork_line nat bool nat nat int
datatype fork_pc = F_test nat | F_child nat | F_parent nat int

fun fork_main :: "nat \<Rightarrow> fork_pc \<Rightarrow> (fork_line, fork_pc) action" where
  "fork_main n (F_test i) =
     (if i < n then Fork (F_child i) (\<lambda>ret. F_parent i (int ret)) (F_parent i (-1)) else Exit)"
| "fork_main n (F_child i) =
     Print Buffered (\<lambda>x. Fork_line i True (my_ppid x) (my_pid x) 0) (F_test (i + 1))"
| "fork_main n (F_parent i ret) =
     Print Buffered (\<lambda>x. Fork_line i False (my_ppid x) (my_pid x) ret) (F_test (i + 1))"

fun fork_kind :: "nat \<Rightarrow> bool \<Rightarrow> fork_line \<Rightarrow> bool" where
  "fork_kind j r (Fork_line i c a b e) \<longleftrightarrow> i = j \<and> c = r"

text \<open>
  The lines of round \<open>j\<close> that a process at the head of round \<open>i\<close> causes: it has \<open>2 ^ (j - i)\<close> descendants
  there, and in a file each of their lines is copied by every later fork.
\<close>

definition fork_later :: "bool \<Rightarrow> nat \<Rightarrow> nat \<Rightarrow> nat \<Rightarrow> nat" where
  "fork_later tty n j i =
     (if i \<le> j \<and> j < n then 2 ^ (j - i) * (if tty then 1 else 2 ^ (n - 1 - j)) else 0)"

definition fork_head :: "bool \<Rightarrow> nat \<Rightarrow> nat \<Rightarrow> nat \<Rightarrow> nat \<Rightarrow> nat" where
  "fork_head tty n j i m = m * (if tty then (if i < n then 2 else 1) else 2 ^ (n - i)) + fork_later tty n j i"

fun fork_weight :: "bool \<Rightarrow> nat \<Rightarrow> nat \<Rightarrow> bool \<Rightarrow> fork_pc \<Rightarrow> nat \<Rightarrow> nat" where
  "fork_weight tty n j r (F_test i) m = fork_head tty n j i m"
| "fork_weight tty n j r (F_child i) m =
     (if tty then m + of_bool (i = j \<and> r) + fork_head tty n j (i + 1) 0
      else fork_head tty n j (i + 1) (m + of_bool (i = j \<and> r)))"
| "fork_weight tty n j r (F_parent i ret) m =
     (if tty then m + of_bool (i = j \<and> \<not> r) + fork_head tty n j (i + 1) 0
      else fork_head tty n j (i + 1) (m + of_bool (i = j \<and> \<not> r)))"

lemma fork_later_step:
  "i < n \<Longrightarrow> fork_later tty n j i = 2 * fork_later tty n j (i + 1) + (if i = j then (if tty then 1 else 2 ^ (n - 1 - i)) else 0)"
proof -
  assume "i < n"
  consider "i = j" | "i < j" | "j < i" by linarith
  then show ?thesis
  proof cases
    case 2
    then have "j - i = Suc (j - (i + 1))" by simp
    with 2 show ?thesis by (auto simp: fork_later_def)
  qed (use \<open>i < n\<close> in \<open>auto simp: fork_later_def\<close>)
qed

lemma fork_head_step:
  assumes "i < n"
  shows "fork_head True n j i m = 2 * (m + fork_head True n j (Suc i) 0) + of_bool (i = j)"
    and "fork_head False n j i m = 2 * fork_head False n j (Suc i) m + (if i = j then 2 ^ (n - Suc i) else 0)"
    and "fork_head False n j (Suc i) (Suc m) = fork_head False n j (Suc i) m + 2 ^ (n - Suc i)"
proof -
  have "n - i = Suc (n - Suc i)" using assms by simp
  then have p: "(2::nat) ^ (n - i) = 2 * 2 ^ (n - Suc i)" by simp
  show "fork_head True n j i m = 2 * (m + fork_head True n j (Suc i) 0) + of_bool (i = j)"
    using fork_later_step [OF assms, of True j] assms by (simp add: fork_head_def)
  show "fork_head False n j i m = 2 * fork_head False n j (Suc i) m + (if i = j then 2 ^ (n - Suc i) else 0)"
    using fork_later_step [OF assms, of False j] by (simp add: fork_head_def p)
  show "fork_head False n j (Suc i) (Suc m) = fork_head False n j (Suc i) m + 2 ^ (n - Suc i)"
    by (simp add: fork_head_def)
qed

interpretation fork_lines: line_weight tty "fork_main n" "fork_kind j r" "fork_weight tty n j r" for tty n j r
proof unfold_locales
  fix c and g :: "nat \<Rightarrow> fork_pc" and c' e m k
  assume "fork_main n c = Fork c' g e"
  then obtain i where "c = F_test i" "i < n" "c' = F_child i" "g = (\<lambda>ret. F_parent i (int ret))"
    by (cases c) (auto split: if_splits)
  then show "fork_weight tty n j r c m = fork_weight tty n j r c' m + fork_weight tty n j r (g k) m"
    using fork_head_step [of i n j m] by (cases tty; cases r; cases "i = j") simp_all
next
  fix c m
  assume "fork_main n c = Exit"
  then show "fork_weight tty n j r c m = m"
    by (cases c) (auto simp: fork_head_def fork_later_def split: if_splits)
next
  fix c to f c' m and x :: info
  assume "fork_main n c = Print to f c'"
  then show "fork_weight tty n j r c m = (if to = Unbuffered then of_bool (fork_kind j r (f x)) + fork_weight tty n j r c' m
      else if tty \<or> to = Flushed then m + of_bool (fork_kind j r (f x)) + fork_weight tty n j r c' 0
      else fork_weight tty n j r c' (m + of_bool (fork_kind j r (f x))))"
    by (cases c) (auto split: if_splits)
qed (auto elim!: fork_main.elims split: if_splits)

text \<open>C40. fork.cpp. When all processes have ended, on a terminal round \<open>j\<close> has \<open>2 ^ j\<close> lines of children
  and as many of parents; written to a file every round has \<open>2 ^ (n - 1)\<close> of each, because the lines
  still in the buffer are copied by the forks of the later rounds. So for every order of the steps, as long as every
  \<open>fork\<close> succeeds (\<open>smooth\<close>).
\<close>

theorem fork_line_counts:
  assumes "reach (\<lambda>w. w = launch (F_test 0)) (smooth tty (fork_main n)) w" "over w"
  shows "lines_in (fork_kind j r) (written w) = (if j < n then (if tty then 2 ^ j else 2 ^ (n - 1)) else 0)"
proof -
  have "lines_in (fork_kind j r) (written w) = fork_weight tty n j r (F_test 0) 0"
    using assms by (rule fork_lines.lines_at_end)
  moreover have "(2::nat) ^ j * 2 ^ (n - 1 - j) = 2 ^ (n - 1)" if "j < n"
    using that by (simp flip: power_add)
  ultimately show ?thesis by (simp add: fork_head_def fork_later_def)
qed

definition fork_end :: "(fork_line, fork_pc) world" where
  "fork_end =
     (let p = \<lambda>q. \<lparr>counter = F_test 2, stdio = [], parent_of = q, grp = 2, sid = 1, status = Ended\<rparr> in
      \<lparr>procs = [p 1, p 2, p 2, p 3],
       written = [Fork_line 0 False 1 2 3, Fork_line 1 False 1 2 4, Fork_line 0 True 1 3 0, Fork_line 1 False 1 3 5,
         Fork_line 0 False 1 2 3, Fork_line 1 True 1 4 0, Fork_line 0 True 1 3 0, Fork_line 1 True 1 5 0]\<rparr>)"

lemmas world_defs = world_step_def put_proc_def info_of_def ppid_of_def pid_of_def launch_def Let_def

lemma fork_end_reached: "reach (\<lambda>w. w = launch (F_test 0)) (smooth False (fork_main 2)) fork_end"
proof (rule smooth_run)
  show "run (world_step False (fork_main 2)) (map (\<lambda>i. (i, True)) [0, 0, 0, 0, 0, 1, 1, 1, 1, 2, 2, 3, 3]) (launch (F_test 0))
      = Some fork_end"
    by (simp add: world_defs fork_end_def numeral_eq_Suc)
qed (simp add: reach_init)

theorem fork_line_counts_witness: "lines_in (fork_kind 0 True) (written fork_end) = 2"
  using fork_line_counts [OF fork_end_reached, of 0 True] by (simp add: fork_end_def over_def Let_def)

section \<open>subprocess.cpp\<close>

datatype sub_line = Xxx | Parent_line | Pid_line int | Child_line nat nat nat | I_am_parent | Fork_error
datatype sub_pc = S_start | S_fork nat int | S_parent nat nat | S_error | S_pid nat int | S_sleep nat | S_who nat | S_exit

fun subprocess_main :: "sub_pc \<Rightarrow> (sub_line, sub_pc) action" where
  "subprocess_main S_start = Print Buffered (\<lambda>x. Xxx) (S_fork 0 0)"
| "subprocess_main (S_fork i pid) =
     (if i < 6 then Fork (S_pid i 0) (S_parent i) S_error else Print Buffered (\<lambda>x. Pid_line pid) (S_sleep i))"
| "subprocess_main (S_parent i pid) = Print Buffered (\<lambda>x. Parent_line) (S_fork (i + 1) (int pid))"
| "subprocess_main S_error = Print Unbuffered (\<lambda>x. Fork_error) S_exit"
| "subprocess_main (S_pid i pid) = Print Buffered (\<lambda>x. Pid_line pid) (S_sleep i)"
| "subprocess_main (S_sleep i) = Sleep (S_who i)"
| "subprocess_main (S_who i) =
     (if i < 6 then Print Buffered (\<lambda>x. Child_line (i + 1) i (my_pid x)) S_exit
      else Print Buffered (\<lambda>x. I_am_parent) S_exit)"
| "subprocess_main S_exit = Exit"

text \<open>The five kinds of lines, and the weight of each.\<close>

datatype sub_kind = K_xxx | K_parent | K_pid | K_child | K_end | K_error

fun kind_of :: "sub_line \<Rightarrow> sub_kind" where
  "kind_of Xxx = K_xxx" | "kind_of Parent_line = K_parent" | "kind_of (Pid_line p) = K_pid"
| "kind_of (Child_line a b c) = K_child" | "kind_of I_am_parent = K_end" | "kind_of Fork_error = K_error"

definition printing :: "bool \<Rightarrow> bool \<Rightarrow> (nat \<Rightarrow> nat) \<Rightarrow> nat \<Rightarrow> nat" where
  "printing tty b W m = (if tty then m + of_bool b + W 0 else W (m + of_bool b))"

definition sub_who :: "bool \<Rightarrow> sub_kind \<Rightarrow> nat \<Rightarrow> nat \<Rightarrow> nat" where
  "sub_who tty K i = printing tty (K = (if i < 6 then K_child else K_end)) (\<lambda>m. m)"

definition sub_tail :: "bool \<Rightarrow> sub_kind \<Rightarrow> nat \<Rightarrow> nat \<Rightarrow> nat" where
  "sub_tail tty K i = printing tty (K = K_pid) (sub_who tty K i)"

function sub_rounds :: "bool \<Rightarrow> sub_kind \<Rightarrow> nat \<Rightarrow> nat \<Rightarrow> nat" where
  "sub_rounds tty K i m =
     (if i < 6 then sub_tail tty K i m + printing tty (K = K_parent) (sub_rounds tty K (i + 1)) m
      else sub_tail tty K i m)"
  by auto
termination by (relation "measure (\<lambda>(_, _, i, _). 6 - i)") auto

declare sub_rounds.simps [simp del]

fun sub_weight :: "bool \<Rightarrow> sub_kind \<Rightarrow> sub_pc \<Rightarrow> nat \<Rightarrow> nat" where
  "sub_weight tty K S_start m = printing tty (K = K_xxx) (sub_rounds tty K 0) m"
| "sub_weight tty K (S_fork i pid) m = sub_rounds tty K i m"
| "sub_weight tty K (S_parent i pid) m = printing tty (K = K_parent) (sub_rounds tty K (i + 1)) m"
| "sub_weight tty K S_error m = of_bool (K = K_error) + m"
| "sub_weight tty K (S_pid i pid) m = sub_tail tty K i m"
| "sub_weight tty K (S_sleep i) m = sub_who tty K i m"
| "sub_weight tty K (S_who i) m = sub_who tty K i m"
| "sub_weight tty K S_exit m = m"

interpretation sub_lines: line_weight tty subprocess_main "\<lambda>l. kind_of l = K" "sub_weight tty K" for tty K
proof unfold_locales
  fix c to f c' m and x :: info
  assume "subprocess_main c = Print to f c'"
  then show "sub_weight tty K c m = (if to = Unbuffered then of_bool (kind_of (f x) = K) + sub_weight tty K c' m
      else if tty \<or> to = Flushed then m + of_bool (kind_of (f x) = K) + sub_weight tty K c' 0
      else sub_weight tty K c' (m + of_bool (kind_of (f x) = K)))"
    by (cases c) (auto simp: printing_def sub_who_def sub_tail_def sub_rounds.simps split: if_splits)
next
  fix c c' g e m n
  assume "subprocess_main c = Fork c' g e"
  then show "sub_weight tty K c m = sub_weight tty K c' m + sub_weight tty K (g n) m"
    by (cases c) (auto simp: sub_rounds.simps [of tty K _ m] split: if_splits)
next
  fix c c' m
  assume "subprocess_main c = Sleep c'"
  then show "sub_weight tty K c m = sub_weight tty K c' m" by (cases c) (auto split: if_splits)
next
  fix c m
  assume "subprocess_main c = Exit"
  then show "sub_weight tty K c m = m" by (cases c) (auto split: if_splits)
qed (auto elim!: subprocess_main.elims split: if_splits)

text \<open>subprocess.cpp. When all processes have ended, on a terminal \<open>xxx\<close> has been printed once and
  \<open>parent\<close> six times, as the code reads; written to a file \<open>xxx\<close> is there seven times and \<open>parent\<close> 21
  times, since each child has a copy of what its parent had printed. The numbers of the other lines are the same.
\<close>

theorem subprocess_lines:
  assumes "reach (\<lambda>w. w = launch S_start) (smooth tty subprocess_main) w" "over w"
  shows "lines_in (\<lambda>l. kind_of l = K) (written w) =
    (case K of K_xxx \<Rightarrow> if tty then 1 else 7 | K_parent \<Rightarrow> if tty then 6 else 21 | K_pid \<Rightarrow> 7
     | K_child \<Rightarrow> 6 | K_end \<Rightarrow> 1 | K_error \<Rightarrow> 0)"
proof -
  have "lines_in (\<lambda>l. kind_of l = K) (written w) = sub_weight tty K S_start 0"
    using assms by (rule sub_lines.lines_at_end)
  then show ?thesis
    by (cases K; cases tty) (simp_all add: sub_rounds.simps printing_def sub_tail_def sub_who_def)
qed

definition sub_end :: "(sub_line, sub_pc) world" where
  "sub_end =
     (let p = \<lambda>q. \<lparr>counter = S_exit, stdio = [], parent_of = q, grp = 2, sid = 1, status = Ended\<rparr>;
          c = \<lambda>i. Xxx # replicate i Parent_line @ [Pid_line 0, Child_line (i + 1) i (i + 3)] in
      \<lparr>procs = p 1 # replicate 6 (p 2),
       written = Xxx # replicate 6 Parent_line @ [Pid_line 8, I_am_parent] @ concat (map c [0..<6])\<rparr>)"

definition sub_sched :: "nat list" where
  "sub_sched = replicate 17 0 @ concat (map (replicate 4) [1, 2, 3, 4, 5, 6])"

lemma sub_end_reached: "reach (\<lambda>w. w = launch S_start) (smooth False subprocess_main) sub_end"
proof (rule smooth_run)
  show "run (world_step False subprocess_main) (map (\<lambda>i. (i, True)) sub_sched) (launch S_start) = Some sub_end"
    by code_simp
qed (simp add: reach_init)

theorem subprocess_lines_witness: "lines_in (\<lambda>l. kind_of l = K_xxx) (written sub_end) = 7"
proof -
  have "over sub_end" by code_simp
  from subprocess_lines [OF sub_end_reached this, of K_xxx] show ?thesis by simp
qed

section \<open>execl.cpp and execlp.cpp\<close>

text \<open>
  The children leave the loop with their number and the value 0 in \<open>pid\<close>; the parent arrives with the
  result of its last \<open>fork\<close> and \<open>i = 3\<close>. The parent then sleeps for ever.
\<close>

datatype exec_line = Exec_parent nat | Exec_child nat nat string
datatype exec_pc = X_loop nat int | X_if nat | X_exec nat | X_forever | X_return

fun execl_main :: "exec_pc \<Rightarrow> (exec_line, exec_pc) action" where
  "execl_main (X_loop i pid) =
     (if i < 3 then Fork (X_if i) (\<lambda>n. X_loop (i + 1) (int n)) (X_loop (i + 1) (-1))
      else if 0 < pid then Print Buffered (\<lambda>x. Exec_parent (my_pid x)) X_forever
      else Exit)"
| "execl_main (X_if i) = Print Buffered (\<lambda>x. Exec_child i (my_pid x)
     (if i = 0 then ''exec firefox..'' else if i = 1 then ''touch files..'' else ''exec ls -l..'')) (X_exec i)"
| "execl_main (X_exec i) =
     (if i = 0 then Exec ''/usr/bin/firefox'' [''firefox'', ''www.baidu.com''] X_return
      else if i = 1 then Exec ''/usr/bin/touch'' [''touch'', ''huala''] X_return
      else Exec ''/bin/ls'' [''ls'', ''-l''] X_return)"
| "execl_main X_forever = Sleep X_forever"
| "execl_main X_return = Exit"

fun exec_weight :: "bool \<Rightarrow> exec_pc \<Rightarrow> nat \<Rightarrow> nat" where
  "exec_weight tty (X_loop i pid) m =
     (if i < 3 then (if tty then (4 - i) * (m + 1) else 0)
      else if 0 < pid then (if tty then m + 1 else 0) else m)"
| "exec_weight tty (X_if i) m = (if tty then m + 1 else 0)"
| "exec_weight tty X_return m = m"
| "exec_weight tty (X_exec i) m = 0"
| "exec_weight tty X_forever m = 0"

interpretation execl_lines: line_weight tty execl_main "\<lambda>_. True" "exec_weight tty" for tty
proof unfold_locales
  fix c :: exec_pc and c' g e m and n :: nat
  assume "execl_main c = Fork c' g e" "1 < n"
  then obtain i pid where "c = X_loop i pid" "i < 3" "c' = X_if i" "g = (\<lambda>n. X_loop (i + 1) (int n))"
    by (cases c) (auto split: if_splits)
  moreover from \<open>i < 3\<close> have "i = 0 \<or> i = 1 \<or> i = 2" by auto
  ultimately show "exec_weight tty c m = exec_weight tty c' m + exec_weight tty (g n) m"
    using \<open>1 < n\<close> by auto
next
  fix c to f c' m and x :: info
  assume "execl_main c = Print to f c'"
  then show "exec_weight tty c m = (if to = Unbuffered then of_bool True + exec_weight tty c' m
      else if tty \<or> to = Flushed then m + of_bool True + exec_weight tty c' 0
      else exec_weight tty c' (m + of_bool True))"
    by (cases c) (auto split: if_splits)
qed (auto elim!: execl_main.elims split: if_splits)

text \<open>execl.cpp. On a terminal at most the four lines of the code are printed; written to a file nothing that
  the program prints ever arrives, in no reachable state: \<open>exec\<close> replaces the children before their buffers are
  written out, and the parent sleeps for ever with its line in its buffer.
\<close>

theorem execl_output:
  assumes "reach (\<lambda>w. w = launch (X_loop 0 pid)) (smooth tty execl_main) w"
  shows "length (written w) \<le> (if tty then 4 else 0)"
  using execl_lines.lines_bound [OF assms] by (simp add: lines_in_def split: if_splits)

definition execl_sleeps :: "(exec_line, exec_pc) world" where
  "execl_sleeps =
     \<lparr>procs = [\<lparr>counter = X_forever, stdio = [Exec_parent 2], parent_of = 1, grp = 2, sid = 1, status = Lives\<rparr>,
       \<lparr>counter = X_exec 0, stdio = [], parent_of = 2, grp = 2, sid = 1,
         status = Became ''/usr/bin/firefox'' [''firefox'', ''www.baidu.com'']\<rparr>,
       \<lparr>counter = X_exec 1, stdio = [], parent_of = 2, grp = 2, sid = 1,
         status = Became ''/usr/bin/touch'' [''touch'', ''huala'']\<rparr>,
       \<lparr>counter = X_exec 2, stdio = [], parent_of = 2, grp = 2, sid = 1, status = Became ''/bin/ls'' [''ls'', ''-l'']\<rparr>],
      written = []\<rparr>"

lemma execl_sleeps_reached: "reach (\<lambda>w. w = launch (X_loop 0 0)) (smooth False execl_main) execl_sleeps"
proof (rule smooth_run)
  show "run (world_step False execl_main) (map (\<lambda>i. (i, True)) [0, 0, 0, 0, 1, 1, 2, 2, 3, 3]) (launch (X_loop 0 0))
      = Some execl_sleeps"
    by (simp add: world_defs execl_sleeps_def numeral_eq_Suc)
qed (simp add: reach_init)

theorem execl_output_witness: "length (written execl_sleeps) \<le> 0"
  using execl_output [OF execl_sleeps_reached] by simp

text \<open>The program counters of execlp.cpp and session.cpp are their line numbers.\<close>

datatype execlp_line = Exec_failed | Fat

fun execlp_main :: "nat \<Rightarrow> (execlp_line, nat) action" where
  "execlp_main n =
     (if n = 13 then Fork 15 (\<lambda>_. 20) 20
      else if n = 15 then Exec ''ls'' [''ls'', ''-l''] 16
      else if n = 16 then Print Unbuffered (\<lambda>x. Exec_failed) 17
      else if n = 20 then Print Flushed (\<lambda>x. Fat) 21
      else if n = 21 then Sleep 23
      else Exit)"

text \<open>The line of the parent comes once, wherever the output goes, and that of the child not at all, as long as
  \<open>ls\<close> can be executed.\<close>

fun execlp_weight :: "execlp_line \<Rightarrow> nat \<Rightarrow> nat \<Rightarrow> nat" where
  "execlp_weight l n m =
     (if n = 13 then m + of_bool (l = Fat) else if n = 15 then 0 else if n = 16 then m + of_bool (l = Exec_failed)
      else if n = 20 then m + of_bool (l = Fat) else m)"

interpretation execlp_lines: line_weight tty execlp_main "\<lambda>k. k = l" "execlp_weight l" for tty l
  by unfold_locales (auto split: if_splits)

lemma execlp_prints:
  assumes "reach (\<lambda>w. w = launch 13) (smooth tty execlp_main) w" "over w"
  shows "lines_in (\<lambda>k. k = l) (written w) = of_bool (l = Fat)"
  using execlp_lines.lines_at_end [OF assms] by simp

section \<open>session.cpp\<close>

datatype sess_line =
    Son | Group nat | Parent_pid nat | Set_err | Own_pid nat | Own_sid nat
  | Fa | Setpgrp_gives int | Fa_set_err

fun session_main :: "nat \<Rightarrow> (sess_line, nat) action" where
  "session_main n =
     (if n = 14 then Fork 17 (\<lambda>_. 36) 36
      else if n = 17 then Print Flushed (\<lambda>x. Son) 18
      else if n = 18 then Print Flushed (\<lambda>x. Group (my_grp x)) 19
      else if n = 19 then Print Flushed (\<lambda>x. Parent_pid (my_ppid x)) 20
      else if n = 20 then Set_sid 28 23
      else if n = 23 then Print Flushed (\<lambda>x. Set_err) 58
      else if n = 28 then Print Flushed (\<lambda>x. Own_pid (my_pid x)) 29
      else if n = 29 then Print Flushed (\<lambda>x. Own_sid (my_sid x)) 30
      else if n = 30 then Print Flushed (\<lambda>x. Parent_pid (my_ppid x)) 58
      else if n = 36 then Sleep 37
      else if n = 37 then Print Flushed (\<lambda>x. Fa) 39
      else if n = 39 then Print Flushed (\<lambda>x. Own_pid (my_pid x)) 40
      else if n = 40 then Print Flushed (\<lambda>x. Group (my_grp x)) 42
      else if n = 42 then Set_pgrp 43
      else if n = 43 then Set_pgrp 430
      else if n = 430 then Print Flushed (\<lambda>x. Setpgrp_gives 0) 44
      else if n = 44 then Print Flushed (\<lambda>x. Own_pid (my_pid x)) 45
      else if n = 45 then Print Flushed (\<lambda>x. Group (my_grp x)) 46
      else if n = 46 then Set_sid 53 49
      else if n = 49 then Print Flushed (\<lambda>x. Fa_set_err) 58
      else if n = 53 then Print Flushed (\<lambda>x. Own_pid (my_pid x)) 54
      else if n = 54 then Print Flushed (\<lambda>x. Own_sid (my_sid x)) 55
      else if n = 55 then Print Flushed (\<lambda>x. Parent_pid (my_ppid x)) 58
      else Exit)"

text \<open>
  The first process, number 2, is the leader of its group from the start and stays it; the child, number 3,
  is in that group until its \<open>setsid\<close>.
\<close>

definition sess_parent :: "sess_line list \<Rightarrow> (sess_line, nat) proc \<Rightarrow> bool" where
  "sess_parent out p \<longleftrightarrow> stdio p = [] \<and> grp p = 2 \<and> sid p = 1 \<and>
     counter p \<in> {14, 36, 37, 39, 40, 42, 43, 430, 44, 45, 46, 49, 58} \<and>
     (counter p = 58 \<longrightarrow> Fa_set_err \<in> set out) \<and> (status p \<noteq> Lives \<longrightarrow> counter p = 58)"

definition sess_child :: "sess_line list \<Rightarrow> (sess_line, nat) proc \<Rightarrow> bool" where
  "sess_child out q \<longleftrightarrow> stdio q = [] \<and>
     (counter q \<in> {17, 18, 19, 20} \<and> grp q = 2 \<and> sid q = 1 \<or> counter q \<in> {28, 29, 30, 58} \<and> grp q = 3 \<and> sid q = 3) \<and>
     (counter q = 30 \<or> counter q = 58 \<longrightarrow> Own_sid 3 \<in> set out) \<and> (status q \<noteq> Lives \<longrightarrow> counter q = 58)"

definition sess_inv :: "(sess_line, nat) world \<Rightarrow> bool" where
  "sess_inv w \<longleftrightarrow> Set_err \<notin> set (written w) \<and> Own_sid 2 \<notin> set (written w) \<and>
     (\<exists>p. sess_parent (written w) p \<and>
       (procs w = [p] \<or> (\<exists>q. procs w = [p, q] \<and> counter p \<noteq> 14 \<and> sess_child (written w) q)))"

lemmas sess_defs = world_step_def put_proc_def info_of_def pid_of_def Let_def

lemma sess_parent_moves:
  assumes p: "sess_parent (written w) (procs w ! 0)" and c: "counter (procs w ! 0) \<noteq> 14"
    and st: "world_step tty session_main (0, ok) w = Some (Inr w')"
  shows "\<exists>p ls. procs w' = (procs w)[0 := p] \<and> written w' = written w @ ls \<and> sess_parent (written w @ ls) p \<and>
    counter p \<noteq> 14 \<and> Set_err \<notin> set ls \<and> Own_sid 2 \<notin> set ls"
proof -
  let ?p = "procs w ! 0"
  have l: "0 < length (procs w)" "status ?p = Lives" using st by (auto simp: sess_defs split: if_splits)
  from p c have "counter ?p \<in> {36, 37, 39, 40, 42, 43, 430, 44, 45, 46, 49, 58}" and f: "stdio ?p = []" "grp ?p = 2" "sid ?p = 1"
    and e: "counter ?p = 58 \<longrightarrow> Fa_set_err \<in> set (written w)"
    by (auto simp: sess_parent_def)
  then consider "counter ?p = 36" | "counter ?p = 37" | "counter ?p = 39" | "counter ?p = 40" | "counter ?p = 42"
    | "counter ?p = 43" | "counter ?p = 430" | "counter ?p = 44" | "counter ?p = 45" | "counter ?p = 46" | "counter ?p = 49"
    | "counter ?p = 58"
    by blast
  then show ?thesis using st l f e
    by cases (auto simp: sess_defs sess_parent_def)
qed

lemma sess_child_moves:
  assumes q: "sess_child (written w) (procs w ! 1)"
    and st: "world_step tty session_main (1, ok) w = Some (Inr w')"
  shows "\<exists>q ls. procs w' = (procs w)[1 := q] \<and> written w' = written w @ ls \<and> sess_child (written w @ ls) q \<and>
    Set_err \<notin> set ls \<and> Own_sid 2 \<notin> set ls"
proof -
  let ?q = "procs w ! 1"
  have l: "1 < length (procs w)" "status ?q = Lives" using st by (auto simp: sess_defs split: if_splits)
  have f: "stdio ?q = []" "counter ?q = 30 \<or> counter ?q = 58 \<longrightarrow> Own_sid 3 \<in> set (written w)"
    using q by (auto simp: sess_child_def)
  from q consider "counter ?q = 17" "grp ?q = 2" "sid ?q = 1" | "counter ?q = 18" "grp ?q = 2" "sid ?q = 1"
    | "counter ?q = 19" "grp ?q = 2" "sid ?q = 1" | "counter ?q = 20" "grp ?q = 2" "sid ?q = 1"
    | "counter ?q = 28" "grp ?q = 3" "sid ?q = 3" | "counter ?q = 29" "grp ?q = 3" "sid ?q = 3"
    | "counter ?q = 30" "grp ?q = 3" "sid ?q = 3" | "counter ?q = 58" "grp ?q = 3" "sid ?q = 3"
    unfolding sess_child_def by blast
  then show ?thesis using st l f
    by cases (auto simp: sess_defs sess_child_def)
qed

lemma sess_child_mono: "sess_child out p \<Longrightarrow> sess_child (out @ ls) p"
  by (auto simp: sess_child_def)

lemma sess_parent_mono: "sess_parent out p \<Longrightarrow> sess_parent (out @ ls) p"
  by (auto simp: sess_parent_def)

lemma sess_keeps:
  assumes inv: "sess_inv w" and st: "world_step tty session_main (i, ok) w = Some (Inr w')"
  shows "sess_inv w'"
proof -
  obtain p where p: "sess_parent (written w) p"
      "procs w = [p] \<or> (\<exists>q. procs w = [p, q] \<and> counter p \<noteq> 14 \<and> sess_child (written w) q)"
    and out: "Set_err \<notin> set (written w)" "Own_sid 2 \<notin> set (written w)"
    using inv by (auto simp: sess_inv_def)
  have "i < length (procs w)" using st by (auto simp: world_step_def split: if_splits)
  with p(2) have "i = 0 \<or> (i = 1 \<and> (\<exists>q. procs w = [p, q] \<and> counter p \<noteq> 14 \<and> sess_child (written w) q))"
    by auto
  then consider "i = 0" "counter p = 14" "procs w = [p]" | "i = 0" "counter p \<noteq> 14"
    | q where "i = 1" "procs w = [p, q]" "counter p \<noteq> 14" "sess_child (written w) q"
    using p(2) by blast
  then show ?thesis
  proof cases
    case 1
    then show ?thesis using st p(1) out
      by (auto simp: sess_defs sess_inv_def sess_parent_def sess_child_def split: if_splits)
  next
    case 2
    have "procs w ! 0 = p" using p(2) by auto
    with sess_parent_moves [of w tty ok w'] 2 p(1) st obtain p' ls where
      "procs w' = (procs w)[0 := p']" "written w' = written w @ ls" "sess_parent (written w @ ls) p'"
      "counter p' \<noteq> 14" "Set_err \<notin> set ls" "Own_sid 2 \<notin> set ls" by auto
    with p(2) out show ?thesis unfolding sess_inv_def by (auto intro: sess_child_mono)
  next
    case 3
    then have "procs w ! 1 = q" by simp
    with sess_child_moves [of w tty ok w'] 3 st obtain q' ls where
      "procs w' = (procs w)[1 := q']" "written w' = written w @ ls" "sess_child (written w @ ls) q'"
      "Set_err \<notin> set ls" "Own_sid 2 \<notin> set ls" by auto
    with 3 p(1) out show ?thesis unfolding sess_inv_def by (auto intro: sess_parent_mono)
  qed
qed

interpretation session: inductive_invariant "\<lambda>w. w = launch 14" "fires (world_step tty session_main)" sess_inv for tty
proof unfold_locales
  fix w :: "(sess_line, nat) world"
  assume "w = launch 14"
  then show "sess_inv w" by (simp add: sess_inv_def launch_def sess_parent_def pid_of_def)
next
  fix l and w w' :: "(sess_line, nat) world"
  assume "sess_inv w" "fires (world_step tty session_main) l w w'"
  then show "sess_inv w'" by (cases l) (auto simp: fires_def intro: sess_keeps)
qed

text \<open>session.cpp. In every reachable state the child has not failed to make a session and the parent has not
  made one; when the parent has ended it has reported the error, and when the child has ended it is
  the leader of a session of its own and has printed its number. For the two calls of \<open>setpgrp\<close> leave the parent
  what it was, the leader of its group, for whom \<open>setsid\<close> fails.
\<close>

theorem session_outcome:
  assumes "reach (\<lambda>w. w = launch 14) (fires (world_step tty session_main)) w"
  shows "Set_err \<notin> set (written w) \<and> Own_sid 2 \<notin> set (written w) \<and> length (procs w) \<le> 2 \<and>
    (status (procs w ! 0) = Lives \<or> Fa_set_err \<in> set (written w)) \<and>
    (length (procs w) \<noteq> 2 \<or> status (procs w ! 1) = Lives \<or>
       Own_sid 3 \<in> set (written w) \<and> sid (procs w ! 1) = 3 \<and> grp (procs w ! 1) = 3)"
proof -
  from session.inv_reach [OF assms] obtain p where out: "Set_err \<notin> set (written w)" "Own_sid 2 \<notin> set (written w)"
    and p: "sess_parent (written w) p"
    and ps: "procs w = [p] \<or> (\<exists>q. procs w = [p, q] \<and> counter p \<noteq> 14 \<and> sess_child (written w) q)"
    unfolding sess_inv_def by blast
  have fa: "status p = Lives \<or> Fa_set_err \<in> set (written w)" using p unfolding sess_parent_def by blast
  have ch: "status q = Lives \<or> Own_sid 3 \<in> set (written w) \<and> sid q = 3 \<and> grp q = 3"
    if "sess_child (written w) q" for q
    using that by (cases "counter q = 58") (auto simp: sess_child_def)
  from ps show ?thesis
  proof (elim disjE exE conjE)
    assume "procs w = [p]"
    with out fa show ?thesis by simp
  next
    fix q assume "procs w = [p, q]" "sess_child (written w) q"
    with out fa ch [of q] show ?thesis by simp
  qed
qed

definition sess_end :: "(sess_line, nat) world" where
  "sess_end =
     \<lparr>procs = [\<lparr>counter = 58, stdio = [], parent_of = 1, grp = 2, sid = 1, status = Ended\<rparr>,
       \<lparr>counter = 58, stdio = [], parent_of = 2, grp = 3, sid = 3, status = Ended\<rparr>],
      written = [Son, Group 2, Parent_pid 2, Own_pid 3, Own_sid 3, Parent_pid 2,
        Fa, Own_pid 2, Group 2, Setpgrp_gives 0, Own_pid 2, Group 2, Fa_set_err]\<rparr>"

lemma sess_end_reached: "reach (\<lambda>w. w = launch 14) (fires (world_step True session_main)) sess_end"
proof (rule run_reach)
  show "run (world_step True session_main) (map (\<lambda>i. (i, True)) ([0] @ replicate 8 1 @ replicate 12 0)) (launch 14)
      = Some sess_end"
    by code_simp
qed (simp add: reach_init)

theorem session_outcome_witness: "status (procs sess_end ! 0) = Lives \<or> Fa_set_err \<in> set (written sess_end)"
  using session_outcome [OF sess_end_reached] by blast

end
