(* ===== verification/Pool_Wakeup.thy ===== *)
theory Pool_Wakeup
  imports Pool_Progress
begin

text \<open>
  When workers of socket/thread_Pool/main.cpp cannot miss a task: as long as the manager has not asked
  for exits and nobody has destroyed the pool. Pool\_Progress shows that a task can be stranded
  after a trimming; before it, every queued task has a worker that will look at the queue.
\<close>

section \<open>Workers on their way to the queue\<close>

text \<open>A worker that will test the queue before it waits.\<close>

fun will_look :: "pc \<Rightarrow> bool" where
  "will_look W_lock = True" | "will_look W_test = True" | "will_look W_wake = True"
| "will_look W_woken = True" | "will_look W_shut = True" | "will_look W_take = True"
| "will_look (W_count k) = True" | "will_look (W_run k) = True" | "will_look W_uncount = True"
| "will_look c = False"

definition untrimmed :: "psys \<Rightarrow> bool" where
  "untrimmed s \<longleftrightarrow> (case the_pool s of None \<Rightarrow> True | Some p \<Rightarrow> wait_exit_thr_num p = 0 \<and> \<not> shutdown p)"

definition fed :: "threadpool_t \<Rightarrow> pc list \<Rightarrow> bool" where
  "fed p cs \<longleftrightarrow> (W_wait \<in> set cs \<longrightarrow> queue_size p \<le> cnt will_look cs) \<and> (W_park \<in> set cs \<longrightarrow> queue_size p = 0)"

definition fed_inv :: "psys \<Rightarrow> bool" where
  "fed_inv s \<longleftrightarrow> sys_inv s \<and> untrimmed s \<and> (\<forall>p. the_pool s = Some p \<longrightarrow> fed p (pcs s))"

text \<open>A step of the pool after which no exits are asked for and the pool is not shut down.\<close>

definition calm_step :: "label \<Rightarrow> psys \<Rightarrow> psys outcome option" where
  "calm_step l s =
     (case pool_step l s of
        Some (Inr s') \<Rightarrow> if untrimmed s' then Some (Inr s') else None
      | x \<Rightarrow> x)"

lemma calm_stepD: "fires calm_step l s s' \<Longrightarrow> fires pool_step l s s' \<and> untrimmed s'"
  by (auto simp: fires_def calm_step_def split: option.splits sum.splits if_splits)

lemma fed_empty: "queue_size p = 0 \<Longrightarrow> fed p cs"
  by (simp add: fed_def cnt_nonneg)

lemma in_set_update: "d \<in> set (cs[t := c]) \<Longrightarrow> d \<noteq> c \<Longrightarrow> d \<in> set cs"
  using set_update_subset_insert [of cs t c] by auto

lemma fed_move:
  assumes "fed p cs" "t < length cs" "c \<noteq> W_wait" "c \<noteq> W_park" "will_look (cs ! t) \<Longrightarrow> will_look c"
    "queue_size p' = queue_size p"
  shows "fed p' (cs[t := c])"
  using assms in_set_update [of W_wait cs t c] in_set_update [of W_park cs t c]
  by (auto simp: fed_def cnt_update of_bool_def split: if_splits)

lemma fed_take:
  assumes "fed p cs" "t < length cs" "will_look (cs ! t)" "will_look c"
    "queue_size p' = queue_size p - 1" "queue_size p \<noteq> 0"
  shows "fed p' (cs[t := c])"
  using assms in_set_update [of W_wait cs t c] in_set_update [of W_park cs t c]
  by (cases c) (auto simp: fed_def cnt_update)

lemma fed_wake:
  assumes "wake_worker w cs = Some cs'" "fed p cs"
  shows "fed p cs'"
  using assms by (auto simp: wake_worker_def intro!: fed_move split: option.splits if_splits)

text \<open>Storing a task wakes a waiting worker, if there is one.\<close>

lemma fed_put:
  assumes "wake_worker w cs = Some cs'" "fed p cs" "W_park \<notin> set cs" "queue_size p' = queue_size p + 1"
  shows "fed p' cs'"
proof (cases w)
  case None
  with assms show ?thesis by (auto simp: wake_worker_def fed_def split: if_splits)
next
  case (Some u)
  with assms(1) have u: "u < length cs" "cs ! u = W_wait" "cs' = cs[u := W_wake]"
    by (auto simp: wake_worker_def split: if_splits)
  then have "W_wait \<in> set cs" using nth_mem by fastforce
  with assms u show ?thesis using in_set_update [of W_park cs u W_wake]
    by (auto simp: fed_def cnt_update)
qed

lemma fed_map:
  assumes "\<And>c. will_look (f c) = will_look c" "\<And>c. f c = W_wait \<longleftrightarrow> c = W_wait" "\<And>c. f c = W_park \<longleftrightarrow> c = W_park"
  shows "fed p (map f cs) = fed p cs"
proof -
  have "cnt will_look (map f cs) = cnt will_look cs" by (induction cs) (simp_all add: assms(1))
  moreover have "W_wait \<in> set (map f cs) \<longleftrightarrow> W_wait \<in> set cs" "W_park \<in> set (map f cs) \<longleftrightarrow> W_park \<in> set cs"
    using assms(2,3) by (metis image_iff list.set_map)+
  ultimately show ?thesis by (simp add: fed_def)
qed

lemma fed_wake_adders [simp]: "fed p (wake_adders cs) = fed p cs"
  unfolding wake_adders_def by (rule fed_map) (auto split: pc.splits)

lemma fed_wake_workers: "fed p cs \<Longrightarrow> fed p (wake_workers cs)"
  by (auto simp: fed_def wake_workers_def split: if_splits)

lemma fed_more: "fed p cs \<Longrightarrow> queue_size p' = queue_size p \<Longrightarrow> fed p' (cs @ replicate n W_lock)"
  by (auto simp: fed_def)

lemma woken_untrimmed: "wait_exit_thr_num p = 0 \<Longrightarrow> worker_woken p = (False, p)"
  by (auto simp: worker_woken_def)

lemma add_put_size: "add_put p k = Inr q \<Longrightarrow> queue_size q = queue_size p + 1"
  by (auto simp: add_put_def Let_def)

lemma worker_take_size: "worker_take p = Inr (k, q) \<Longrightarrow> queue_size q = queue_size p - 1"
  by (auto simp: worker_take_def)

lemma fed_thread_step:
  assumes st: "thread_step t w z c s = Some (Inr s')" and c: "c = pcs s ! t" and t: "t < length (pcs s)"
    and p: "the_pool s = Some p" "the_pool s' = Some p'" and fed: "fed p (pcs s)"
    and ci: "core_inv p (pcs s) (added s) (taken s)"
    and u: "wait_exit_thr_num p = 0" "\<not> shutdown p" "wait_exit_thr_num p' = 0" "\<not> shutdown p'"
  shows "fed p' (pcs s')"
proof -
  note k = core_facts(4) [OF ci t, folded c]
  show ?thesis
  proof (cases c)
    case (A_put a)
    have park: "W_park \<notin> set (pcs s)"
    proof
      assume "W_park \<in> set (pcs s)"
      then obtain v where v: "v < length (pcs s)" "pcs s ! v = W_park" by (auto simp: in_set_conv_nth)
      with core_facts(7) [OF ci v(1)] core_facts(9) [OF ci t, of v] A_put c show False by auto
    qed
    from A_put st p obtain cs q where w: "wake_worker w (pcs s) = Some cs" and q: "add_put p a = Inr q"
      and r: "release t q = Inr p'" and s': "pcs s' = cs[t := Idle]"
      by (auto simp: thread_step_def on_pool_def pool_thread_def goto_def set_pool_def split: option.splits)
    have "queue_size p' = queue_size p + 1" using add_put_size [OF q] releaseE [OF r] by auto
    then have "fed p' cs" by (rule fed_put [OF w fed park])
    moreover have "cs ! t = A_put a" "t < length cs"
      using wake_worker_nth [OF w t] A_put c t map_eq_imp_length_eq [OF wake_worker_erase [OF w]] by auto
    ultimately show ?thesis unfolding s' by (intro fed_move [of p']) auto
  next
    case W_take
    with st p obtain a q where q: "worker_take p = Inr (a, q)" and r: "release t q = Inr p'"
      and s': "pcs s' = (wake_adders (pcs s))[t := W_count a]"
      by (auto simp: thread_step_def on_pool_def pool_thread_def state_simps)
    have "queue_size p' = queue_size p - 1" using worker_take_size [OF q] releaseE [OF r] by auto
    then show ?thesis unfolding s' using fed t k W_take c
      by (intro fed_take [of p]) auto
  next
    case (M_signal n)
    show ?thesis
    proof (cases n)
      case 0
      with M_signal st p fed t c show ?thesis by (auto simp: thread_step_def on_pool_def pool_thread_def state_simps intro!: fed_move)
    next
      case (Suc m)
      with M_signal st p obtain cs where w: "wake_worker w (pcs s) = Some cs" and s': "pcs s' = cs[t := M_signal m]" "p' = p"
        by (auto simp: thread_step_def on_pool_def pool_thread_def state_simps split: option.splits)
      have "cs ! t = c" "t < length cs"
        using wake_worker_nth [OF w t] M_signal c t map_eq_imp_length_eq [OF wake_worker_erase [OF w]] by auto
      then show ?thesis unfolding s' using fed_wake [OF w fed] M_signal by (intro fed_move [of p]) auto
    qed
  next
    case W_test
    with st p have "p' = p" "pcs s' = (pcs s)[t := if worker_guard p then W_park else W_shut]"
      by (auto simp: thread_step_def on_pool_def pool_thread_def state_simps)
    with W_test c show ?thesis
      by (cases "worker_guard p") (simp add: worker_guard_def fed_empty, simp add: fed_move [OF fed t])
  next
    case W_park
    with st p have r: "release t p = Inr p'" by (auto simp: thread_step_def on_pool_def pool_thread_def state_simps)
    have "W_park \<in> set (pcs s)" using W_park c nth_mem [OF t] by simp
    with fed have "queue_size p = 0" by (simp add: fed_def)
    with releaseE [OF r] show ?thesis by (intro fed_empty) simp
  next
    case (M_grow q l b)
    with st p obtain n where g: "adjust_grow (kill0 (pcs s) z) (length (pcs s)) p = Inr (n, p')"
      and s': "pcs s' = (pcs s @ replicate (nat n) W_lock)[t := M_shrink q l b]"
      by (auto simp: thread_step_def on_pool_def pool_thread_def state_simps dest!: criticalE)
    have "fed p' (pcs s @ replicate (nat n) W_lock)" using adjust_grow_size [OF g] by (intro fed_more [OF fed]) simp
    then show ?thesis unfolding s' using t M_grow c by (intro fed_move [of p']) (auto simp: nth_append)
  next
    case (D_wake i)
    have "fed p (wake_workers (pcs s))" by (rule fed_wake_workers [OF fed])
    with D_wake st p t c show ?thesis
      by (auto simp: thread_step_def on_pool_def pool_thread_def state_simps intro!: fed_move [of p] fed split: if_splits)
  qed (use st p fed t c k u in \<open>auto simp: thread_step_def on_pool_def pool_thread_def critical_def adjust_shrink_def add_guard_def worker_guard_def
      woken_untrimmed DEFAULT_THREAD_VARY_def
      intro!: fed_move [OF fed t]
      dest!: acquireE releaseE adjust_grow_size
      split: option.splits if_splits sum.splits fault.splits prod.splits bool.splits arr.splits\<close>)
qed

lemma fed_step: "fed_inv s \<Longrightarrow> fires calm_step l s s' \<Longrightarrow> fed_inv s'"
proof -
  assume i: "fed_inv s" and cs: "fires calm_step l s s'"
  from calm_stepD [OF cs] have st: "pool_step l s = Some (Inr s')" and u': "untrimmed s'" by (simp_all add: fires_def)
  have inv: "sys_inv s'" by (rule pool.inv_step) (use i st in \<open>auto simp: fed_inv_def fires_def\<close>)
  have "fed p' (pcs s')" if p': "the_pool s' = Some p'" for p'
  proof -
    obtain p where p: "the_pool s = Some p" using deleted_step [OF st] p' by fastforce
    with i have ci: "core_inv p (pcs s) (added s) (taken s)" and fed: "fed p (pcs s)"
      and u: "wait_exit_thr_num p = 0" "\<not> shutdown p"
      by (auto simp: fed_inv_def sys_inv_def untrimmed_def)
    from u' p' have w: "wait_exit_thr_num p' = 0" "\<not> shutdown p'" by (auto simp: untrimmed_def)
    show ?thesis
    proof (cases l)
      case (Step t w z)
      with st have "t < length (pcs s)" "thread_step t w z (pcs s ! t) s = Some (Inr s')"
        by (auto split: if_splits)
      with fed_thread_step [OF _ refl _ p p' fed ci u w] show ?thesis by blast
    next
      case (Spurious t)
      with st p p' fed show ?thesis
        by (auto simp: goto_def intro!: fed_move split: if_splits pc.splits)
    qed (use st p p' fed in \<open>auto simp: goto_def intro!: fed_move split: if_splits\<close>)
  qed
  with inv u' show ?thesis by (simp add: fed_inv_def)
qed

lemma fed_start: "init_sys s \<Longrightarrow> fed_inv s"
proof -
  assume i: "init_sys s"
  then obtain p n where s: "s = start_state p n" and f: "fresh_pool p" by (auto simp: init_sys_def dest: create_fresh)
  have "wait_exit_thr_num p = 0 \<and> \<not> shutdown p" using f by (simp add: fresh_pool_def)
  moreover have "sys_inv s" using i by (rule pool.inv_init)
  ultimately show ?thesis using s by (auto simp: fed_inv_def untrimmed_def start_state_def fed_def)
qed

interpretation workers: inductive_invariant init_sys "fires calm_step" fed_inv
  by unfold_locales (auto intro: fed_start fed_step)

text \<open>C5. No lost wake-up for workers: as long as the manager has not asked for exits and the pool is not shut
  down, a worker waits in \<open>pthread_cond_wait(queue_not_empty)\<close> only while there are at least as many other
  workers that will test the queue before they wait as there are tasks in it; in particular some task
  is queued only if some worker is on its way to it. (After a trimming this fails, a task can be stranded.)\<close>

theorem worker_waits_only_when_served:
  assumes "reach init_sys (fires calm_step) s" "the_pool s = Some p" "W_wait \<in> set (pcs s)"
  shows "queue_size p \<le> cnt will_look (pcs s) \<and> (queue_size p = 0 \<or> list_ex will_look (pcs s))"
proof
  show q: "queue_size p \<le> cnt will_look (pcs s)"
    using workers.inv_reach [OF assms(1)] assms(2,3) by (simp add: fed_inv_def fed_def)
  have "0 \<le> queue_size p"
    using workers.inv_reach [OF assms(1)] assms(2) by (auto simp: fed_inv_def sys_inv_def core_inv_def elim: ring_okE)
  show "queue_size p = 0 \<or> list_ex will_look (pcs s)"
  proof (rule disjCI)
    assume "\<not> list_ex will_look (pcs s)"
    then have "cnt will_look (pcs s) = 0" by (induction "pcs s") (auto simp: cnt_length list_ex_iff filter_empty_conv)
    with q \<open>0 \<le> queue_size p\<close> show "queue_size p = 0" by simp
  qed
qed

text \<open>Two workers wait, a client adds a task and wakes one of them.\<close>

definition woken_end :: psys where
  "woken_end = \<lparr>the_pool = Some ((demo_pool 2 2 1)\<lparr>task_queue := Arr [demo_task], queue_size := 1\<rparr>),
     pcs = [Idle, W_wake, W_wait, M_loop], added = [demo_task], taken = [], finished = [], dying = None\<rparr>"

lemma woken_reach: "reach init_sys (fires calm_step) woken_end"
proof (rule run_reach)
  show "run calm_step (burst 1 3 @ burst 2 3 @ Start_add 0 demo_task # burst 0 3 @ [Step 0 (Some 1) []])
      (start_state (demo_pool 2 2 1) 0) = Some woken_end"
    by code_simp
  show "reach init_sys (fires calm_step) (start_state (demo_pool 2 2 1) 0)"
    by (rule reach_init, rule demo_init) auto
qed

theorem worker_waits_only_when_served_witness: "list_ex will_look (pcs woken_end)"
proof -
  obtain p where p: "the_pool woken_end = Some p" "queue_size p = 1" by (simp add: woken_end_def)
  have "W_wait \<in> set (pcs woken_end)" by (simp add: woken_end_def)
  from worker_waits_only_when_served [OF woken_reach p(1) this] p(2) show ?thesis by simp
qed

end
