(* ===== verification/Server_Main.thy ===== *)
theory Server_Main
  imports Server_Methods Reactor_Theorems Server_Reactor
begin

text \<open>
  The program of src/socket/Server/Reactor.cpp as a whole: \<open>main\<close> makes a pool and then runs the reactor
  loop, so one process has the threads of the pool beside the loop. The loop and its callbacks are in
  Server\_Reactor, shown to be those of src/socket/epoll/Reactor/main.cpp (Reactor); the pool is that of
  src/socket/Server/ThreadPoll.cpp (Server\_Methods). Nothing in the process gives the pool a task.
\<close>

section \<open>A pool that nobody uses\<close>

fun no_client :: "label \<Rightarrow> bool" where
  "no_client (Step t w z) = True" | "no_client (Spurious t) = True" | "no_client l = False"

definition unattended :: "(label \<Rightarrow> psys \<Rightarrow> psys outcome option) \<Rightarrow> label \<Rightarrow> psys \<Rightarrow> psys outcome option" where
  "unattended step l s = (if no_client l then step l s else None)"

text \<open>Where the threads of such a pool can be, the manager with its copies of the counters.\<close>

fun idle_pc :: "int \<Rightarrow> pc \<Rightarrow> bool" where
  "idle_pc mn Idle = True" | "idle_pc mn W_lock = True" | "idle_pc mn W_test = True"
| "idle_pc mn W_park = True" | "idle_pc mn W_wait = True" | "idle_pc mn W_wake = True"
| "idle_pc mn W_woken = True" | "idle_pc mn M_loop = True" | "idle_pc mn M_snap = True"
| "idle_pc mn (M_busy q l) = (q = 0 \<and> l = mn)" | "idle_pc mn (M_decide q l b) = (q = 0 \<and> l = mn)"
| "idle_pc mn (M_shrink q l b) = (l = mn)" | "idle_pc mn c = False"

definition idle_pool :: "int \<Rightarrow> threadpool_t \<Rightarrow> bool" where
  "idle_pool mn p \<longleftrightarrow> queue_size p = 0 \<and> live_thr_num p = mn \<and> min_thr_num p = mn \<and> wait_exit_thr_num p = 0 \<and> \<not> shutdown p"

definition idle_inv :: "int \<Rightarrow> nat \<Rightarrow> psys \<Rightarrow> bool" where
  "idle_inv mn n s \<longleftrightarrow> added s = [] \<and> taken s = [] \<and> finished s = [] \<and> length (pcs s) = n \<and>
     (\<forall>c \<in> set (pcs s). idle_pc mn c) \<and> (\<exists>p. the_pool s = Some p \<and> idle_pool mn p)"

lemma idle_goto:
  assumes "idle_inv mn n s" "idle_pc mn c"
  shows "idle_inv mn n (goto t c s)"
  using assms set_update_subset_insert [of "pcs s" t c] by (auto simp: idle_inv_def goto_def)

lemma idle_set_pool: "idle_inv mn n s \<Longrightarrow> idle_pool mn p \<Longrightarrow> idle_inv mn n (set_pool p s)"
  by (simp add: idle_inv_def set_pool_def)

lemma idle_lock [simp]: "idle_pool mn (p\<lparr>lock := l\<rparr>) = idle_pool mn p"
  by (simp add: idle_pool_def)

lemma idle_thread_step:
  assumes inv: "idle_inv mn n s" and t: "t < length (pcs s)" and st: "thread_step t w z (pcs s ! t) s = Some (Inr s')"
  shows "idle_inv mn n s'"
proof -
  obtain p where p: "the_pool s = Some p" "idle_pool mn p" using inv by (auto simp: idle_inv_def)
  have c: "idle_pc mn (pcs s ! t)" using inv t by (simp add: idle_inv_def)
  note I = idle_goto [OF inv] idle_goto [OF idle_set_pool [OF inv]]
  have woken: "worker_woken p = (False, p)" using p(2) by (auto simp: worker_woken_def idle_pool_def)
  show ?thesis
  proof (cases "pcs s ! t")
    case M_snap
    with st p show ?thesis by (auto simp: thread_step_def on_pool_def pool_thread_def idle_pool_def dest!: criticalE intro!: I)
  next
    case (M_decide q l b)
    with st p c show ?thesis
      by (auto simp: thread_step_def on_pool_def pool_thread_def should_grow_def MIN_WAIT_TASK_NUM_def intro!: I)
  next
    case (M_shrink q l b)
    with st p c show ?thesis by (auto simp: thread_step_def on_pool_def pool_thread_def should_shrink_def idle_pool_def intro!: I)
  next
    case W_test
    with st p show ?thesis by (auto simp: thread_step_def on_pool_def pool_thread_def worker_guard_def idle_pool_def intro!: I)
  next
    case M_loop
    with st p show ?thesis by (auto simp: thread_step_def on_pool_def pool_thread_def idle_pool_def intro!: I)
  next
    case W_woken
    with st p woken show ?thesis by (auto simp: thread_step_def on_pool_def pool_thread_def intro!: I)
  qed (use st p c in \<open>auto simp: thread_step_def on_pool_def pool_thread_def dest!: acquireE releaseE intro!: I\<close>)
qed

lemma idle_step: "idle_inv mn n s \<Longrightarrow> unattended pool_step l s = Some (Inr s') \<Longrightarrow> idle_inv mn n s'"
proof (cases l)
  case (Spurious t)
  assume i: "idle_inv mn n s" and st: "unattended pool_step l s = Some (Inr s')"
  then have t: "t < length (pcs s)" using Spurious by (auto simp: unattended_def split: if_splits)
  with i have "idle_pc mn (pcs s ! t)" by (simp add: idle_inv_def)
  with i st t Spurious show ?thesis by (cases "pcs s ! t") (auto simp: unattended_def intro: idle_goto)
qed (auto simp: unattended_def intro: idle_thread_step split: if_splits)

definition idle_start :: "int \<Rightarrow> psys \<Rightarrow> bool" where
  "idle_start mn s \<longleftrightarrow> (\<exists>p. idle_pool mn p \<and> s = start_state p 0)"

lemma idle_begin: "idle_start mn s \<Longrightarrow> idle_inv mn (Suc (Suc (nat mn))) s"
  by (auto simp: idle_start_def idle_inv_def start_state_def idle_pool_def)

interpretation idle: inductive_invariant "idle_start mn" "fires (unattended pool_step)" "idle_inv mn (Suc (Suc (nat mn)))" for mn
  by unfold_locales (auto simp: fires_def intro: idle_begin idle_step)

lemma idle_facts:
  assumes "reach (idle_start mn) (fires (unattended pool_step)) s"
  shows "added s = [] \<and> taken s = [] \<and> finished s = [] \<and> length (pcs s) = Suc (Suc (nat mn)) \<and>
    (\<exists>p. the_pool s = Some p \<and> live_thr_num p = mn \<and> queue_size p = 0)"
  using idle.inv_reach [OF assms] by (auto simp: idle_inv_def idle_pool_def)

section \<open>main of the server\<close>

text \<open>
  \<open>new threadpool_t()\<close> zeroes the object; the result of \<open>ThreadPoolInit\<close> is not looked at, here it has
  succeeded. Then the globals are set up as in the reactor and the loop starts.
\<close>

definition server_main :: "rsys \<times> psys \<Rightarrow> bool" where
  "server_main = (\<lambda>(u, s). sv_init u \<and>
     (\<exists>e this p. malloc_ok e \<and> queue_max_size this = 0 \<and> ThreadPoolInit e this = Inr (True, p) \<and> s = start_state p 0))"

definition server_step :: "rlabel + label \<Rightarrow> rsys \<times> psys \<Rightarrow> (rsys \<times> psys) outcome option" where
  "server_step = side_by_side sv_step (unattended class_step)"

lemma server_pool_idle:
  assumes "queue_max_size this = 0" "ThreadPoolInit e this = Inr (True, p)"
  shows "idle_start 4 (start_state p 0)"
proof -
  have "idle_pool 4 p" using assms
    by (auto simp: ThreadPoolInit_def Let_def init_locks_def idle_pool_def MIN_THREAD_NUM_def split: option.splits if_splits)
  then show ?thesis by (auto simp: idle_start_def)
qed

lemma unattended_class: "unattended class_step = unattended pool_step"
  by (simp add: unattended_def class_step_pool fun_eq_iff)

lemma server_steps: "server_step = side_by_side main_step (unattended pool_step)"
proof -
  have "sv_step = main_step" by (intro ext) (rule sv_step_eq)
  then show ?thesis by (simp add: server_step_def unattended_class)
qed

text \<open>C15. The server of src/socket/Server/Reactor.cpp is the reactor beside a pool that does nothing: in every
  reachable state of the process the loop is in a state of the reactor alone, so nothing has been sent
  to any client; no task has been given to the pool, taken or finished; and the pool has the four workers and the
  manager it started with, no more and no less.\<close>

theorem server_main_composed:
  assumes "reach server_main (fires server_step) (u, s)"
  shows "reactor_reach u \<and> sent (react u) = [] \<and> added s = [] \<and> taken s = [] \<and> finished s = [] \<and> length (pcs s) = 6 \<and>
    (\<exists>p. the_pool s = Some p \<and> live_thr_num p = 4 \<and> queue_size p = 0)"
proof -
  have "reactor_reach (fst (u, s)) \<and> reach (idle_start 4) (fires (unattended pool_step)) (snd (u, s))"
    by (rule side_by_side_reach [OF assms [unfolded server_steps]])
      (auto simp: server_main_def sv_init_reactor intro: server_pool_idle)
  then have r: "reactor_reach u" "reach (idle_start 4) (fires (unattended pool_step)) s" by auto
  then show ?thesis using idle_facts [OF r(2)] table_ok_facts(3) [OF reach_table [OF r(1)]] by auto
qed

theorem server_main_composed_witness:
  "\<exists>u s. reach server_main (fires server_step) (u, s) \<and> sent (react u) = [] \<and> length (pcs s) = 6"
proof -
  obtain p where p: "ThreadPoolInit sample_env (server_this 0) = Inr (True, p)" using server_zeroed by blast
  obtain u where "init_reactor u" using listening_init by blast
  then have "server_main (u, start_state p 0)"
    using p sample_env_ok(1) by (auto simp: server_main_def server_this_def sv_init_reactor intro!: exI)
  then have r: "reach server_main (fires server_step) (u, start_state p 0)" by (rule reach_init)
  from server_main_composed [OF r] r show ?thesis by blast
qed

section \<open>TcpNet::InitNet\<close>

text \<open>
  \<open>InitNet\<close> sets up the listening socket and creates a pool of 10 to 100 threads, keeps the pool in a local
  variable, and reaches its closing brace without a \<open>return\<close>: the model ends there, what the
  caller does with the result is undefined.
\<close>

definition InitNet :: "create_env \<Rightarrow> bool \<Rightarrow> int \<Rightarrow> int \<Rightarrow> int set \<Rightarrow> (reactor \<times> threadpool_t option) outcome" where
  "InitNet e ok lfd now fds =
     obind (sv_initListenSocket ok lfd now (zero_reactor fds)) (\<lambda>r.
     obind (s_create e 0 10 100 100) (\<lambda>thp. Inr (r, thp)))"

lemma initnet_pool:
  assumes "malloc_ok e" "InitNet e ok lfd now fds = Inr (r, Some p)"
    and "reach (\<lambda>s. s = start_state p 0) (fires (unattended pool_step)) s"
  shows "added s = [] \<and> taken s = [] \<and> finished s = [] \<and> length (pcs s) = 12 \<and>
    (\<exists>p. the_pool s = Some p \<and> live_thr_num p = 10 \<and> queue_size p = 0)"
proof -
  have "threadpool_create e 0 10 100 100 = Inr (Some p)" using assms(2) s_create_create [OF assms(1)] by (auto simp: InitNet_def)
  from create_fresh(1,2) [OF this assms(1)] have f: "fresh_pool p" "min_thr_num p = 10" by auto
  then have "ring_ok p" "pool_tasks p = []" by (auto simp: fresh_pool_def)
  then have "queue_size p = 0" using length_pool_tasks [of p] by simp
  with f have "idle_start 10 (start_state p 0)" by (auto simp: idle_start_def idle_pool_def fresh_pool_def)
  then have "reach (idle_start 10) (fires (unattended pool_step)) s" by (intro reach_mono [OF assms(3)]) simp
  from idle_facts [OF this] show ?thesis by simp
qed

end
