(* ===== verification/Small_Programs.thy ===== *)
theory Small_Programs
  imports Prelude
begin

unbundle bit_operations_syntax

text \<open>
  Three programs that ask the system a question and print the answer: thread/max_thread.cpp (how many
  threads can there be), signal/set.cpp (which signals are pending) and process_api/stat.cpp.
\<close>

section \<open>max_thread\<close>

text \<open>
  \<open>main\<close> forks, and then parent and child both create threads until \<open>pthread_create\<close> fails; the threads
  never end. A process has its copies of \<open>err\<close> and \<open>count\<close>; \<open>created\<close> is ghost state. The system has
  room for \<open>slots\<close> more threads, which the processes share; it may refuse a thread for other
  reasons as well, so the result of a call is part of the label.
\<close>

record creator =
  err :: int
  count :: int
  created :: int
  shown :: "int list"
  reported :: "int option"

record tsys =
  slots :: nat
  creators :: "creator list"

definition creator_start :: creator where
  "creator_start = \<lparr>err = 0, count = 0, created = 0, shown = [], reported = None\<rparr>"

text \<open>After the fork, which may fail: then there is one process.\<close>

definition max_main :: "nat \<Rightarrow> bool \<Rightarrow> tsys" where
  "max_main room forked = \<lparr>slots = room, creators = replicate (if forked then 2 else 1) creator_start\<rparr>"

text \<open>Process \<open>i\<close> goes once round its loop, the call returning \<open>r\<close>, or leaves the loop and reports.\<close>

definition max_step :: "nat \<times> int \<Rightarrow> tsys \<Rightarrow> tsys outcome option" where
  "max_step = (\<lambda>(i, r) s.
     if i < length (creators s) then
       (let c = creators s ! i in
        if err c = 0 then
          (if r = 0 \<and> slots s = 0 then None
           else Some (Inr (s\<lparr>slots := (if r = 0 then slots s - 1 else slots s),
             creators := (creators s)[i := c\<lparr>err := r, count := count c + 1, shown := shown c @ [count c + 1],
               created := created c + of_bool (r = 0)\<rparr>]\<rparr>)))
        else if reported c = None then
          Some (Inr (s\<lparr>creators := (creators s)[i := c\<lparr>reported := Some (count c)\<rparr>]\<rparr>))
        else None)
     else None)"

definition creator_ok :: "creator \<Rightarrow> bool" where
  "creator_ok c \<longleftrightarrow> count c = created c + of_bool (err c \<noteq> 0) \<and> 0 \<le> created c \<and> shown c = map int [1..<Suc (nat (count c))]
     \<and> (reported c \<noteq> None \<longrightarrow> err c \<noteq> 0 \<and> reported c = Some (count c))"

definition max_inv :: "nat \<Rightarrow> nat \<Rightarrow> tsys \<Rightarrow> bool" where
  "max_inv room n s \<longleftrightarrow> length (creators s) = n \<and> list_all creator_ok (creators s)
     \<and> sum_list (map created (creators s)) + int (slots s) = int room"

lemma sum_list_change:
  "i < length xs \<Longrightarrow> sum_list (map f (xs[i := y])) = sum_list (map f xs) - f (xs ! i) + (f y :: int)"
  by (induction xs arbitrary: i) (auto split: nat.split)

lemma list_all_change: "list_all P xs \<Longrightarrow> P y \<Longrightarrow> list_all P (xs[i := y])"
  by (auto simp: list_all_iff dest!: set_update_subset_insert [THEN subsetD])

lemma creator_round:
  assumes "creator_ok c" "err c = 0"
  shows "creator_ok (c\<lparr>err := r, count := count c + 1, shown := shown c @ [count c + 1], created := created c + of_bool (r = 0)\<rparr>)"
proof -
  from assms have c: "count c = created c" "0 \<le> count c" "shown c = map int [1..<Suc (nat (count c))]" "reported c = None"
    by (auto simp: creator_ok_def)
  then have "nat (count c + 1) = Suc (nat (count c))" by simp
  with c show ?thesis by (simp add: creator_ok_def)
qed

lemma max_inv_step:
  assumes inv: "max_inv room n s" and st: "max_step (i, r) s = Some (Inr s')"
  shows "max_inv room n s'"
proof -
  let ?c = "creators s ! i"
  from st have i: "i < length (creators s)" by (auto simp: max_step_def split: if_splits)
  with inv have ok: "creator_ok ?c" by (simp add: max_inv_def list_all_length)
  show ?thesis
  proof (cases "err ?c = 0")
    case True
    with st i have s': "s' = s\<lparr>slots := (if r = 0 then slots s - 1 else slots s),
        creators := (creators s)[i := ?c\<lparr>err := r, count := count ?c + 1, shown := shown ?c @ [count ?c + 1],
          created := created ?c + of_bool (r = 0)\<rparr>]\<rparr>" and room: "r = 0 \<longrightarrow> 0 < slots s"
      by (auto simp: max_step_def Let_def split: if_splits)
    with inv i creator_round [OF ok True, of r] show ?thesis
      by (auto simp: max_inv_def sum_list_change intro!: list_all_change)
  next
    case False
    with st i have "s' = s\<lparr>creators := (creators s)[i := ?c\<lparr>reported := Some (count ?c)\<rparr>]\<rparr>"
      by (auto simp: max_step_def Let_def split: if_splits)
    moreover have "creator_ok (?c\<lparr>reported := Some (count ?c)\<rparr>)" using ok False by (auto simp: creator_ok_def)
    ultimately show ?thesis using inv i by (auto simp: max_inv_def sum_list_change intro!: list_all_change)
  qed
qed

interpretation creators: inductive_invariant "\<lambda>s. s = max_main room forked" "fires max_step"
  "max_inv room (if forked then 2 else 1)" for room forked
proof
  fix s assume "s = max_main room forked"
  then show "max_inv room (if forked then 2 else 1) s"
    by (simp add: max_inv_def max_main_def creator_ok_def creator_start_def numeral_2_eq_2)
next
  fix s l s' assume "max_inv room (if forked then 2 else 1) s" "fires max_step l s s'"
  then show "max_inv room (if forked then 2 else 1) s'" by (cases l) (auto simp: fires_def intro: max_inv_step)
qed

text \<open>Every step creates a thread, ends a loop or reports, so the two loops end.\<close>

definition max_left :: "tsys \<Rightarrow> int" where
  "max_left s = int (slots s) + sum_list (map (\<lambda>c. of_bool (err c = 0) + of_bool (reported c = None)) (creators s))"

lemma max_left_step: "max_step l s = Some (Inr s') \<Longrightarrow> max_left s' = max_left s - 1"
  by (cases l) (auto simp: max_step_def max_left_def sum_list_change Let_def split: if_splits)

lemma max_left_run: "run max_step ls s = Some s' \<Longrightarrow> max_left s' = max_left s - int (length ls)"
  by (induction ls arbitrary: s) (auto dest: max_left_step split: option.splits sum.splits)

lemma max_left_nonneg: "0 \<le> max_left s"
  by (auto simp: max_left_def intro!: add_nonneg_nonneg sum_list_nonneg)

lemma run_start_reach: "run f ls s = Some s' \<Longrightarrow> reach (\<lambda>u. u = s) (fires f) s'"
  by (erule run_reach) (simp add: reach_init)

text \<open>What max_thread.cpp reports, in both processes and for every interleaving and every failure: each
  prints the numbers from 1 on, and ends with a maximum that is one more than the threads it has created, because
  the call that failed is counted too; together they created no more threads than there was room for,
  and neither looked at what the other took. After as many rounds as there is room for threads, and four
  more, both have ended.\<close>

theorem max_thread_reports:
  assumes "run max_step ls (max_main room forked) = Some s"
  shows "(\<forall>c. c \<in> set (creators s) \<longrightarrow> shown c = map int [1..<Suc (nat (count c))]
      \<and> (reported c = None \<or> reported c = Some (created c + 1)))
    \<and> sum_list (map created (creators s)) + int (slots s) = int room \<and> length ls \<le> room + 4
    \<and> (\<forall>i c. i < length (creators s) \<and> creators s ! i = c \<and> reported c = None \<longrightarrow> max_step (i, 11) s \<noteq> None)"
proof (intro conjI allI impI)
  have inv: "max_inv room (if forked then 2 else 1) s"
    by (rule creators.inv_reach) (rule run_start_reach [OF assms])
  then show "sum_list (map created (creators s)) + int (slots s) = int room" by (simp add: max_inv_def)
  have "max_left (max_main room forked) \<le> int room + 4"
    by (simp add: max_left_def max_main_def creator_start_def numeral_2_eq_2)
  with max_left_run [OF assms] max_left_nonneg [of s] show "length ls \<le> room + 4" by linarith
  fix c
  show "shown c = map int [1..<Suc (nat (count c))]" "reported c = None \<or> reported c = Some (created c + 1)"
    if "c \<in> set (creators s)"
    using inv that by (auto simp: max_inv_def list_all_iff creator_ok_def)
next
  fix i c assume "i < length (creators s) \<and> creators s ! i = c \<and> reported c = None"
  then show "max_step (i, 11) s \<noteq> None" by (simp add: max_step_def Let_def)
qed

theorem max_thread_reports_witness:
  "\<exists>s. run max_step [(0, 0), (1, 0), (0, 11), (0, 0), (1, 11), (1, 0)] (max_main 2 True) = Some s \<and>
     map reported (creators s) = [Some 2, Some 2] \<and> sum_list (map created (creators s)) = 2"
proof -
  obtain s where s: "run max_step [(0, 0), (1, 0), (0, 11), (0, 0), (1, 11), (1, 0)] (max_main 2 True) = Some s"
    "map reported (creators s) = [Some 2, Some 2]" "slots s = 0"
    by (simp add: max_step_def max_main_def creator_start_def numeral_2_eq_2)
  from max_thread_reports [OF s(1)] s show ?thesis by auto
qed

section \<open>set\<close>

text \<open>
  \<open>printsigset\<close> asks for the signals 1 to 31. \<open>main\<close> blocks SIGINT, beside what the process inherited as
  blocked, and prints the pending signals again and again; SIGKILL and SIGSTOP cannot be blocked.
  A signal that arrives is pending if it is blocked; otherwise the standard action is taken, which
  is to do nothing for some and to end the process for the rest. Job control is left out.
\<close>

type_synonym sigset_t = "nat set"

definition printsigset :: "sigset_t \<Rightarrow> string" where
  "printsigset p = map (\<lambda>i. if i \<in> p then CHR ''1'' else CHR ''0'') [1..<32]"

datatype set_pc = Set_block | Set_pending | Set_print | Set_killed nat

record set_state =
  sigmask :: sigset_t
  arrived :: sigset_t
  pset :: sigset_t
  lines_out :: "string list"
  spc :: set_pc

definition SIGINT :: nat where "SIGINT = 2"

definition unblockable :: sigset_t where "unblockable = {9, 19}"
definition job_control :: sigset_t where "job_control = {19, 20, 21, 22}"
definition ignored_by_default :: sigset_t where "ignored_by_default = {17, 18, 23, 28}"

text \<open>The label is the arrival of a signal, or nothing: then \<open>main\<close> goes on.\<close>

definition set_step :: "nat option \<Rightarrow> set_state \<Rightarrow> set_state outcome option" where
  "set_step l s = (case spc s of Set_killed i \<Rightarrow> None | _ \<Rightarrow>
     (case l of
        Some i \<Rightarrow>
          if i = 0 \<or> i \<ge> 32 \<or> i \<in> job_control then None
          else if i \<in> sigmask s then Some (Inr (s\<lparr>arrived := insert i (arrived s)\<rparr>))
          else if i \<in> ignored_by_default then Some (Inr s)
          else Some (Inr (s\<lparr>spc := Set_killed i\<rparr>))
      | None \<Rightarrow> Some (Inr (case spc s of
          Set_block \<Rightarrow> (let set_s = insert SIGINT {} in s\<lparr>sigmask := sigmask s \<union> (set_s - unblockable), spc := Set_pending\<rparr>)
        | Set_pending \<Rightarrow> s\<lparr>pset := arrived s, spc := Set_print\<rparr>
        | _ \<Rightarrow> s\<lparr>lines_out := lines_out s @ [printsigset (pset s)], spc := Set_pending\<rparr>))))"

definition set_main :: "sigset_t \<Rightarrow> set_state" where
  "set_main m = \<lparr>sigmask = m - unblockable, arrived = {}, pset = {}, lines_out = [], spc = Set_block\<rparr>"

text \<open>A line can be read back.\<close>

lemma printsigset_nth: "1 \<le> i \<Longrightarrow> i < 32 \<Longrightarrow> printsigset p ! (i - 1) = CHR ''1'' \<longleftrightarrow> i \<in> p"
  by (simp add: printsigset_def)

lemma length_printsigset [simp]: "length (printsigset p) = 31"
  by (simp add: printsigset_def)

text \<open>What the lines printed from some point on show.\<close>

definition grows_from :: "set_state \<Rightarrow> set_state \<Rightarrow> bool" where
  "grows_from s0 s \<longleftrightarrow> (\<exists>ps. lines_out s = lines_out s0 @ map printsigset ps \<and> sorted_wrt (\<subseteq>) ps
     \<and> (\<forall>p\<in>set ps. arrived s0 \<subseteq> p \<and> p \<subseteq> arrived s \<and> (spc s = Set_print \<longrightarrow> p \<subseteq> pset s)))
     \<and> arrived s0 \<subseteq> arrived s \<and> (spc s = Set_print \<longrightarrow> arrived s0 \<subseteq> pset s \<and> pset s \<subseteq> arrived s)"

lemma grows_step:
  assumes "grows_from s0 s" "set_step l s = Some (Inr s')"
  shows "grows_from s0 s'"
proof -
  from assms(1) obtain ps where ps: "lines_out s = lines_out s0 @ map printsigset ps" "sorted_wrt (\<subseteq>) ps"
    "\<forall>p\<in>set ps. arrived s0 \<subseteq> p \<and> p \<subseteq> arrived s \<and> (spc s = Set_print \<longrightarrow> p \<subseteq> pset s)"
    and a: "arrived s0 \<subseteq> arrived s" "spc s = Set_print \<longrightarrow> arrived s0 \<subseteq> pset s \<and> pset s \<subseteq> arrived s"
    by (auto simp: grows_from_def)
  show ?thesis
  proof (cases "spc s = Set_print \<and> l = None")
    case True
    with assms(2) have s': "s' = s\<lparr>lines_out := lines_out s @ [printsigset (pset s)], spc := Set_pending\<rparr>"
      by (simp add: set_step_def)
    have "lines_out s' = lines_out s0 @ map printsigset (ps @ [pset s])" using ps(1) s' by simp
    moreover have "sorted_wrt (\<subseteq>) (ps @ [pset s])" using ps True by (simp add: sorted_wrt_append)
    ultimately show ?thesis
      unfolding grows_from_def using a ps(3) True s' by (intro conjI exI [of _ "ps @ [pset s]"]) auto
  next
    case False
    then have st: "lines_out s' = lines_out s" "arrived s \<subseteq> arrived s'"
      "spc s' = Set_print \<longrightarrow> (spc s = Set_print \<and> pset s' = pset s) \<or> pset s' = arrived s"
      using assms(2) by (auto simp: set_step_def Let_def split: set_pc.splits option.splits if_splits)
    have "arrived s0 \<subseteq> p \<and> p \<subseteq> arrived s' \<and> (spc s' = Set_print \<longrightarrow> p \<subseteq> pset s')" if "p \<in> set ps" for p
      using bspec [OF ps(3) that] st(2,3) by auto
    moreover have "arrived s0 \<subseteq> arrived s' \<and> (spc s' = Set_print \<longrightarrow> arrived s0 \<subseteq> pset s' \<and> pset s' \<subseteq> arrived s')"
      using a st(2,3) by auto
    moreover have "lines_out s' = lines_out s0 @ map printsigset ps" using ps(1) st(1) by simp
    ultimately show ?thesis unfolding grows_from_def using ps(2) by blast
  qed
qed

text \<open>Who can end the program.\<close>

definition set_safe :: "sigset_t \<Rightarrow> set_state \<Rightarrow> bool" where
  "set_safe m s \<longleftrightarrow> arrived s \<subseteq> insert SIGINT m
     \<and> (case spc s of Set_block \<Rightarrow> sigmask s = m - unblockable \<and> lines_out s = []
        | Set_killed i \<Rightarrow> i \<notin> m - unblockable \<and> (i = SIGINT \<longrightarrow> lines_out s = [])
        | _ \<Rightarrow> sigmask s = insert SIGINT (m - unblockable))"

lemma set_safe_step: "set_safe m s \<Longrightarrow> set_step l s = Some (Inr s') \<Longrightarrow> set_safe m s'"
  by (auto simp: set_step_def set_safe_def unblockable_def SIGINT_def split: set_pc.splits option.splits if_splits)

interpretation set_prog: inductive_invariant "\<lambda>s. s = set_main m" "fires set_step" "set_safe m" for m
proof
  show "set_safe m s" if "s = set_main m" for s using that by (simp add: set_main_def set_safe_def)
  show "set_safe m s'" if "set_safe m s" "fires set_step l s s'" for s l s'
    using that by (auto simp: fires_def intro: set_safe_step)
qed

interpretation set_lines: inductive_invariant "\<lambda>s. s = s0 \<and> spc s0 \<noteq> Set_print" "fires set_step" "grows_from s0" for s0
proof
  show "grows_from s0 s" if "s = s0 \<and> spc s0 \<noteq> Set_print" for s using that by (auto simp: grows_from_def)
  show "grows_from s0 s'" if "grows_from s0 s" "fires set_step l s s'" for s l s'
    using that by (auto simp: fires_def intro: grows_step)
qed

text \<open>What set.cpp shows: from any point at the top of its loop (or before it) on, the lines show growing sets
  that contain everything pending at that point, so a signal once seen pending is seen in every
  line after; only SIGINT and what was inherited as blocked is ever pending; and the program is ended only
  by a signal that is not blocked, by SIGINT only before it has printed anything.\<close>

theorem set_shows_pending:
  assumes "reach (\<lambda>s. s = set_main m) (fires set_step) s0" "spc s0 \<noteq> Set_print" "run set_step ls s0 = Some s"
  shows "(\<exists>ps. lines_out s = lines_out s0 @ map printsigset ps \<and> sorted_wrt (\<subseteq>) ps \<and> list_all (\<lambda>p. arrived s0 \<subseteq> p) ps)
    \<and> arrived s \<subseteq> insert SIGINT m
    \<and> (\<forall>i. spc s = Set_killed i \<longrightarrow> i \<notin> m - unblockable \<and> (i = SIGINT \<longrightarrow> lines_out s = []))"
proof -
  have "reach (\<lambda>u. u = s0 \<and> spc s0 \<noteq> Set_print) (fires set_step) s"
    by (rule reach_mono [OF run_start_reach [OF assms(3)]]) (simp add: assms(2))
  then have "grows_from s0 s" by (rule set_lines.inv_reach)
  then obtain ps where "lines_out s = lines_out s0 @ map printsigset ps" "sorted_wrt (\<subseteq>) ps" "list_all (\<lambda>p. arrived s0 \<subseteq> p) ps"
    by (auto simp: grows_from_def list_all_iff)
  moreover have "set_safe m s" by (rule set_prog.inv_reach) (rule run_reach [OF assms(3,1)])
  then have "arrived s \<subseteq> insert SIGINT m" "spc s = Set_killed i \<longrightarrow> i \<notin> m - unblockable \<and> (i = SIGINT \<longrightarrow> lines_out s = [])" for i
    by (auto simp: set_safe_def)
  ultimately show ?thesis by blast
qed

text \<open>SIGINT arrives after the first line, SIGTERM after the second.\<close>

lemma set_demo:
  "\<exists>s0. run set_step [None, None, None, Some 2] (set_main {}) = Some s0 \<and> spc s0 = Set_pending \<and> arrived s0 = {2} \<and>
     (\<exists>s. run set_step [None, None, Some 15] s0 = Some s \<and> spc s = Set_killed 15 \<and> length (lines_out s) = Suc (length (lines_out s0)))"
  by (simp add: set_step_def set_main_def SIGINT_def unblockable_def job_control_def ignored_by_default_def)

theorem set_shows_pending_witness:
  "\<exists>s0 s. run set_step [None, None, Some 15] s0 = Some s \<and> spc s = Set_killed 15 \<and> last (lines_out s) ! 1 = CHR ''1''"
proof -
  obtain s0 s where r: "run set_step [None, None, None, Some 2] (set_main {}) = Some s0" "spc s0 = Set_pending" "arrived s0 = {2}"
    "run set_step [None, None, Some 15] s0 = Some s" "spc s = Set_killed 15" "length (lines_out s) = Suc (length (lines_out s0))"
    using set_demo by blast
  from set_shows_pending [OF run_start_reach [OF r(1)] _ r(4)] r(2)
  obtain ps where ps: "lines_out s = lines_out s0 @ map printsigset ps" "list_all (\<lambda>p. arrived s0 \<subseteq> p) ps" by auto
  with r(6) obtain p where p: "ps = [p]" by (auto simp: length_Suc_conv)
  with ps r(3) printsigset_nth [of 2 p] have "last (lines_out s) ! 1 = CHR ''1''" by simp
  with r(4,5) show ?thesis by blast
qed

section \<open>stat\<close>

text \<open>
  \<open>main\<close> asks for the file named by its argument and prints its size, which \<open>printf\<close> reads as an \<open>int\<close>, and whether
  it is a regular file. A failed call is reported but not the end: the struct is then read
  although nothing was written into it.
\<close>

record stat_buf =
  st_size :: int
  st_mode :: "32 word"

datatype stat_line = St_error | St_size int | Its_a_regular_file | No_ieda

definition S_ISREG :: "32 word \<Rightarrow> bool" where
  "S_ISREG m \<longleftrightarrow> m AND 0xF000 = 0x8000"

definition stat_main :: "stat_buf option \<Rightarrow> stat_line list \<times> unit outcome" where
  "stat_main res = (case res of
     None \<Rightarrow> ([St_error], Inl Indeterminate)
   | Some sbuf \<Rightarrow> ([St_size (sint (word_of_int (st_size sbuf) :: 32 word)),
       if S_ISREG (st_mode sbuf) then Its_a_regular_file else No_ieda], Inr ()))"

lemma stat_size_exact:
  assumes "0 \<le> st_size b" "st_size b < 2 ^ 31"
  shows "hd (fst (stat_main (Some b))) = St_size (st_size b)"
  using assms signed_take_bit_int_eq_self [of 31 "st_size b"] by (simp add: stat_main_def signed_of_int)

lemma stat_size_wraps: "hd (fst (stat_main (Some \<lparr>st_size = 2 ^ 31, st_mode = m\<rparr>))) = St_size (- (2 ^ 31))"
  by (simp add: stat_main_def)

end
