(* ===== verification/Pool_Program.thy ===== *)
theory Pool_Program
  imports Pool_Theorems
begin

text \<open>
  The program of src/socket/thread_Pool/main.cpp as a whole: \<open>main\<close> makes a pool of 10 to 100 threads with room for 100
  tasks, adds the 40 tasks \<open>process(0)\<close>, ..., \<open>process(39)\<close> while the workers already run, and then sleeps for
  ever; \<open>threadpool_destory\<close> after its endless loop is never called.
\<close>

section \<open>The program\<close>

text \<open>
  \<open>process\<close> prints a line, sleeps and prints another one; \<open>in_process\<close> are the threads between the two. \<open>next_num\<close> is
  the index of the loop of \<open>main\<close>.
\<close>

datatype pline = Working nat ptr | Finished nat

record pprog =
  psys_of :: psys
  next_num :: nat
  in_process :: "nat list"
  plines :: "pline list"

definition num_task :: "ptr \<Rightarrow> nat \<Rightarrow> threadpool_task_t" where
  "num_task process i = \<lparr>tfunction = process, targ = i\<rparr>"

datatype prog_label = Next_add | Process_begin nat | Process_end nat | Pool label

fun is_run :: "pc \<Rightarrow> bool" where
  "is_run (W_run k) = True" | "is_run c = False"

definition in_system :: "('a \<Rightarrow> 'b) \<Rightarrow> 'a outcome option \<Rightarrow> 'b outcome option" where
  "in_system f r = map_option (\<lambda>x. obind x (\<lambda>u. Inr (f u))) r"

text \<open>\<open>process\<close> up to its \<open>sleep\<close>, and from there to its return.\<close>

definition process_begin :: "nat \<Rightarrow> ptr \<Rightarrow> pprog \<Rightarrow> pprog" where
  "process_begin t arg s = s\<lparr>in_process := t # in_process s, plines := plines s @ [Working t arg]\<rparr>"

definition process_end :: "nat \<Rightarrow> pprog \<Rightarrow> pprog" where
  "process_end t s = s\<lparr>in_process := remove1 t (in_process s), plines := plines s @ [Finished t]\<rparr>"

declare process_begin_def [simp] process_end_def [simp]

fun pool_main_step :: "ptr \<Rightarrow> prog_label \<Rightarrow> pprog \<Rightarrow> pprog outcome option" where
  "pool_main_step process Next_add s =
     (if next_num s < 40
      then in_system (\<lambda>u. s\<lparr>psys_of := u, next_num := next_num s + 1\<rparr>)
        (pool_step (Start_add 0 (num_task process (next_num s))) (psys_of s))
      else None)"
| "pool_main_step process (Process_begin t) s =
     (if t < length (pcs (psys_of s)) \<and> t \<notin> set (in_process s)
      then (case pcs (psys_of s) ! t of
              W_run k \<Rightarrow> Some (Inr (process_begin t (targ k) s))
            | _ \<Rightarrow> None)
      else None)"
| "pool_main_step process (Process_end t) s =
     (if t \<in> set (in_process s)
      then in_system (\<lambda>u. process_end t (s\<lparr>psys_of := u\<rparr>))
        (pool_step (Step t None []) (psys_of s))
      else None)"
| "pool_main_step process (Pool l) s =
     (case l of
        Step t w z \<Rightarrow> if t < length (pcs (psys_of s)) \<and> is_run (pcs (psys_of s) ! t) then None
          else in_system (\<lambda>u. s\<lparr>psys_of := u\<rparr>) (pool_step l (psys_of s))
      | Spurious t \<Rightarrow> in_system (\<lambda>u. s\<lparr>psys_of := u\<rparr>) (pool_step l (psys_of s))
      | _ \<Rightarrow> None)"

text \<open>
  \<open>main\<close> from its start: the creation, with whatever it comes to, then the additions. The code does not look at the
  pointer it gets: with a null pointer the first addition follows it. The thread of \<open>main\<close> is thread 0; the label
  \<open>None\<close> is the creation.
\<close>

datatype pmain = Creating | No_pool | Adding pprog

definition pool_main :: "create_env \<Rightarrow> pmain outcome" where
  "pool_main e =
     obind (threadpool_create e 0 10 100 100) (\<lambda>thp. Inr (case thp of
         None \<Rightarrow> No_pool
       | Some p \<Rightarrow> Adding \<lparr>psys_of = start_state p 0, next_num = 0, in_process = [], plines = []\<rparr>))"

fun program_step :: "create_env \<Rightarrow> ptr \<Rightarrow> prog_label option \<Rightarrow> pmain \<Rightarrow> pmain outcome option" where
  "program_step e process None Creating = Some (pool_main e)"
| "program_step e process (Some l) (Adding s) =
     in_system Adding (pool_main_step process l s)"
| "program_step e process (Some Next_add) No_pool = Some (Inl Null_deref)"
| "program_step e process l s = None"

section \<open>What a step of the pool does to the other threads\<close>

fun pending :: "pc \<Rightarrow> threadpool_task_t list" where
  "pending (A_lock k) = [k]" | "pending (A_test k) = [k]" | "pending (A_wait k) = [k]"
| "pending (A_wake k) = [k]" | "pending (A_shut k) = [k]" | "pending (A_put k) = [k]" | "pending c = []"

text \<open>What other threads see change: waiting threads are woken.\<close>

definition only_woken :: "pc \<Rightarrow> pc \<Rightarrow> bool" where
  "only_woken c d \<longleftrightarrow> d = c \<or> c = W_wait \<and> d = W_wake \<or> (\<exists>k. c = A_wait k \<and> d = A_wake k)"

lemma only_woken_refl [simp]: "only_woken c c"
  by (simp add: only_woken_def)

lemma only_woken_keeps:
  assumes "only_woken c d"
  shows "pending d = pending c" "is_destroy d = is_destroy c" "is_run c \<Longrightarrow> d = c" "is_run d = is_run c"
  using assms by (auto simp: only_woken_def)

lemma wake_only:
  "wake_worker w cs = Some cs' \<Longrightarrow> length cs' = length cs \<and> (\<forall>u<length cs. only_woken (cs ! u) (cs' ! u))"
  "length (wake_workers cs) = length cs \<and> (\<forall>u<length cs. only_woken (cs ! u) (wake_workers cs ! u))"
  "length (wake_adders cs) = length cs \<and> (\<forall>u<length cs. only_woken (cs ! u) (wake_adders cs ! u))"
  by (auto simp: wake_worker_def wake_workers_def wake_adders_def only_woken_def nth_list_update
      split: option.splits if_splits pc.splits)

text \<open>A step of a thread of an open pool that is not destroying it.\<close>

definition calm_move :: "nat \<Rightarrow> psys \<Rightarrow> psys \<Rightarrow> bool" where
  "calm_move t s s' \<longleftrightarrow> length (pcs s) \<le> length (pcs s')
     \<and> (\<forall>u<length (pcs s'). u \<noteq> t \<longrightarrow> (if u < length (pcs s) then only_woken (pcs s ! u) (pcs s' ! u) else pcs s' ! u = W_lock))
     \<and> \<not> is_destroy (pcs s' ! t) \<and> added s' @ pending (pcs s' ! t) = added s @ pending (pcs s ! t)
     \<and> (\<exists>p. the_pool s' = Some p \<and> \<not> shutdown p)
     \<and> (\<forall>k. pending (pcs s ! t) = [k] \<longrightarrow> pending (pcs s' ! t) = [k] \<or> pcs s' ! t = Idle)
     \<and> (pcs s ! t \<noteq> Idle)
     \<and> (pending (pcs s ! t) = [] \<longrightarrow> pending (pcs s' ! t) = [] \<and> pcs s' ! t \<noteq> Idle)
     \<and> (\<forall>k. pcs s ! t = W_run k \<longrightarrow> finished s' = finished s @ [k]) \<and> (\<not> is_run (pcs s ! t) \<longrightarrow> finished s' = finished s)"

lemma worker_woken_open: "worker_woken p = (e, p') \<Longrightarrow> shutdown p' = shutdown p"
  by (auto simp: worker_woken_def Let_def split: if_splits)

lemma worker_take_open: "worker_take p = Inr (k, p') \<Longrightarrow> shutdown p' = shutdown p"
  by (auto simp: worker_take_def)

lemma adjust_grow_open: "adjust_grow kl i p = Inr (n, p') \<Longrightarrow> shutdown p' = shutdown p"
  using arg_cong [OF grow_loop_frame [of kl i 0 0 p n p' 0 Null], of shutdown] by (simp add: adjust_grow_def)

lemma calm_thread_step:
  assumes t: "t < length (pcs s)" and p: "the_pool s = Some p" "\<not> shutdown p" and nd: "\<not> is_destroy (pcs s ! t)"
    and st: "thread_step t w z (pcs s ! t) s = Some (Inr s')"
  shows "calm_move t s s'"
proof (cases "pcs s ! t")
  case (A_put k)
  then show ?thesis using t p st
    by (auto simp: thread_step_def on_pool_def pool_thread_def calm_move_def state_simps nth_list_update add_put_shutdown
        dest!: wake_only(1) releaseE split: option.splits)
next
  case W_take
  then show ?thesis using t p st
    by (auto simp: thread_step_def on_pool_def pool_thread_def calm_move_def state_simps nth_list_update wake_only(3) worker_take_open dest!: releaseE)
next
  case (M_signal n)
  then show ?thesis using t p st
    by (cases n) (auto simp: thread_step_def on_pool_def pool_thread_def calm_move_def state_simps nth_list_update
        dest!: wake_only(1) split: option.splits)
next
  case (M_grow q l b)
  then show ?thesis using t p st
    by (auto simp: thread_step_def on_pool_def pool_thread_def calm_move_def state_simps nth_list_update only_woken_def nth_append
        adjust_grow_open dest!: criticalE)
next
  case (W_run k)
  then show ?thesis using t p st
    by (auto simp: thread_step_def on_pool_def pool_thread_def calm_move_def state_simps nth_list_update only_woken_def)
next
  case W_woken
  then show ?thesis using t p st
    by (auto simp: thread_step_def on_pool_def pool_thread_def calm_move_def state_simps nth_list_update only_woken_def
        dest!: releaseE worker_woken_open split: prod.splits bool.splits)
qed (use t p st nd in \<open>auto simp: thread_step_def on_pool_def pool_thread_def calm_move_def state_simps nth_list_update only_woken_def adjust_shrink_def
    dest!: releaseE acquireE criticalE split: if_splits\<close>)

section \<open>The invariant\<close>

fun task_at :: "pc \<Rightarrow> threadpool_task_t" where
  "task_at (W_run k) = k" | "task_at c = undefined"

definition started :: "pprog \<Rightarrow> nat list" where
  "started s = concat (map (\<lambda>l. case l of Working t n \<Rightarrow> [n] | _ \<Rightarrow> []) (plines s))"

definition ended_in :: "pprog \<Rightarrow> nat" where
  "ended_in s = length (filter (\<lambda>l. case l of Finished t \<Rightarrow> True | _ \<Rightarrow> False) (plines s))"

definition main_inv :: "ptr \<Rightarrow> pprog \<Rightarrow> bool" where
  "main_inv process s \<longleftrightarrow> pool_reach (psys_of s)
     \<and> (\<exists>p. the_pool (psys_of s) = Some p \<and> \<not> shutdown p \<and> queue_max_size p = 100)
     \<and> pcs (psys_of s) \<noteq> [] \<and> (\<forall>u<length (pcs (psys_of s)). \<not> is_destroy (pcs (psys_of s) ! u)
          \<and> (0 < u \<longrightarrow> pending (pcs (psys_of s) ! u) = [] \<and> pcs (psys_of s) ! u \<noteq> Idle))
     \<and> (pcs (psys_of s) ! 0 = Idle \<or> pending (pcs (psys_of s) ! 0) \<noteq> [])
     \<and> next_num s \<le> 40 \<and> added (psys_of s) @ pending (pcs (psys_of s) ! 0) = map (num_task process) [0..<next_num s]
     \<and> distinct (in_process s)
     \<and> (\<forall>t\<in>set (in_process s). t < length (pcs (psys_of s)) \<and> is_run (pcs (psys_of s) ! t))
     \<and> mset (started s) = image_mset targ (mset (finished (psys_of s)))
          + mset (map (\<lambda>t. targ (task_at (pcs (psys_of s) ! t))) (in_process s))
     \<and> ended_in s = length (finished (psys_of s))"

lemma main_inv_start:
  assumes e: "malloc_ok e" "new_tid e = Suc" and m: "pool_main e = Inr (Adding s)"
  shows "main_inv process s"
proof -
  from m obtain p where c: "threadpool_create e 0 10 100 100 = Inr (Some p)"
    and s: "s = \<lparr>psys_of = start_state p 0, next_num = 0, in_process = [], plines = []\<rparr>"
    by (cases "threadpool_create e 0 10 100 100") (auto simp: pool_main_def split: option.splits)
  have i: "init_sys (start_state p 0)" unfolding init_sys_def using e c
    by (intro exI [of _ e] exI [of _ 10] exI [of _ 100] exI [of _ 100] exI [of _ p] exI [of _ 0]) simp
  from create_fresh [OF c e(1)] have f: "fresh_pool p" "queue_max_size p = 100" by auto
  then have "\<not> shutdown p" by (simp add: fresh_pool_def)
  moreover have "\<not> is_destroy (pcs (start_state p 0) ! u) \<and>
      (0 < u \<longrightarrow> pending (pcs (start_state p 0) ! u) = [] \<and> pcs (start_state p 0) ! u \<noteq> Idle)" if "u < length (pcs (start_state p 0))" for u
    using that by (auto simp: start_state_def nth_Cons' nth_append split: if_splits)
  moreover have "pool_reach (start_state p 0)" using i by (rule reach_init)
  ultimately show ?thesis using f s
    by (auto simp: main_inv_def started_def ended_in_def start_state_def)
qed

lemma calm_spurious:
  assumes "pool_step (Spurious t) s = Some (Inr u)" "\<not> is_destroy (pcs s ! t)" "the_pool s = Some p" "\<not> shutdown p"
  shows "t < length (pcs s) \<and> calm_move t s u"
  using assms by (auto simp: calm_move_def goto_def split: if_splits pc.splits)

lemma main_inv_move:
  assumes inv: "main_inv process s" and st: "pool_step l (psys_of s) = Some (Inr u)"
    and cm: "calm_move t (psys_of s) u" and t: "t < length (pcs (psys_of s))"
    and s': "psys_of s' = u" "next_num s' = next_num s"
    and run: "if is_run (pcs (psys_of s) ! t)
      then t \<in> set (in_process s) \<and> in_process s' = remove1 t (in_process s) \<and> plines s' = plines s @ [Finished t]
      else in_process s' = in_process s \<and> plines s' = plines s"
  shows "main_inv process s'"
proof -
  let ?s = "psys_of s"
  have r: "pool_reach u" using inv st by (auto simp: main_inv_def fires_def intro: reach_step)
  obtain p where p: "the_pool u = Some p" "\<not> shutdown p" using cm by (auto simp: calm_move_def)
  have cap: "queue_max_size p = 100" using step_hist [OF st] p inv by (auto simp: keeps_cap_def main_inv_def)
  have len: "length (pcs ?s) \<le> length (pcs u)" using cm by (simp add: calm_move_def)
  have other: "if v < length (pcs ?s) then only_woken (pcs ?s ! v) (pcs u ! v) else pcs u ! v = W_lock"
    if "v < length (pcs u)" "v \<noteq> t" for v using cm that by (simp add: calm_move_def)
  have pos: "0 < length (pcs ?s)" and quiet: "\<And>v. v < length (pcs ?s) \<Longrightarrow> \<not> is_destroy (pcs ?s ! v) \<and>
      (0 < v \<longrightarrow> pending (pcs ?s ! v) = [] \<and> pcs ?s ! v \<noteq> Idle)" using inv by (auto simp: main_inv_def)
  have moved: "\<not> is_destroy (pcs u ! t)" "added u @ pending (pcs u ! t) = added ?s @ pending (pcs ?s ! t)"
    "pending (pcs ?s ! t) = [] \<longrightarrow> pending (pcs u ! t) = [] \<and> pcs u ! t \<noteq> Idle"
    "\<forall>k. pending (pcs ?s ! t) = [k] \<longrightarrow> pending (pcs u ! t) = [k] \<or> pcs u ! t = Idle" "pcs ?s ! t \<noteq> Idle"
    using cm by (simp_all add: calm_move_def)
  have Q: "\<not> is_destroy (pcs u ! v) \<and> (0 < v \<longrightarrow> pending (pcs u ! v) = [] \<and> pcs u ! v \<noteq> Idle)" if v: "v < length (pcs u)" for v
  proof (cases "v = t")
    case True
    with moved quiet [OF t] show ?thesis by auto
  next
    case False
    show ?thesis
    proof (cases "v < length (pcs ?s)")
      case True
      then have "only_woken (pcs ?s ! v) (pcs u ! v)" using other [OF v False] by simp
      from only_woken_keeps(1,2) [OF this] this quiet [OF True] show ?thesis by (auto simp: only_woken_def)
    next
      case new: False
      with other [OF v False] show ?thesis by simp
    qed
  qed
  have P0: "(pcs u ! 0 = Idle \<or> pending (pcs u ! 0) \<noteq> []) \<and> added u @ pending (pcs u ! 0) = added ?s @ pending (pcs ?s ! 0)"
  proof (cases "t = 0")
    case True
    have "pending (pcs ?s ! 0) \<noteq> []" using inv moved(5) True by (auto simp: main_inv_def)
    then obtain k where "pending (pcs ?s ! 0) = [k]" by (cases "pcs ?s ! 0") auto
    with moved True show ?thesis by auto
  next
    case False
    have "0 < length (pcs u)" using pos len by linarith
    with other [of 0] pos False have w: "only_woken (pcs ?s ! 0) (pcs u ! 0)" by simp
    have "pending (pcs ?s ! t) = []" using quiet [OF t] False by simp
    then have "added u = added ?s" using moved(2,3) by simp
    with w only_woken_keeps(1) [OF w] inv show ?thesis by (auto simp: main_inv_def only_woken_def)
  qed
  have run_kept: "pcs u ! v = pcs ?s ! v" if "v \<in> set (in_process s)" "v \<noteq> t" for v
    using other [of v] that inv only_woken_keeps(3) [of "pcs ?s ! v" "pcs u ! v"] len by (auto simp: main_inv_def)
  let ?num = "\<lambda>x v. targ (task_at (pcs x ! v))"
  have same: "image_mset (?num u) (mset vs) = image_mset (?num ?s) (mset vs) \<and> (\<forall>v\<in>set vs. pcs u ! v = pcs ?s ! v)"
    if "set vs \<subseteq> set (in_process s) - {t}" for vs
  proof -
    have k: "pcs u ! v = pcs ?s ! v" if "v \<in> set vs" for v using run_kept [of v] that \<open>set vs \<subseteq> _\<close> by blast
    then have "image_mset (?num u) (mset vs) = image_mset (?num ?s) (mset vs)" by (intro image_mset_cong) simp
    with k show ?thesis by blast
  qed
  have I: "mset (started s) = image_mset targ (mset (finished ?s)) + mset (map (\<lambda>t. targ (task_at (pcs ?s ! t))) (in_process s))"
    "ended_in s = length (finished ?s)" and d: "distinct (in_process s)"
    and ip: "\<forall>v\<in>set (in_process s). v < length (pcs ?s) \<and> is_run (pcs ?s ! v)" using inv by (auto simp: main_inv_def)
  have L: "mset (started s') = image_mset targ (mset (finished u)) + mset (map (\<lambda>t. targ (task_at (pcs u ! t))) (in_process s'))
      \<and> ended_in s' = length (finished u) \<and> distinct (in_process s')
      \<and> (\<forall>v\<in>set (in_process s'). v < length (pcs u) \<and> is_run (pcs u ! v))"
  proof (cases "is_run (pcs ?s ! t)")
    case False
    then have "t \<notin> set (in_process s)" using ip by auto
    then have "set (in_process s) \<subseteq> set (in_process s) - {t}" by auto
    note same [OF this]
    moreover have "finished u = finished ?s" using cm False by (simp add: calm_move_def)
    moreover have "in_process s' = in_process s" "started s' = started s" "ended_in s' = ended_in s"
      using run False by (simp_all add: started_def ended_in_def)
    ultimately show ?thesis using I d ip len by (auto intro: less_le_trans)
  next
    case True
    then obtain k where k: "pcs ?s ! t = W_run k" by (cases "pcs ?s ! t") auto
    then have f: "finished u = finished ?s @ [k]" using cm by (simp add: calm_move_def)
    from True run have m: "t \<in> set (in_process s)" "in_process s' = remove1 t (in_process s)" "plines s' = plines s @ [Finished t]" by auto
    then have "mset (in_process s) = add_mset t (mset (in_process s'))" by simp
    then have "image_mset (\<lambda>v. targ (task_at (pcs ?s ! v))) (mset (in_process s))
        = add_mset (targ k) (image_mset (\<lambda>v. targ (task_at (pcs ?s ! v))) (mset (in_process s')))" using k by simp
    moreover have in': "set (in_process s') = set (in_process s) - {t}" using m d by simp
    note sm = same [OF equalityD1 [OF in']]
    moreover have "started s' = started s" "ended_in s' = Suc (ended_in s)" using m(3) by (simp_all add: started_def ended_in_def)
    moreover have "distinct (in_process s')" using d m(2) by simp
    moreover have "\<forall>v\<in>set (in_process s'). v < length (pcs u) \<and> is_run (pcs u ! v)"
      using sm ip len in' by (auto intro: less_le_trans)
    ultimately show ?thesis using I f by simp
  qed
  have "pcs u \<noteq> []" using pos len by auto
  with r p cap Q P0 L inv s' show ?thesis unfolding main_inv_def by auto
qed

lemma in_system_Inr: "in_system f r = Some (Inr s') \<longleftrightarrow> (\<exists>u. r = Some (Inr u) \<and> s' = f u)"
  by (cases r; cases "the r") (auto simp: in_system_def)

lemma in_system_Inl: "in_system f r = Some (Inl e) \<longleftrightarrow> r = Some (Inl e)"
  by (cases r; cases "the r") (auto simp: in_system_def)

lemma main_inv_add:
  assumes inv: "main_inv process s" and n: "next_num s < 40"
    and st: "pool_step (Start_add 0 (num_task process (next_num s))) (psys_of s) = Some (Inr u)"
  shows "main_inv process (s\<lparr>psys_of := u, next_num := Suc (next_num s)\<rparr>)"
proof -
  let ?k = "num_task process (next_num s)"
  from st have u: "u = goto 0 (A_lock ?k) (psys_of s)" "pcs (psys_of s) ! 0 = Idle" "0 < length (pcs (psys_of s))"
    by (auto split: if_splits)
  have "pool_reach (psys_of s)" using inv by (simp add: main_inv_def)
  moreover have "fires pool_step (Start_add 0 ?k) (psys_of s) u" unfolding fires_def by (rule st)
  ultimately have "pool_reach u" by (rule reach_step)
  moreover have "0 \<notin> set (in_process s)" using inv u(2) by (auto simp: main_inv_def)
  then have k: "((pcs (psys_of s))[0 := A_lock ?k]) ! t = pcs (psys_of s) ! t" if "t \<in> set (in_process s)" for t
    using that by (cases "t = 0") auto
  then have "image_mset (\<lambda>t. targ (task_at (((pcs (psys_of s))[0 := A_lock ?k]) ! t))) (mset (in_process s))
      = image_mset (\<lambda>t. targ (task_at (pcs (psys_of s) ! t))) (mset (in_process s))"
    by (intro image_mset_cong) simp
  ultimately show ?thesis using inv u n k
    by (auto simp: main_inv_def goto_def nth_list_update started_def ended_in_def)
qed

lemma main_inv_begin:
  assumes "main_inv process s" "t < length (pcs (psys_of s))" "t \<notin> set (in_process s)" "pcs (psys_of s) ! t = W_run k"
  shows "main_inv process (s\<lparr>in_process := t # in_process s, plines := plines s @ [Working t (targ k)]\<rparr>)"
  using assms by (auto simp: main_inv_def started_def ended_in_def)

lemma main_inv_step:
  assumes inv: "main_inv process s" and st: "pool_main_step process l s = Some (Inr s')"
  shows "main_inv process s'"
proof -
  obtain p where p: "the_pool (psys_of s) = Some p" "\<not> shutdown p" using inv by (auto simp: main_inv_def)
  have nd: "\<not> is_destroy (pcs (psys_of s) ! t)" if "t < length (pcs (psys_of s))" for t
    using inv that by (auto simp: main_inv_def)
  note calm = calm_thread_step [OF _ p nd]
  show ?thesis
  proof (cases l)
    case Next_add
    with st inv show ?thesis by (auto simp: in_system_Inr intro: main_inv_add simp del: pool_step.simps split: if_splits)
  next
    case (Process_begin t)
    with st inv show ?thesis by (auto split: if_splits pc.splits intro: main_inv_begin)
  next
    case (Process_end t)
    with st obtain u where t: "t \<in> set (in_process s)" and u: "pool_step (Step t None []) (psys_of s) = Some (Inr u)"
      and s': "s' = s\<lparr>psys_of := u, in_process := remove1 t (in_process s), plines := plines s @ [Finished t]\<rparr>"
      by (auto simp: in_system_Inr simp del: pool_step.simps split: if_splits)
    from t inv have r: "t < length (pcs (psys_of s))" "is_run (pcs (psys_of s) ! t)" by (auto simp: main_inv_def)
    with u calm [OF r(1) r(1)] have "calm_move t (psys_of s) u" by simp
    from main_inv_move [OF inv u this r(1)] s' t r(2) show ?thesis by simp
  next
    case (Pool m)
    show ?thesis
    proof (cases m)
      case (Step t w z)
      with Pool st obtain u where u: "pool_step (Step t w z) (psys_of s) = Some (Inr u)" and s': "s' = s\<lparr>psys_of := u\<rparr>"
        and r: "\<not> is_run (pcs (psys_of s) ! t)" "t < length (pcs (psys_of s))"
        by (auto simp: in_system_Inr split: if_splits)
      with calm [OF r(2) r(2)] have "calm_move t (psys_of s) u" by simp
      from main_inv_move [OF inv u this r(2)] s' r(1) show ?thesis by simp
    next
      case (Spurious t)
      with Pool st obtain u where u: "pool_step (Spurious t) (psys_of s) = Some (Inr u)" and s': "s' = s\<lparr>psys_of := u\<rparr>"
        by (auto simp: in_system_Inr simp del: pool_step.simps)
      then have t: "t < length (pcs (psys_of s))" "\<not> is_run (pcs (psys_of s) ! t)" by (auto split: if_splits pc.splits)
      with calm_spurious [OF u nd [OF t(1)] p] main_inv_move [OF inv u _ t(1)] s' show ?thesis by simp
    qed (use Pool st in auto)
  qed
qed

definition program_inv :: "create_env \<Rightarrow> ptr \<Rightarrow> pmain \<Rightarrow> bool" where
  "program_inv e process s \<longleftrightarrow> malloc_ok e \<and> new_tid e = Suc \<longrightarrow>
     (case s of
        Creating \<Rightarrow> True
      | No_pool \<Rightarrow> threadpool_create e 0 10 100 100 = Inr None
      | Adding u \<Rightarrow> main_inv process u)"

lemma program_inv_step:
  assumes "program_inv e process s" "program_step e process l s = Some (Inr s')"
  shows "program_inv e process s'"
proof (cases s)
  case Creating
  with assms(2) have m: "pool_main e = Inr s'" by (cases l) auto
  then have "s' = No_pool \<Longrightarrow> threadpool_create e 0 10 100 100 = Inr None" "s' \<noteq> Creating"
    by (cases "threadpool_create e 0 10 100 100"; auto simp: pool_main_def split: option.splits)+
  with m show ?thesis by (cases s') (auto simp: program_inv_def intro: main_inv_start)
next
  case No_pool
  with assms(2) show ?thesis by (cases "(e, process, l, s)" rule: program_step.cases) auto
next
  case (Adding u)
  with assms(2) obtain k u' where "l = Some k" "pool_main_step process k u = Some (Inr u')" "s' = Adding u'"
    by (cases l) (auto simp: in_system_Inr simp del: pool_main_step.simps)
  with assms(1) Adding show ?thesis by (auto simp: program_inv_def intro: main_inv_step)
qed

interpretation pool_program: inductive_invariant "\<lambda>s. s = Creating" "fires (program_step e process)" "program_inv e process" for e process
proof
  show "program_inv e process s" if "s = Creating" for s using that by (simp add: program_inv_def)
  show "program_inv e process s'" if "program_inv e process s" "fires (program_step e process) l s s'" for s l s'
    using that by (auto simp: fires_def simp del: program_step.simps intro: program_inv_step)
qed

section \<open>What the program prints\<close>

lemma runs_in_flight:
  assumes "distinct ts" "\<forall>t\<in>set ts. t < length cs \<and> is_run (cs ! t)"
  shows "mset (map (\<lambda>t. task_at (cs ! t)) ts) \<subseteq># flights cs"
proof -
  have "mset (map (\<lambda>t. task_at (cs ! t)) ts) = (\<Sum>t\<leftarrow>ts. in_flight (cs ! t))" using assms(2)
  proof (induction ts)
    case (Cons t ts)
    then obtain k where "cs ! t = W_run k" by (cases "cs ! t") auto
    with Cons show ?case by simp
  qed simp
  also have "\<dots> = (\<Sum>t\<in>set ts. in_flight (cs ! t))" using assms(1) by (simp add: sum.distinct_set_conv_list)
  also have "\<dots> \<subseteq># (\<Sum>t\<in>{..<length cs}. in_flight (cs ! t))"
  proof -
    have "set ts \<subseteq> {..<length cs}" using assms(2) by auto
    from sum.subset_diff [OF this, of "\<lambda>t. in_flight (cs ! t)"] show ?thesis by simp
  qed
  also have "\<dots> = flights cs" by (simp add: gather_def sum_list_sum_nth atLeast0LessThan)
  finally show ?thesis .
qed

lemma started_within:
  assumes "main_inv process s"
  shows "mset (started s) \<subseteq># image_mset targ (mset (taken (psys_of s)))"
    "image_mset targ (mset (taken (psys_of s))) \<subseteq># mset [0..<next_num s]"
proof -
  let ?s = "psys_of s"
  obtain p where p: "pool_reach ?s" "the_pool ?s = Some p" using assms by (auto simp: main_inv_def)
  have "mset (map (\<lambda>t. task_at (pcs ?s ! t)) (in_process s)) \<subseteq># flights (pcs ?s)"
    by (rule runs_in_flight) (use assms in \<open>auto simp: main_inv_def\<close>)
  then have "mset (finished ?s) + mset (map (\<lambda>t. task_at (pcs ?s ! t)) (in_process s)) \<subseteq># mset (taken ?s)"
    using reach_core(2) [OF p] by simp
  then have "image_mset targ (mset (finished ?s) + mset (map (\<lambda>t. task_at (pcs ?s ! t)) (in_process s)))
      \<subseteq># image_mset targ (mset (taken ?s))" by (rule image_mset_subseteq_mono)
  then show "mset (started s) \<subseteq># image_mset targ (mset (taken ?s))"
    using assms by (simp add: main_inv_def image_mset.compositionality comp_def)
  have "map (num_task process) [0..<next_num s] = taken ?s @ pool_tasks p @ pending (pcs ?s ! 0)"
    using assms reach_core(1) [OF p] by (simp add: main_inv_def core_inv_def)
  then have "map targ (map (num_task process) [0..<next_num s]) = map targ (taken ?s) @ map targ (pool_tasks p @ pending (pcs ?s ! 0))"
    by simp
  moreover have "map targ (map (num_task process) [0..<next_num s]) = [0..<next_num s]"
    by (simp add: num_task_def comp_def)
  ultimately have "mset [0..<next_num s] = image_mset targ (mset (taken ?s)) + mset (map targ (pool_tasks p @ pending (pcs ?s ! 0)))"
    by (metis mset_append mset_map)
  then show "image_mset targ (mset (taken ?s)) \<subseteq># mset [0..<next_num s]" by simp
qed

lemma main_no_fault:
  assumes "main_inv process s"
  shows "pool_main_step process l s \<noteq> Some (Inl f)"
proof -
  obtain p where p: "pool_reach (psys_of s)" "the_pool (psys_of s) = Some p" using assms by (auto simp: main_inv_def)
  have nd: "\<not> is_destroy (pcs (psys_of s) ! t)" if "t < length (pcs (psys_of s))" for t
    using assms that by (auto simp: main_inv_def)
  have ok: "pool_step (Step t w z) (psys_of s) \<noteq> Some (Inl f)" for t w z
    using live_step_ok [OF pool.inv_reach [OF p(1)] p(2) _ nd] by simp
  have spur: "pool_step (Spurious t) (psys_of s) \<noteq> Some (Inl f)" for t by (auto split: pc.splits)
  have start: "pool_step (Start_add t k) (psys_of s) \<noteq> Some (Inl f)" for t k by auto
  show ?thesis
    using ok spur start
    by (cases l) (auto simp: in_system_Inl simp del: pool_step.simps split: if_splits pc.splits label.splits)
qed

lemma main_adding:
  assumes inv: "main_inv process s"
  shows "(\<exists>p. the_pool (psys_of s) = Some p \<and> queue_size p \<le> 40 \<and> queue_max_size p = 100 \<and> \<not> shutdown p)
    \<and> distinct (started s) \<and> set (started s) \<subseteq> {0..<next_num s} \<and> next_num s \<le> 40 \<and> ended_in s \<le> length (started s)
    \<and> (ended_in s = 40 \<longrightarrow> mset (started s) = mset [0..<40])"
proof -
  obtain p where p: "pool_reach (psys_of s)" "the_pool (psys_of s) = Some p" "\<not> shutdown p" "queue_max_size p = 100"
    using inv by (auto simp: main_inv_def)
  have n: "next_num s \<le> 40" and a: "added (psys_of s) @ pending (pcs (psys_of s) ! 0) = map (num_task process) [0..<next_num s]"
    using inv by (auto simp: main_inv_def)
  have c: "added (psys_of s) = taken (psys_of s) @ pool_tasks p" "ring_ok p"
    using reach_core(1) [OF p(1,2)] by (auto simp: core_inv_def)
  have "length (pool_tasks p) \<le> next_num s"
    using arg_cong [OF a, of length] c(1) by simp
  then have q: "queue_size p \<le> 40" using length_pool_tasks [OF c(2)] n by simp
  have sub: "mset (started s) \<subseteq># mset [0..<next_num s]" using started_within [OF inv] by (rule subset_mset.order_trans)
  have "mset (started s) \<subseteq># mset_set {0..<next_num s}" using sub by simp
  then have "count (mset (started s)) x \<le> 1" for x
    using mset_subset_eqD [of "mset (started s)"] subset_mset.order_trans
    by (metis count_mset_set' finite_atLeastLessThan le_numeral_extra(4) mset_subset_eq_count order_trans zero_le_one)
  then have d: "distinct (started s)" by (metis One_nat_def count_mset_0_iff distinct_count_atmost_1 le_Suc_eq le_zero_eq)
  have st: "set (started s) \<subseteq> {0..<next_num s}" using set_mset_mono [OF sub] by simp
  have e: "ended_in s \<le> length (started s)"
    using arg_cong [of "mset (started s)" _ size] inv by (simp add: main_inv_def flip: size_mset)
  have "mset (started s) = mset [0..<40]" if "ended_in s = 40"
  proof -
    have "size (mset [0..<next_num s]) \<le> size (mset (started s))" using that e n by simp
    with sub have "mset (started s) = mset [0..<next_num s]"
      by (metis mset_subset_size not_le subset_mset.le_imp_less_or_eq)
    moreover have "next_num s = 40" using that e n size_mset_mono [OF sub] by simp
    ultimately show ?thesis by simp
  qed
  with p q d st n e show ?thesis by blast
qed

text \<open>C4. The program of the pool from its first line, for every interleaving and every outcome of the creation
  (\<open>malloc\<close> as documented, thread ids in order): a step faults only if it is the creation that faults (after a
  failing call, create\_error\_paths) or if it is the first addition to the null pointer of a failed creation.
  Once the creation has given a pool no step faults, \<open>main\<close> never meets a full queue, each number is
  handed to at most one worker and printed as being worked on at most once, only after it was
  added, and once 40 tasks have been finished, every number from 0 to 39 was printed exactly once.\<close>

theorem pool_main_runs:
  assumes "malloc_ok e" "new_tid e = Suc" "reach (\<lambda>s. s = Creating) (fires (program_step e process)) s"
  shows "(program_step e process l s = Some (Inl f) \<longrightarrow>
      s = Creating \<and> threadpool_create e 0 10 100 100 = Inl f
      \<or> s = No_pool \<and> threadpool_create e 0 10 100 100 = Inr None \<and> l = Some Next_add \<and> f = Null_deref)
    \<and> (\<forall>u. s = Adding u \<longrightarrow>
         (\<exists>p. the_pool (psys_of u) = Some p \<and> queue_size p \<le> 40 \<and> queue_max_size p = 100 \<and> \<not> shutdown p)
       \<and> distinct (started u) \<and> set (started u) \<subseteq> {0..<next_num u} \<and> next_num u \<le> 40 \<and> ended_in u \<le> length (started u)
       \<and> (ended_in u = 40 \<longrightarrow> mset (started u) = mset [0..<40]))"
proof -
  have inv: "program_inv e process s" using assms(3) by (rule pool_program.inv_reach)
  have "s = Creating \<and> threadpool_create e 0 10 100 100 = Inl f
      \<or> s = No_pool \<and> threadpool_create e 0 10 100 100 = Inr None \<and> l = Some Next_add \<and> f = Null_deref"
    if st: "program_step e process l s = Some (Inl f)"
  proof (cases s)
    case Creating
    with st have "pool_main e = Inl f" by (cases l) auto
    with Creating show ?thesis by (cases "threadpool_create e 0 10 100 100") (auto simp: pool_main_def)
  next
    case No_pool
    with st inv assms(1,2) show ?thesis
      by (cases "(e, process, l, s)" rule: program_step.cases) (auto simp: program_inv_def)
  next
    case (Adding u)
    with st obtain k where "pool_main_step process k u = Some (Inl f)"
      by (cases l) (auto simp: in_system_Inl simp del: pool_main_step.simps)
    moreover have "main_inv process u" using inv assms(1,2) Adding by (simp add: program_inv_def)
    ultimately show ?thesis using main_no_fault by blast
  qed
  moreover have "main_inv process u" if "s = Adding u" for u
    using inv assms(1,2) that by (simp add: program_inv_def)
  ultimately show ?thesis using main_adding by blast
qed

text \<open>\<open>main\<close> adds two tasks and worker 1 begins the first.\<close>

definition main_schedule :: "prog_label option list" where
  "main_schedule = (let go = (\<lambda>t. Some (Pool (Step t None []))) in
     None # Some Next_add # replicate 4 (go 0) @ Some Next_add # replicate 4 (go 0) @ replicate 5 (go 1) @ [Some (Process_begin 1)])"

lemma main_begun_run:
  "\<exists>u. run (program_step sample_env 7) main_schedule Creating = Some (Adding u) \<and> started u = [0]"
proof -
  have c: "pool_main sample_env = Inr (Adding \<lparr>psys_of = start_state (demo_pool 10 100 100) 0, next_num = 0, in_process = [], plines = []\<rparr>)"
    by (simp add: pool_main_def demo_create)
  let ?u = "\<lparr>psys_of = start_state (demo_pool 10 100 100) 0, next_num = 0, in_process = [], plines = []\<rparr>"
  have r: "case run (program_step sample_env 7) (tl main_schedule) (Adding ?u) of
      Some (Adding u) \<Rightarrow> started u = [0] | _ \<Rightarrow> False"
    by code_simp
  have "main_schedule = None # tl main_schedule" by (simp add: main_schedule_def Let_def)
  then have "run (program_step sample_env 7) main_schedule Creating
      = run (program_step sample_env 7) (None # tl main_schedule) Creating" by simp
  also have "\<dots> = run (program_step sample_env 7) (tl main_schedule) (Adding ?u)" by (simp add: c)
  finally show ?thesis using r by (simp split: option.splits pmain.splits)
qed

theorem pool_main_runs_witness:
  "\<exists>u. run (program_step sample_env 7) main_schedule Creating = Some (Adding u) \<and> started u = [0] \<and> next_num u \<le> 40
     \<and> program_step sample_env 7 (Some (Process_end 1)) (Adding u) \<noteq> Some (Inl Use_after_free)"
proof -
  obtain u where u: "run (program_step sample_env 7) main_schedule Creating = Some (Adding u)" "started u = [0]"
    using main_begun_run by blast
  have "reach (\<lambda>s. s = Creating) (fires (program_step sample_env 7)) (Adding u)"
    by (rule run_reach [OF u(1)], rule reach_init) (rule refl)
  from pool_main_runs [OF sample_env_ok(1) _ this, of "Some (Process_end 1)" Use_after_free] u show ?thesis
    by (simp add: sample_env_def)
qed

end
