(* ===== verification/Shared_Mutex.thy ===== *)
theory Shared_Mutex
  imports Prelude
begin

text \<open>
  The whole of src/lock/mutexattr.cpp: the file that is mapped, the mutex and its attributes that are
  made in the mapping, the fork, the loops of the two processes (Shared_Counter has their additions read
  by read), and the two calls at the end that destroy the attributes and the mutex, which both
  processes run.
\<close>

section \<open>The mapping\<close>

text \<open>
  Attributes are used, or destroyed, only between their initialisation and their destruction. The mapping is
  where \<open>ml\<close> points to: \<open>Failed\<close> is the pointer that \<open>mmap\<close> returns when it fails, and a mapping of a file that
  was not extended has no page behind it. A mutex remembers (\<open>mut_shared\<close>) whether the attributes it was initialised
  with said that several processes may use it.
\<close>

datatype mutexattr = Attr_raw | Attr_ok bool | Attr_destroyed

fun mutexattr_destroy :: "mutexattr \<Rightarrow> mutexattr outcome" where
  "mutexattr_destroy (Attr_ok sh) = Inr Attr_destroyed"
| "mutexattr_destroy a = Inl Bad_mutex"

record my_lock =
  tickNum :: int
  mut :: mutex
  mut_shared :: bool
  mutAttr :: mutexattr

datatype mapping = Unmapped | Failed | No_page | Mapped my_lock

fun at_lock :: "mapping \<Rightarrow> my_lock outcome" where
  "at_lock (Mapped ml) = Inr ml"
| "at_lock No_page = Inl Out_of_bounds"
| "at_lock m = Inl Wild_pointer"

section \<open>Steps\<close>

text \<open>
  A program counter of either process; the loops count their rounds. An addition reads the number and then writes
  it, and the line that is printed reads it again: three steps that another process could come between. \<open>wait\<close> returns when the child has ended, or at
  once when there is none.
\<close>

datatype mpc =
    Open_file | Truncate | Map | Attr_init | Set_shared | Mutex_init | Fork_child
  | Lock nat | Load nat | Store nat int | Print nat | Unlock nat
  | Wait_child | Destroy_attr | Destroy_mutex | Returned | Exited

record msys =
  sized :: bool
  ml :: mapping
  mpcs :: "mpc list"
  tick_lines :: "(nat \<times> int) list"

text \<open>Process 0 is the parent. It adds 2 in each round and the child 1.\<close>

definition amount_of :: "nat \<Rightarrow> int" where
  "amount_of t = (if t = 0 then 2 else 1)"

text \<open>
  What process \<open>t\<close> does with the struct in the mapping; \<open>None\<close> when the mutex is held. The mutex takes from its
  attributes, which have to be initialised, whether it is shared; one that is not may be used only by the process that
  initialised it, the parent.
\<close>

fun lock_use :: "nat \<Rightarrow> mpc \<Rightarrow> my_lock \<Rightarrow> (mpc \<times> my_lock) outcome option" where
  "lock_use t Attr_init l = Some (Inr (Set_shared, l\<lparr>mutAttr := Attr_ok False\<rparr>))"
| "lock_use t Set_shared l =
     Some (case mutAttr l of
        Attr_ok sh \<Rightarrow> Inr (Mutex_init, l\<lparr>mutAttr := Attr_ok True\<rparr>)
      | _ \<Rightarrow> Inl Bad_mutex)"
| "lock_use t Mutex_init l =
     Some (case mutAttr l of
        Attr_ok sh \<Rightarrow> Inr (Fork_child, l\<lparr>mut := M_free, mut_shared := sh\<rparr>)
      | _ \<Rightarrow> Inl Bad_mutex)"
| "lock_use t (Lock i) l =
     (if i < 10
      then (if t \<noteq> 0 \<and> \<not> mut_shared l then Some (Inl Bad_mutex)
            else case mutex_lock t (mut l) of
              Inl Would_block \<Rightarrow> None
            | Inl f \<Rightarrow> Some (Inl f)
            | Inr m \<Rightarrow> Some (Inr (Load i, l\<lparr>mut := m\<rparr>)))
      else Some (Inr (if t = 0 then Wait_child else Destroy_attr, l)))"
| "lock_use t (Load i) l = Some (Inr (Store i (tickNum l), l))"
| "lock_use t (Store i v) l = Some (Inr (Print i, l\<lparr>tickNum := v + amount_of t\<rparr>))"
| "lock_use t (Print i) l = Some (Inr (Unlock i, l))"
| "lock_use t (Unlock i) l = Some (obind (mutex_unlock t (mut l)) (\<lambda>m. Inr (Lock (i + 1), l\<lparr>mut := m\<rparr>)))"
| "lock_use t Destroy_attr l =
     Some (obind (mutexattr_destroy (mutAttr l)) (\<lambda>a. Inr (Destroy_mutex, l\<lparr>mutAttr := a\<rparr>)))"
| "lock_use t Destroy_mutex l = Some (obind (mutex_destroy (mut l)) (\<lambda>m. Inr (Returned, l\<lparr>mut := m\<rparr>)))"
| "lock_use t c l = None"

text \<open>The calls that make the mapping, and the fork: the new counters, whether the file has its size, and the mapping.\<close>

fun set_up :: "bool \<Rightarrow> mpc \<Rightarrow> bool \<times> mapping \<Rightarrow> (mpc list \<times> bool \<times> mapping) option" where
  "set_up ok Open_file (z, m) = Some ([if ok then Truncate else Exited], z, m)"
| "set_up ok Truncate (z, m) = Some ([Map], ok, m)"
| "set_up ok Map (z, m) = Some ([Attr_init], z,
     if \<not> ok then Failed else if z then Mapped \<lparr>tickNum = 0, mut = M_raw, mut_shared = False, mutAttr = Attr_raw\<rparr> else No_page)"
| "set_up ok Fork_child (z, m) = Some (if ok then [Lock 0, Lock 0] else [Lock 0], z, m)"
| "set_up ok c zm = None"

text \<open>The label says which process moves and whether its call to the system succeeds; a round prints the number.\<close>

definition mutexattr_step :: "nat \<times> bool \<Rightarrow> msys \<Rightarrow> msys outcome option" where
  "mutexattr_step = (\<lambda>(t, ok) s.
     if t < length (mpcs s) then
       (let c = mpcs s ! t; goto = (\<lambda>c. (mpcs s)[t := c]) in
        case set_up ok c (sized s, ml s) of
          Some (cs, z, m) \<Rightarrow> Some (Inr (s\<lparr>mpcs := goto (hd cs) @ tl cs, sized := z, ml := m\<rparr>))
        | None \<Rightarrow>
            if c = Returned \<or> c = Exited then None
            else if c = Wait_child then
              (if length (mpcs s) = 1 \<or> mpcs s ! 1 = Returned then Some (Inr (s\<lparr>mpcs := goto Destroy_attr\<rparr>)) else None)
            else (case at_lock (ml s) of
              Inl f \<Rightarrow> Some (Inl f)
            | Inr l \<Rightarrow> map_option (\<lambda>r. obind r (\<lambda>(c', l'). Inr (s\<lparr>mpcs := goto c', ml := Mapped l',
                tick_lines := tick_lines s @ (case c of Print i \<Rightarrow> [(t, tickNum l')] | _ \<Rightarrow> [])\<rparr>))) (lock_use t c l)))
     else None)"

definition mutexattr_start :: msys where
  "mutexattr_start = \<lparr>sized = False, ml = Unmapped, mpcs = [Open_file], tick_lines = []\<rparr>"

section \<open>The invariant\<close>

text \<open>How often a process has added, and whether it holds the mutex.\<close>

fun rounds_of :: "mpc \<Rightarrow> nat" where
  "rounds_of (Lock i) = i" | "rounds_of (Load i) = i" | "rounds_of (Store i v) = i" | "rounds_of (Print i) = i + 1"
| "rounds_of (Unlock i) = i + 1"
| "rounds_of Wait_child = 10" | "rounds_of Destroy_attr = 10" | "rounds_of Destroy_mutex = 10"
| "rounds_of Returned = 10" | "rounds_of c = 0"

fun inside :: "mpc \<Rightarrow> bool" where
  "inside (Load i) = True" | "inside (Store i v) = True" | "inside (Print i) = True" | "inside (Unlock i) = True"
| "inside c = False"

text \<open>The number a process is about to add to.\<close>

fun read_ok :: "my_lock \<Rightarrow> mpc \<Rightarrow> bool" where
  "read_ok l (Store i v) = (v = tickNum l)" | "read_ok l c = True"

lemma read_ok_frame [simp]:
  "read_ok (l\<lparr>mut := m\<rparr>) c = read_ok l c" "read_ok (l\<lparr>mutAttr := a\<rparr>) c = read_ok l c"
  "\<not> inside c \<Longrightarrow> read_ok l c"
  by (cases c; simp)+

fun in_time :: "mpc \<Rightarrow> bool" where
  "in_time (Lock i) = (i \<le> 10)" | "in_time (Load i) = (i < 10)" | "in_time (Store i v) = (i < 10)"
| "in_time (Print i) = (i < 10)" | "in_time (Unlock i) = (i < 10)"
| "in_time c = True"

fun setting_up :: "mpc \<Rightarrow> bool" where
  "setting_up Open_file = True" | "setting_up Truncate = True" | "setting_up Map = True"
| "setting_up Attr_init = True" | "setting_up Set_shared = True" | "setting_up Mutex_init = True"
| "setting_up Fork_child = True" | "setting_up Exited = True" | "setting_up c = False"

text \<open>The parent before the fork, or without a child.\<close>

definition alone_ok :: "mpc \<Rightarrow> mapping \<Rightarrow> bool" where
  "alone_ok p m \<longleftrightarrow> in_time p \<and> p \<noteq> Exited \<longrightarrow>
     (case m of
        Mapped l \<Rightarrow>
          (setting_up p \<longrightarrow> tickNum l = 0)
          \<and> (p = Set_shared \<longrightarrow> mutAttr l = Attr_ok False) \<and> (p = Mutex_init \<longrightarrow> mutAttr l = Attr_ok True)
          \<and> (p = Fork_child \<or> \<not> setting_up p \<longrightarrow>
               mut_shared l \<and> read_ok l p
               \<and> mut l = (if inside p then M_held 0 else if p = Returned then M_destroyed else M_free)
               \<and> mutAttr l = (if p = Destroy_mutex \<or> p = Returned then Attr_destroyed else Attr_ok True)
               \<and> tickNum l = 2 * int (rounds_of p))
      | Unmapped \<Rightarrow> p \<in> {Open_file, Truncate, Map}
      | _ \<Rightarrow> p = Attr_init)"

definition both_ok :: "mpc \<Rightarrow> mpc \<Rightarrow> mapping \<Rightarrow> bool" where
  "both_ok p c m \<longleftrightarrow> (case m of
     Mapped l \<Rightarrow>
       (mut l = M_free \<or> mut l = M_held 0 \<or> mut l = M_held 1 \<or> mut l = M_destroyed)
       \<and> (inside p \<longleftrightarrow> mut l = M_held 0) \<and> (inside c \<longleftrightarrow> mut l = M_held 1)
       \<and> (mut l = M_destroyed \<longrightarrow> c = Returned)
       \<and> mutAttr l = (if c = Destroy_mutex \<or> c = Returned then Attr_destroyed else Attr_ok True)
       \<and> (p = Destroy_attr \<longrightarrow> c = Returned) \<and> p \<noteq> Destroy_mutex \<and> p \<noteq> Returned \<and> c \<noteq> Wait_child
       \<and> mut_shared l \<and> read_ok l p \<and> read_ok l c
       \<and> tickNum l = 2 * int (rounds_of p) + int (rounds_of c)
   | _ \<Rightarrow> False)"

definition mutexattr_inv :: "msys \<Rightarrow> bool" where
  "mutexattr_inv s \<longleftrightarrow> list_all in_time (mpcs s) \<and>
     ((\<exists>p. mpcs s = [p] \<and> alone_ok p (ml s)) \<or>
      (\<exists>p c. mpcs s = [p, c] \<and> \<not> setting_up p \<and> \<not> setting_up c \<and> both_ok p c (ml s)))"

text \<open>The three kinds of steps.\<close>

lemma mutexattr_stepE:
  assumes "mutexattr_step (t, ok) s = Some (Inr s')"
  obtains (sys) cs z m where "t < length (mpcs s)" "set_up ok (mpcs s ! t) (sized s, ml s) = Some (cs, z, m)"
      "s' = s\<lparr>mpcs := (mpcs s)[t := hd cs] @ tl cs, sized := z, ml := m\<rparr>"
  | (wait) "t < length (mpcs s)" "mpcs s ! t = Wait_child" "length (mpcs s) = 1 \<or> mpcs s ! 1 = Returned"
      "s' = s\<lparr>mpcs := (mpcs s)[t := Destroy_attr]\<rparr>"
  | (use) l c l' where "t < length (mpcs s)" "ml s = Mapped l" "lock_use t (mpcs s ! t) l = Some (Inr (c, l'))"
      "mpcs s' = (mpcs s)[t := c]" "ml s' = Mapped l'" "sized s' = sized s"
proof (cases "set_up ok (mpcs s ! t) (sized s, ml s)")
  case None
  with assms show thesis
    by (cases "ml s") (auto simp: mutexattr_step_def Let_def split: if_splits elim: use wait)
qed (use assms sys in \<open>auto simp: mutexattr_step_def Let_def split: if_splits\<close>)

lemma alone_moves:
  "alone_ok Open_file m \<Longrightarrow> alone_ok Truncate m" "alone_ok Open_file m \<Longrightarrow> alone_ok Exited m"
  "alone_ok Truncate m \<Longrightarrow> alone_ok Map m"
  "alone_ok Attr_init Failed" "alone_ok Attr_init No_page"
  "alone_ok Attr_init (Mapped \<lparr>tickNum = 0, mut = M_raw, mut_shared = False, mutAttr = Attr_raw\<rparr>)"
  by (cases m; simp add: alone_ok_def)+

lemma alone_forks:
  assumes "alone_ok Fork_child m"
  shows "alone_ok (Lock 0) m" "both_ok (Lock 0) (Lock 0) m"
  using assms by (cases m; simp add: alone_ok_def both_ok_def)+

lemma alone_set_up:
  assumes "alone_ok p m" "in_time p" "set_up ok p (z, m) = Some (cs, z', m')"
  shows "(\<exists>q. cs = [q] \<and> in_time q \<and> alone_ok q m') \<or>
    (cs = [Lock 0, Lock 0] \<and> both_ok (Lock 0) (Lock 0) m')"
  using assms(1,3) alone_moves alone_forks by (cases p; cases ok; cases z) auto

lemma alone_use:
  assumes "alone_ok p (Mapped l)" "in_time p" "lock_use 0 p l = Some (Inr (c, l'))"
  shows "in_time c \<and> alone_ok c (Mapped l')"
  using assms by (cases p) (auto simp: alone_ok_def amount_of_def split: if_splits)

lemma lock_use_loop:
  "lock_use t (Lock i) l = Some (Inr (c, l')) \<longleftrightarrow>
     (if i < 10 then (t = 0 \<or> mut_shared l) \<and> mut l = M_free \<and> c = Load i \<and> l' = l\<lparr>mut := M_held t\<rparr>
      else l' = l \<and> c = (if t = 0 then Wait_child else Destroy_attr))"
  "lock_use t (Unlock i) l = Some (Inr (c, l')) \<longleftrightarrow> mut l = M_held t \<and> c = Lock (i + 1) \<and> l' = l\<lparr>mut := M_free\<rparr>"
  by (cases "mut l"; auto)+

declare lock_use.simps(4,8) [simp del]

lemma both_use:
  assumes "both_ok p c (Mapped l)" "in_time p" "in_time c" "\<not> setting_up p" "\<not> setting_up c"
  shows "lock_use 0 p l = Some (Inr (q, l')) \<Longrightarrow> in_time q \<and> \<not> setting_up q \<and> both_ok q c (Mapped l')"
    and "lock_use 1 c l = Some (Inr (q, l')) \<Longrightarrow> in_time q \<and> \<not> setting_up q \<and> both_ok p q (Mapped l')"
  subgoal using assms by (cases p) (auto simp: both_ok_def amount_of_def lock_use_loop split: if_splits)
  subgoal using assms by (cases c) (auto simp: both_ok_def amount_of_def lock_use_loop split: if_splits)
  done

lemma both_no_set_up: "\<not> setting_up c \<Longrightarrow> set_up ok c zm = None"
  by (cases c; cases zm) auto

lemma both_wait: "both_ok Wait_child Returned m \<Longrightarrow> both_ok Destroy_attr Returned m"
  by (cases m) (auto simp: both_ok_def)

lemma mutexattr_inv_step:
  assumes inv: "mutexattr_inv s" and st: "mutexattr_step (t, ok) s = Some (Inr s')"
  shows "mutexattr_inv s'"
proof -
  consider (one) p where "mpcs s = [p]" "in_time p" "alone_ok p (ml s)"
    | (two) p c where "mpcs s = [p, c]" "in_time p" "in_time c" "\<not> setting_up p" "\<not> setting_up c" "both_ok p c (ml s)"
    using inv by (auto simp: mutexattr_inv_def)
  then show ?thesis
  proof cases
    case one
    from st show ?thesis
    proof (cases rule: mutexattr_stepE)
      case (sys cs z m)
      with one alone_set_up [OF one(3,2), of ok "sized s" cs z m] show ?thesis by (auto simp: mutexattr_inv_def)
    next
      case wait
      with one show ?thesis
        by (cases "ml s") (auto simp: mutexattr_inv_def alone_ok_def)
    next
      case (use l c l')
      with one alone_use [of p l c l'] show ?thesis by (auto simp: mutexattr_inv_def)
    qed
  next
    case two
    from st show ?thesis
    proof (cases rule: mutexattr_stepE)
      case (sys cs z m)
      with two both_no_set_up show ?thesis by (auto simp: less_Suc_eq numeral_2_eq_2)
    next
      case wait
      with two have "both_ok Destroy_attr c (ml s) \<and> t = 0 \<and> c = Returned"
        by (cases "ml s") (auto simp: less_Suc_eq numeral_2_eq_2 both_ok_def)
      with wait two show ?thesis by (auto simp: mutexattr_inv_def)
    next
      case (use l c' l')
      have "both_ok p c (Mapped l)" using two(6) use(2) by simp
      note both_use [OF this two(2-5)]
      with use two show ?thesis by (auto simp: mutexattr_inv_def less_Suc_eq numeral_2_eq_2)
    qed
  qed
qed

interpretation mutexattr_run: inductive_invariant "\<lambda>s. s = mutexattr_start" "fires mutexattr_step" mutexattr_inv
proof
  show "mutexattr_inv s" if "s = mutexattr_start" for s
    using that by (simp add: mutexattr_inv_def mutexattr_start_def alone_ok_def)
  show "mutexattr_inv s'" if "mutexattr_inv s" "fires mutexattr_step l s s'" for s l s'
    using that by (cases l) (auto simp: fires_def intro: mutexattr_inv_step)
qed

section \<open>How long it runs\<close>

fun rank :: "mpc \<Rightarrow> nat" where
  "rank Open_file = 115" | "rank Truncate = 114" | "rank Map = 113" | "rank Attr_init = 112" | "rank Set_shared = 111"
| "rank Mutex_init = 110" | "rank Fork_child = 109" | "rank (Lock i) = 5 * (10 - i) + 4" | "rank (Load i) = 5 * (10 - i) + 3"
| "rank (Store i v) = 5 * (10 - i) + 2" | "rank (Print i) = 5 * (10 - i) + 1" | "rank (Unlock i) = 5 * (10 - i)" | "rank Wait_child = 3" | "rank Destroy_attr = 2" | "rank Destroy_mutex = 1"
| "rank Returned = 0" | "rank Exited = 0"

lemma use_rank: "in_time c \<Longrightarrow> lock_use t c l = Some (Inr (c', l')) \<Longrightarrow> rank c' < rank c"
  by (cases c) (auto simp: lock_use_loop split: if_splits mutexattr.splits)

lemma set_up_rank: "set_up ok c zm = Some (cs, z, m) \<Longrightarrow> cs \<noteq> [] \<and> sum_list (map rank cs) < rank c"
  by (cases c; cases zm) (auto split: if_splits)

lemma sum_rank_update:
  "t < length cs \<Longrightarrow> sum_list (map rank (cs[t := c])) + rank (cs ! t) = sum_list (map rank cs) + rank c"
  by (induction cs arbitrary: t) (auto split: nat.split)

lemma mutexattr_rank:
  assumes "mutexattr_inv s" "mutexattr_step (t, ok) s = Some (Inr s')"
  shows "sum_list (map rank (mpcs s')) < sum_list (map rank (mpcs s))"
  using assms(2)
proof (cases rule: mutexattr_stepE)
  case (sys cs z m)
  with set_up_rank [OF sys(2)] sum_rank_update [OF sys(1), of "hd cs"] show ?thesis by (cases cs) auto
next
  case wait
  with sum_rank_update [OF wait(1), of Destroy_attr] show ?thesis by simp
next
  case (use l c l')
  have "in_time (mpcs s ! t)" using assms(1) use(1) by (simp add: mutexattr_inv_def list_all_length)
  with use_rank use(3) have "rank c < rank (mpcs s ! t)" by blast
  with use sum_rank_update [OF use(1), of c] show ?thesis by simp
qed

lemma mutexattr_run_bound:
  "run mutexattr_step ls s = Some s' \<Longrightarrow> mutexattr_inv s \<Longrightarrow>
     length ls + sum_list (map rank (mpcs s')) \<le> sum_list (map rank (mpcs s))"
proof (induction ls arbitrary: s)
  case (Cons l ls)
  then obtain u where u: "mutexattr_step l s = Some (Inr u)" "run mutexattr_step ls u = Some s'"
    by (auto split: option.splits sum.splits)
  obtain t ok where l: "l = (t, ok)" by (cases l)
  with mutexattr_inv_step [OF Cons.prems(2)] mutexattr_rank [OF Cons.prems(2)] u Cons.IH [OF u(2)] show ?case by fastforce
qed simp

text \<open>With a child, some process can always make a step.\<close>

lemma both_moves:
  assumes "mutexattr_inv s" "mpcs s = [p, c]"
  shows "\<exists>t. mutexattr_step (t, ok) s \<noteq> None"
proof -
  from assms obtain l where b: "both_ok p c (Mapped l)" "ml s = Mapped l" "\<not> setting_up p" "\<not> setting_up c"
    by (cases "ml s") (auto simp: mutexattr_inv_def both_ok_def)
  have go: "mutexattr_step (0, ok) s \<noteq> None" if "lock_use 0 p l \<noteq> None" "p \<noteq> Wait_child" "p \<noteq> Returned"
    using that assms(2) b both_no_set_up [OF b(3)] by (cases p) (auto simp: mutexattr_step_def Let_def)
  have go1: "mutexattr_step (1, ok) s \<noteq> None" if "lock_use 1 c l \<noteq> None" "c \<noteq> Wait_child" "c \<noteq> Returned"
    using that assms(2) b both_no_set_up [OF b(4)] by (cases c) (auto simp: mutexattr_step_def Let_def)
  have w: "mutexattr_step (0, ok) s \<noteq> None" if "p = Wait_child" "c = Returned"
    using that assms(2) b both_no_set_up [OF b(3)] by (auto simp: mutexattr_step_def Let_def)
  have blocked: "lock_use t q l = None \<longleftrightarrow> q = Wait_child \<or> q = Returned \<or> (\<exists>i<10. q = Lock i \<and> (\<exists>u. mut l = M_held u))"
    if "\<not> setting_up q" for t q
    using that b(1) unfolding both_ok_def by (cases q; cases "mut l") (auto simp: lock_use.simps(4,8))
  show ?thesis
  proof (cases "inside c")
    case True
    then have "lock_use 1 c l \<noteq> None" "c \<noteq> Wait_child" "c \<noteq> Returned" using blocked [OF b(4)] by (cases c; auto)+
    with go1 show ?thesis by blast
  next
    case out: False
    show ?thesis
    proof (cases "lock_use 0 p l = None")
      case False
      then have "p \<noteq> Wait_child" "p \<noteq> Returned" by auto
      with False go show ?thesis by blast
    next
      case True
      with blocked [OF b(3)] b(1) out have "p = Wait_child" by (auto simp: both_ok_def)
      moreover have "mut l \<noteq> M_held u" for u using b(1) out \<open>p = Wait_child\<close> by (auto simp: both_ok_def)
      ultimately show ?thesis using blocked [OF b(4), of 1] go1 w b(1) by (auto simp: both_ok_def)
    qed
  qed
qed

lemma mutex_op_faults:
  "mutex_lock t m = Inl f \<Longrightarrow> f = Bad_mutex \<or> f = Would_block" "mutex_unlock t m = Inl f \<Longrightarrow> f = Bad_mutex"
  "mutex_destroy m = Inl f \<Longrightarrow> f = Bad_mutex" "mutexattr_destroy a = Inl f \<Longrightarrow> f = Bad_mutex"
  by (cases m; auto split: if_splits)+ (cases a; auto)

lemma use_faults: "lock_use t c l = Some (Inl f) \<Longrightarrow> f = Bad_mutex"
  by (cases c) (auto simp: lock_use.simps(4,8) obind_Inl_iff dest: mutex_op_faults split: sum.splits fault.splits if_splits mutexattr.splits)

section \<open>Properties\<close>

text \<open>Where the steps after the fork can fault.\<close>

lemma both_faults:
  assumes "both_ok p c (Mapped l)" "\<not> setting_up p" "\<not> setting_up c"
  shows "lock_use 0 p l = Some (Inl f) \<Longrightarrow>
      (\<exists>i<10. p = Lock i) \<and> mut l = M_destroyed \<or> p = Destroy_attr \<and> mutAttr l = Attr_destroyed"
    and "lock_use 1 c l \<noteq> Some (Inl f)"
  subgoal using assms by (cases p; cases "mut l") (auto simp: both_ok_def lock_use.simps(4,8) split: if_splits)
  subgoal using assms by (cases c; cases "mut l") (auto simp: both_ok_def lock_use.simps(4,8) split: if_splits)
  done

text \<open>C26. mutexattr.cpp never ends well once it has forked: both processes destroy the attributes and the mutex. In every
  state with both processes some process can move, no run is longer than 115 steps, and the parent does not
  get past the destruction of the attributes; so every run ends in a fault. The child never faults, and the parent only
  by locking the mutex after the child has destroyed it or by destroying the attributes after the child has. Until
  then at most one process is between its lock and its unlock, so although an addition is a read and a later write none
  is lost: the number is twice the parent's additions plus the child's.\<close>

theorem mutexattr_always_faults:
  assumes "run mutexattr_step ls mutexattr_start = Some s" "length (mpcs s) = 2"
  shows "length ls \<le> 115 \<and> (\<exists>t. mutexattr_step (t, ok) s \<noteq> None)
    \<and> mpcs s ! 0 \<noteq> Destroy_mutex \<and> mpcs s ! 0 \<noteq> Returned
    \<and> \<not> (inside (mpcs s ! 0) \<and> inside (mpcs s ! 1))
    \<and> (\<exists>l. ml s = Mapped l \<and> tickNum l = 2 * int (rounds_of (mpcs s ! 0)) + int (rounds_of (mpcs s ! 1))
        \<and> (\<forall>t f. mutexattr_step (t, ok) s = Some (Inl f) \<longrightarrow> f = Bad_mutex \<and> t = 0 \<and>
             ((\<exists>i<10. mpcs s ! 0 = Lock i) \<and> mut l = M_destroyed
              \<or> mpcs s ! 0 = Destroy_attr \<and> mutAttr l = Attr_destroyed)))"
proof -
  have start: "mutexattr_inv mutexattr_start" by (simp add: mutexattr_inv_def mutexattr_start_def alone_ok_def)
  have inv: "mutexattr_inv s" by (rule mutexattr_run.inv_reach, rule run_reach [OF assms(1)]) (simp add: reach_init)
  with assms(2) obtain p c l where pc: "mpcs s = [p, c]" and b: "both_ok p c (Mapped l)" "ml s = Mapped l"
    and su: "\<not> setting_up p" "\<not> setting_up c"
    by (cases "ml s") (auto simp: mutexattr_inv_def both_ok_def)
  have "length ls \<le> 115"
    using mutexattr_run_bound [OF assms(1) start] by (simp add: mutexattr_start_def)
  moreover have "f = Bad_mutex \<and> t = 0 \<and>
      ((\<exists>i<10. p = Lock i) \<and> mut l = M_destroyed \<or> p = Destroy_attr \<and> mutAttr l = Attr_destroyed)"
    if st: "mutexattr_step (t, ok) s = Some (Inl f)" for t f
  proof -
    from st b have "t < length (mpcs s)" "lock_use t (mpcs s ! t) l = Some (Inl f)"
      by (auto simp: mutexattr_step_def Let_def obind_Inl_iff split: option.splits if_splits)
    moreover from this pc have "t = 0 \<or> t = 1" by auto
    ultimately show ?thesis using use_faults both_faults [OF b(1) su] pc by auto
  qed
  ultimately show ?thesis using both_moves [OF inv pc] b pc by (auto simp: both_ok_def)
qed

text \<open>The parent runs its loop, then the child all of its program; the parent is about to destroy the attributes again.\<close>

definition mutexattr_schedule :: "(nat \<times> bool) list" where
  "mutexattr_schedule = replicate 58 (0, True) @ replicate 53 (1, True) @ [(0, True)]"

lemma mutexattr_last:
  "\<exists>s. run mutexattr_step mutexattr_schedule mutexattr_start = Some s \<and> mpcs s = [Destroy_attr, Returned] \<and>
     mutexattr_step (0, True) s = Some (Inl Bad_mutex)"
proof -
  have "map_option (\<lambda>s. (mpcs s, mutexattr_step (0, True) s)) (run mutexattr_step mutexattr_schedule mutexattr_start) =
    Some ([Destroy_attr, Returned], Some (Inl Bad_mutex))"
    by code_simp
  then show ?thesis by auto
qed

theorem mutexattr_always_faults_witness:
  "\<exists>s l. run mutexattr_step mutexattr_schedule mutexattr_start = Some s \<and> ml s = Mapped l \<and> tickNum l = 30"
proof -
  obtain s where s: "run mutexattr_step mutexattr_schedule mutexattr_start = Some s" "mpcs s = [Destroy_attr, Returned]"
    using mutexattr_last by blast
  then have "length (mpcs s) = 2" by simp
  from mutexattr_always_faults [OF s(1) this, of True] s show ?thesis by (simp add: numeral_eq_Suc) blast
qed

text \<open>The child destroys the mutex that the parent has not locked yet. Without a child the program ends, with 20.\<close>

lemma mutex_used_destroyed:
  "\<exists>s. run mutexattr_step (replicate 7 (0, True) @ replicate 53 (1, True)) mutexattr_start = Some s \<and>
     mpcs s = [Lock 0, Returned] \<and> mutexattr_step (0, True) s = Some (Inl Bad_mutex)"
proof -
  have "map_option (\<lambda>s. (mpcs s, mutexattr_step (0, True) s))
      (run mutexattr_step (replicate 7 (0, True) @ replicate 53 (1, True)) mutexattr_start) =
    Some ([Lock 0, Returned], Some (Inl Bad_mutex))"
    by code_simp
  then show ?thesis by auto
qed

lemma mutexattr_alone_ends:
  assumes "reach (\<lambda>s. s = mutexattr_start) (fires mutexattr_step) s" "mpcs s = [Returned]"
  shows "\<exists>l. ml s = Mapped l \<and> tickNum l = 20 \<and> mut l = M_destroyed"
  using mutexattr_run.inv_reach [OF assms(1)] assms(2)
  by (cases "ml s") (auto simp: mutexattr_inv_def alone_ok_def)

end
