(* ===== verification/Edge_Server.thy ===== *)
theory Edge_Server
  imports Epoll_Demos
begin

text \<open>
  The whole of src/socket/epoll/non_block/server.cpp: one connection, made non-blocking, watched for edges
  (EPOLLET). An edge is reported once, when data or the end of the stream arrives, whether or not older data
  has been read. The read loop is that of Epoll_Demos, read by read.
\<close>

section \<open>States\<close>

text \<open>
  \<open>fd_slot\<close> is \<open>events[0].data.fd\<close>, which has no value before the first \<open>epoll_wait\<close> that returns an
  event. \<open>inbox\<close>, \<open>peer_done\<close> and \<open>edge\<close> belong to the kernel: what has arrived and is not read, whether the peer has
  closed, whether an edge has not been reported yet. \<open>arrived_all\<close> is ghost state.
\<close>

datatype edge_pc = Get_flags | Set_flags int | Add_conn | Await | Test_fd | Read_on

record edge_state =
  connfd :: int
  nonblocking :: bool
  registered :: bool
  fd_slot :: "int option"
  inbox :: "byte list"
  peer_done :: bool
  edge :: bool
  edge_out :: "byte list"
  arrived_all :: "byte list"
  edge_pc :: edge_pc

text \<open>
  What happens: bytes arrive, the peer closes, a stopped process is continued, which makes a waiting \<open>epoll_wait\<close>
  fail, or the program goes on; \<open>Go n\<close> carries the number of bytes a read delivers.
\<close>

datatype edge_label = Bytes "byte list" | Peer_close | Interrupted | Go nat

definition O_NONBLOCK :: int where "O_NONBLOCK = 2048"

unbundle bit_operations_syntax

text \<open>\<open>flags\<close> are the flags of a fresh connection.\<close>

fun edge_step :: "int \<Rightarrow> edge_label \<Rightarrow> edge_state \<Rightarrow> edge_state outcome option" where
  "edge_step flags (Bytes d) s =
     (if d = [] \<or> peer_done s then None
      else Some (Inr (s\<lparr>inbox := inbox s @ d, arrived_all := arrived_all s @ d, edge := registered s \<or> edge s\<rparr>)))"
| "edge_step flags Peer_close s =
     (if peer_done s then None else Some (Inr (s\<lparr>peer_done := True, edge := registered s \<or> edge s\<rparr>)))"
| "edge_step flags Interrupted s =
     (if edge_pc s = Await then Some (Inr (s\<lparr>edge_pc := Test_fd\<rparr>)) else None)"
| "edge_step flags (Go n) s =
     (case edge_pc s of
        Get_flags \<Rightarrow> Some (Inr (s\<lparr>edge_pc := Set_flags (flags OR O_NONBLOCK)\<rparr>))
      | Set_flags fl \<Rightarrow> Some (Inr (s\<lparr>nonblocking := fl AND O_NONBLOCK \<noteq> 0, edge_pc := Add_conn\<rparr>))
      | Add_conn \<Rightarrow> Some (Inr (s\<lparr>registered := True, edge := inbox s \<noteq> [] \<or> peer_done s, edge_pc := Await\<rparr>))
      | Await \<Rightarrow> if edge s then Some (Inr (s\<lparr>edge := False, fd_slot := Some (connfd s), edge_pc := Test_fd\<rparr>)) else None
      | Test_fd \<Rightarrow> Some (case fd_slot s of
            None \<Rightarrow> Inl Indeterminate
          | Some fd \<Rightarrow> Inr (s\<lparr>edge_pc := (if fd = connfd s then Read_on else Await)\<rparr>))
      | Read_on \<Rightarrow>
          if inbox s \<noteq> [] then
            (if 0 < n \<and> n \<le> MAXLEN div 2 \<and> n \<le> length (inbox s)
             then Some (Inr (s\<lparr>inbox := drop n (inbox s), edge_out := edge_out s @ take n (inbox s)\<rparr>)) else None)
          else if peer_done s \<or> nonblocking s then Some (Inr (s\<lparr>edge_pc := Await\<rparr>))
          else None)"

text \<open>A connection has been accepted; something may have arrived on it already.\<close>

definition edge_main :: "edge_state \<Rightarrow> bool" where
  "edge_main s \<longleftrightarrow> (\<exists>fd d c. 0 \<le> fd \<and> s = \<lparr>connfd = fd, nonblocking = False, registered = False, fd_slot = None, inbox = d,
     peer_done = c, edge = False, edge_out = [], arrived_all = d, edge_pc = Get_flags\<rparr>)"

section \<open>Nothing is lost and nothing is left\<close>

text \<open>Whether the program has still to look at the connection.\<close>

fun will_read :: "edge_state \<Rightarrow> bool" where
  "will_read s = (case edge_pc s of Await \<Rightarrow> edge s | Test_fd \<Rightarrow> edge s \<or> fd_slot s = Some (connfd s) | _ \<Rightarrow> True)"

definition edge_inv :: "edge_state \<Rightarrow> bool" where
  "edge_inv s \<longleftrightarrow> edge_out s @ inbox s = arrived_all s
     \<and> (inbox s \<noteq> [] \<longrightarrow> will_read s)
     \<and> (registered s \<longleftrightarrow> edge_pc s = Await \<or> edge_pc s = Test_fd \<or> edge_pc s = Read_on)
     \<and> (registered s \<longrightarrow> nonblocking s) \<and> (edge_pc s = Add_conn \<longrightarrow> nonblocking s)
     \<and> (\<forall>fl. edge_pc s = Set_flags fl \<longrightarrow> fl AND O_NONBLOCK \<noteq> 0)
     \<and> (case fd_slot s of None \<Rightarrow> edge_pc s \<noteq> Read_on | Some fd \<Rightarrow> fd = connfd s)"

lemma flag_set: "(fl OR O_NONBLOCK) AND O_NONBLOCK \<noteq> (0 :: int)"
proof -
  have "(fl OR O_NONBLOCK) AND O_NONBLOCK = O_NONBLOCK"
    by (rule bit_eqI) (auto simp: bit_and_iff bit_or_iff)
  then show ?thesis by (simp add: O_NONBLOCK_def)
qed

lemma edge_inv_step: "edge_inv s \<Longrightarrow> edge_step flags l s = Some (Inr s') \<Longrightarrow> edge_inv s'"
proof (cases l)
  case (Go n)
  assume i: "edge_inv s" and st: "edge_step flags l s = Some (Inr s')"
  show "edge_inv s'"
    using i st Go flag_set [of flags] by (cases "edge_pc s") (auto simp: edge_inv_def split: if_splits option.splits)
next
  case (Bytes d)
  assume i: "edge_inv s" and st: "edge_step flags l s = Some (Inr s')"
  show "edge_inv s'"
    using i st Bytes by (cases "edge_pc s") (auto simp: edge_inv_def split: if_splits option.splits)
next
  case Peer_close
  assume i: "edge_inv s" and st: "edge_step flags l s = Some (Inr s')"
  show "edge_inv s'"
    using i st Peer_close by (cases "edge_pc s") (auto simp: edge_inv_def split: if_splits option.splits)
next
  case Interrupted
  assume i: "edge_inv s" and st: "edge_step flags l s = Some (Inr s')"
  show "edge_inv s'"
    using i st Interrupted by (cases "edge_pc s") (auto simp: edge_inv_def split: if_splits option.splits)
qed

interpretation edge: inductive_invariant edge_main "fires (edge_step flags)" edge_inv for flags
proof
  show "edge_inv s" if "edge_main s" for s using that by (auto simp: edge_main_def edge_inv_def)
  show "edge_inv s'" if "edge_inv s" "fires (edge_step flags) l s s'" for s l s'
    using that by (auto simp: fires_def intro: edge_inv_step)
qed

text \<open>Left alone, the program stops: every step of its own brings this number down.\<close>

definition edge_left :: "edge_state \<Rightarrow> nat" where
  "edge_left s = length (inbox s) + (if edge s then 4 else 0) +
     (case edge_pc s of Get_flags \<Rightarrow> 7 | Set_flags fl \<Rightarrow> 6 | Add_conn \<Rightarrow> 5 | Await \<Rightarrow> 0 | Test_fd \<Rightarrow> 2 | Read_on \<Rightarrow> 1)"

lemma edge_left_step:
  "edge_step flags (Go n) s = Some (Inr s') \<Longrightarrow> edge_left s' < edge_left s \<and> arrived_all s' = arrived_all s"
  by (cases "edge_pc s") (auto simp: edge_left_def split: if_splits option.splits)

lemma edge_left_run:
  "run (edge_step flags) (map Go ns) s = Some s' \<Longrightarrow>
     length ns + edge_left s' \<le> edge_left s \<and> arrived_all s' = arrived_all s"
proof (induction ns arbitrary: s)
  case (Cons n ns)
  then obtain u where u: "edge_step flags (Go n) s = Some (Inr u)" "run (edge_step flags) (map Go ns) u = Some s'"
    by (auto simp del: edge_step.simps split: option.splits sum.splits)
  from edge_left_step [OF u(1)] Cons.IH [OF u(2)] show ?case by simp
qed simp

lemma edge_stops:
  assumes "edge_inv s" "\<forall>n. edge_step flags (Go n) s = None"
  shows "edge_pc s = Await \<and> \<not> edge s \<and> inbox s = []"
proof (cases "edge_pc s")
  case Read_on
  then have "registered s" "nonblocking s" using assms(1) by (auto simp: edge_inv_def)
  moreover from assms(2) have "edge_step flags (Go 1) s = None" ..
  ultimately show ?thesis using Read_on by (cases "inbox s") (auto simp: MAXLEN_def)
qed (use assms in \<open>auto simp: edge_inv_def split: if_splits\<close>)

text \<open>C27. The edge-triggered server loses nothing and leaves nothing unread: from any reachable state, left alone by its
  peer, it stops after at most eleven steps more than there are bytes unread, and when it waits for the next
  edge everything that has arrived has been written; the only fault there can be is the test of
  \<open>events[0]\<close> after a first \<open>epoll_wait\<close> that was interrupted.\<close>

theorem edge_server_complete:
  assumes "reach edge_main (fires (edge_step flags)) s" "run (edge_step flags) (map Go ns) s = Some s'"
  shows "edge_out s' @ inbox s' = arrived_all s \<and> length ns \<le> length (inbox s) + 11
    \<and> ((\<forall>n. edge_step flags (Go n) s' = None) \<longrightarrow> edge_pc s' = Await \<and> edge_out s' = arrived_all s)
    \<and> (\<forall>l f. edge_step flags l s' = Some (Inl f) \<longrightarrow> f = Indeterminate \<and> edge_pc s' = Test_fd \<and> fd_slot s' = None)"
proof -
  from edge_left_run [OF assms(2)] have r: "length ns \<le> edge_left s" "arrived_all s' = arrived_all s" by auto
  have i: "edge_inv s'" by (rule edge.inv_reach) (rule run_reach [OF assms(2,1)])
  then have out: "edge_out s' @ inbox s' = arrived_all s" using r(2) by (simp add: edge_inv_def)
  have "edge_left s \<le> length (inbox s) + 11"
    by (simp add: edge_left_def split: edge_pc.split)
  with r(1) have "length ns \<le> length (inbox s) + 11" by simp
  moreover have "edge_pc s' = Await \<and> edge_out s' = arrived_all s" if "\<forall>n. edge_step flags (Go n) s' = None"
    using edge_stops [OF i that] out by simp
  moreover have "f = Indeterminate \<and> edge_pc s' = Test_fd \<and> fd_slot s' = None" if "edge_step flags l s' = Some (Inl f)" for l f
    using that by (cases l; cases "edge_pc s'") (auto split: if_splits option.splits)
  ultimately show ?thesis using out by blast
qed

text \<open>Seven bytes have arrived before the connection is watched.\<close>

definition edge_begun :: edge_state where
  "edge_begun = \<lparr>connfd = 5, nonblocking = False, registered = False, fd_slot = None, inbox = [1, 2, 3, 4, 5, 6, 7],
     peer_done = False, edge = False, edge_out = [], arrived_all = [1, 2, 3, 4, 5, 6, 7], edge_pc = Get_flags\<rparr>"

theorem edge_server_complete_witness:
  "\<exists>s'. run (edge_step 2) (map Go [0, 0, 0, 0, 0, 5, 2, 0]) edge_begun = Some s' \<and> edge_out s' = [1, 2, 3, 4, 5, 6, 7]"
proof -
  have "edge_main edge_begun" by (auto simp: edge_main_def edge_begun_def)
  then have r: "reach edge_main (fires (edge_step 2)) edge_begun" by (rule reach_init)
  obtain s' where s': "run (edge_step 2) (map Go [0, 0, 0, 0, 0, 5, 2, 0]) edge_begun = Some s'" "edge_pc s' = Await" "\<not> edge s'"
    using flag_set [of 2] by (simp add: edge_begun_def MAXLEN_def)
  then have "\<forall>n. edge_step 2 (Go n) s' = None" by simp
  with edge_server_complete [OF r s'(1)] s'(1) show ?thesis by (auto simp: edge_begun_def)
qed

end
