(* ===== verification/C11_Test.thy ===== *)
theory C11_Test
  imports C11_Proofs
begin

text \<open>
  The program of src/socket/thread_Pool/C11/test.cpp: \<open>main\<close> makes a pool of four threads, starts \<open>foo\<close> eight times with
  \<open>std::async\<close>, prints the eight results, and leaves, which destroys the pool. The calls of \<open>enqueue\<close> are
  commented out, so the pool is never used.
\<close>

section \<open>The program\<close>

text \<open>
  \<open>std::async\<close> without a policy may start a thread or defer the call until its result is asked for, as it likes. A call
  of \<open>foo\<close> prints, sleeps, prints and returns 42.
\<close>

datatype fut = Deferred | Launched | Running | Ready int
datatype tline = Starting_foo | Finished_foo | Foo_returned int
datatype tpc = Spawn nat | Get nat | Leave | Main_ended
datatype tlabel = Main | Foo nat | Pool_thread nat

record test_sys =
  tpc :: tpc
  futs :: "fut list"
  tout :: "tline list"
  tpool :: cpool

text \<open>Thread 0 of the pool is the thread of \<open>main\<close>, which runs the destructor.\<close>

inductive test_step :: "tlabel \<Rightarrow> test_sys \<Rightarrow> test_sys \<Rightarrow> bool" where
  async: "tpc s = Spawn i \<Longrightarrow> i < 8 \<Longrightarrow> f = Deferred \<or> f = Launched \<Longrightarrow>
    test_step Main s (s\<lparr>tpc := Spawn (Suc i), futs := futs s @ [f]\<rparr>)"
| spawned: "tpc s = Spawn 8 \<Longrightarrow> test_step Main s (s\<lparr>tpc := Get 0\<rparr>)"
| foo_starts: "i < length (futs s) \<Longrightarrow> futs s ! i = Launched \<or> futs s ! i = Deferred \<and> tpc s = Get i \<Longrightarrow>
    test_step (Foo i) s (s\<lparr>futs := (futs s)[i := Running], tout := tout s @ [Starting_foo]\<rparr>)"
| foo_ends: "i < length (futs s) \<Longrightarrow> futs s ! i = Running \<Longrightarrow>
    test_step (Foo i) s (s\<lparr>futs := (futs s)[i := Ready 42], tout := tout s @ [Finished_foo]\<rparr>)"
| get: "tpc s = Get i \<Longrightarrow> i < length (futs s) \<Longrightarrow> futs s ! i = Ready v \<Longrightarrow>
    test_step Main s (s\<lparr>tpc := Get (Suc i), tout := tout s @ [Foo_returned v]\<rparr>)"
| got_all: "tpc s = Get (length (futs s)) \<Longrightarrow> test_step Main s (s\<lparr>tpc := Leave\<rparr>)"
| destructor: "tpc s = Leave \<Longrightarrow> c11_step 0 (tpool s) p \<Longrightarrow> destroying (threads_of p ! 0) \<Longrightarrow>
    test_step Main s (s\<lparr>tpool := p\<rparr>)"
| leave: "tpc s = Leave \<Longrightarrow> at (tpool s) 0 Dt_done \<Longrightarrow> test_step Main s (s\<lparr>tpc := Main_ended\<rparr>)"
| pool_thread: "t \<noteq> 0 \<Longrightarrow> c11_step t (tpool s) p \<Longrightarrow> test_step (Pool_thread t) s (s\<lparr>tpool := p\<rparr>)"

inductive_cases test_stepE: "test_step l s s'"

definition test_main :: "test_sys \<Rightarrow> bool" where
  "test_main s \<longleftrightarrow> s = \<lparr>tpc = Spawn 0, futs = [], tout = [], tpool = c11_start 1 4\<rparr>"

section \<open>The pool is never used\<close>

definition unused :: "cpool \<Rightarrow> bool" where
  "unused p \<longleftrightarrow> c11_reach p \<and> accepted p = [] \<and> workers p = [1, 2, 3, 4] \<and> length (threads_of p) = 5
     \<and> (threads_of p ! 0 = Client \<or> destroying (threads_of p ! 0))"

lemma unused_worker: "unused p \<Longrightarrow> t \<noteq> 0 \<Longrightarrow> t < length (threads_of p) \<Longrightarrow> is_worker (threads_of p ! t)"
  using c11_facts(6) [of p t] by (auto simp: unused_def)

lemma accept_only: "c11_step t p p' \<Longrightarrow> \<forall>k. \<not> at p t (Enq_test k) \<Longrightarrow> accepted p' = accepted p"
  by (auto elim!: c11_stepE simp: go_to_def)

lemma other_thread:
  "c11_step t p p' \<Longrightarrow> u \<noteq> t \<Longrightarrow> u < length (threads_of p) \<Longrightarrow> threads_of p ! u \<noteq> Wk_wait \<Longrightarrow>
     threads_of p' ! u = threads_of p ! u"
  by (auto elim!: c11_stepE simp: go_defs)

lemma step_thread: "c11_step t p p' \<Longrightarrow> t < length (threads_of p)"
  by (auto elim!: c11_stepE simp: at_def)

lemma unused_step:
  assumes u: "unused p" and st: "c11_step t p p'" and t: "t \<noteq> 0 \<or> destroying (threads_of p' ! 0)"
  shows "unused p' \<and> (t \<noteq> 0 \<longrightarrow> threads_of p' ! 0 = threads_of p ! 0)"
proof -
  have "\<not> at p t (Enq_test k)" for k
  proof (cases "t = 0")
    case True
    with u show ?thesis by (auto simp: unused_def at_def)
  next
    case False
    with unused_worker [OF u False] show ?thesis by (auto simp: unused_def at_def)
  qed
  with accept_only [OF st] u have "accepted p' = []" by (simp add: unused_def)
  moreover have "c11_reach p'" using u st by (auto simp: unused_def intro: reach_step)
  moreover have "threads_of p ! 0 \<noteq> Wk_wait" using u by (auto simp: unused_def)
  ultimately show ?thesis using u t step_frame(1,2) [OF st] other_thread [OF st, of 0] by (auto simp: unused_def)
qed

section \<open>The invariant\<close>

definition lines_of :: "tline \<Rightarrow> test_sys \<Rightarrow> nat" where
  "lines_of l s = length (filter (\<lambda>k. k = l) (tout s))"

fun begun :: "fut \<Rightarrow> bool" where
  "begun Running = True" | "begun (Ready v) = True" | "begun f = False"

fun is_ready :: "fut \<Rightarrow> bool" where
  "is_ready (Ready v) = True" | "is_ready f = False"

fun got :: "tpc \<Rightarrow> nat" where
  "got (Spawn i) = 0" | "got (Get i) = i" | "got c = 8"

fun spawn_ok :: "tpc \<Rightarrow> nat \<Rightarrow> bool" where
  "spawn_ok (Spawn i) n = (n = i \<and> n \<le> 8)" | "spawn_ok c n = (n = 8)"

definition test_inv :: "test_sys \<Rightarrow> bool" where
  "test_inv s \<longleftrightarrow> unused (tpool s)
     \<and> (tpc s = Main_ended \<longrightarrow> at (tpool s) 0 Dt_done) \<and> (tpc s \<noteq> Leave \<and> tpc s \<noteq> Main_ended \<longrightarrow> threads_of (tpool s) ! 0 = Client)
     \<and> spawn_ok (tpc s) (length (futs s))
     \<and> got (tpc s) \<le> 8 \<and> (\<forall>j<got (tpc s). is_ready (futs s ! j)) \<and> (\<forall>v. Ready v \<in> set (futs s) \<longrightarrow> v = 42)
     \<and> lines_of Starting_foo s = length (filter begun (futs s)) \<and> lines_of Finished_foo s = length (filter is_ready (futs s))
     \<and> (\<forall>v. lines_of (Foo_returned v) s = (if v = 42 then got (tpc s) else 0))"

lemma filter_change:
  "i < length xs \<Longrightarrow> length (filter P (xs[i := x])) + of_bool (P (xs ! i)) = length (filter P xs) + of_bool (P x)"
  using cnt_update [of i xs P x] by (auto simp: cnt_length)

lemma test_inv_step:
  assumes inv: "test_inv s" and st: "test_step l s s'"
  shows "test_inv s'"
  using st
proof cases
  case (foo_starts i)
  then have b: "\<not> begun (futs s ! i)" "\<not> is_ready (futs s ! i)" by auto
  with inv foo_starts filter_change [of i "futs s" begun Running] filter_change [of i "futs s" is_ready Running] show ?thesis
    by (auto simp: test_inv_def lines_of_def nth_list_update dest!: set_update_subset_insert [THEN subsetD])
next
  case (foo_ends i)
  with inv filter_change [of i "futs s" begun "Ready 42"] filter_change [of i "futs s" is_ready "Ready 42"] show ?thesis
    by (auto simp: test_inv_def lines_of_def nth_list_update dest!: set_update_subset_insert [THEN subsetD])
next
  case (get i v)
  then have "Ready v \<in> set (futs s)" by (metis nth_mem)
  with inv have "v = 42" by (auto simp: test_inv_def)
  with inv get show ?thesis by (auto simp: test_inv_def lines_of_def less_Suc_eq)
next
  case (destructor p)
  with inv unused_step [of "tpool s" 0 p] show ?thesis by (auto simp: test_inv_def lines_of_def)
next
  case (pool_thread t p)
  have "unused (tpool s)" using inv by (simp add: test_inv_def)
  with unused_step [of "tpool s" t p] pool_thread have u: "unused p" "threads_of p ! 0 = threads_of (tpool s) ! 0" by auto
  then have "at p 0 Dt_done = at (tpool s) 0 Dt_done" using \<open>unused (tpool s)\<close> by (simp add: at_def unused_def)
  with u inv pool_thread show ?thesis by (simp add: test_inv_def lines_of_def)
qed (use inv in \<open>auto simp: test_inv_def lines_of_def\<close>)

lemma test_inv_start: "test_main s \<Longrightarrow> test_inv s"
  using reach_init [of c11_init "c11_start 1 4" c11_step]
  by (auto simp: test_main_def test_inv_def unused_def lines_of_def c11_init_def) (auto simp: c11_start_def upt_rec)

interpretation test_prog: inductive_invariant test_main test_step test_inv
  by unfold_locales (auto intro: test_inv_start test_inv_step)

section \<open>It ends\<close>

text \<open>The thread that holds the lock of a pool nobody uses can always go on.\<close>

lemma unused_holder:
  assumes "unused p" "queue_mutex p = Some u"
  shows "\<exists>p'. c11_step u p p' \<and> (u = 0 \<longrightarrow> destroying (threads_of p' ! 0))"
proof -
  have r: "c11_reach p" using assms(1) by (simp add: unused_def)
  have u: "u < length (threads_of p)" using c11_facts(7) [OF r assms(2)] .
  then have at: "at p u (threads_of p ! u)" by (simp add: at_def)
  from c11_facts(4) [OF r at] assms(2) have "has_lock (threads_of p ! u)" by simp
  then show ?thesis
  proof (cases "threads_of p ! u")
    case Wk_test
    with assms(1) have "u \<noteq> 0" by (cases "u = 0") (auto simp: unused_def)
    moreover have "\<exists>p'. c11_step u p p'"
      using at Wk_test by (cases "tasks p"; cases "stop p") (auto intro: c11_step.intros)
    ultimately show ?thesis by blast
  next
    case (Enq_test k)
    with assms(1) unused_worker [OF assms(1) _ u] show ?thesis by (cases "u = 0") (auto simp: unused_def)
  next
    case Dt_set
    with at have "c11_step u p (go_to u Dt_notify (p\<lparr>queue_mutex := None, stop := True\<rparr>))"
      by (auto intro: c11_step.intros)
    with u show ?thesis by (auto simp: go_to_def nth_list_update)
  qed auto
qed

lemma destructor_moves:
  assumes "unused p" "\<not> at p 0 Dt_done"
  shows "\<exists>t p'. c11_step t p p' \<and> (t = 0 \<longrightarrow> destroying (threads_of p' ! 0))"
proof (cases "queue_mutex p")
  case (Some u)
  from unused_holder [OF assms(1) this] show ?thesis by blast
next
  case None
  have l: "0 < length (threads_of p)" using assms(1) by (simp add: unused_def)
  then have at: "at p 0 (threads_of p ! 0)" by (simp add: at_def)
  have dest: "destroying (threads_of (go_to 0 c x) ! 0)" if "threads_of x = cs" "cs \<noteq> []" "destroying c" for c cs x
    using that by (cases cs) (auto simp: go_to_def)
  consider "threads_of p ! 0 = Client" | "destroying (threads_of p ! 0)" using assms(1) by (auto simp: unused_def)
  then show ?thesis
  proof cases
    case 1
    have "\<not> list_ex destroying (threads_of p)"
    proof
      assume "list_ex destroying (threads_of p)"
      then obtain v where v: "v < length (threads_of p)" "destroying (threads_of p ! v)" by (auto simp: list_ex_length)
      with 1 have "v \<noteq> 0" by (cases v) auto
      from unused_worker [OF assms(1) this v(1)] v(2) show False by (cases "threads_of p ! v") auto
    qed
    with at 1 have "c11_step 0 p (go_to 0 Dt_lock p)" by (auto intro: c11_step.intros)
    with dest [of p "threads_of p"] l show ?thesis by fastforce
  next
    case 2
    show ?thesis
    proof (cases "threads_of p ! 0")
      case Dt_lock
      with at None have "c11_step 0 p (go_to 0 Dt_set (p\<lparr>queue_mutex := Some 0\<rparr>))" by (auto intro: c11_step.intros)
      with dest [of _ "threads_of p"] l show ?thesis by fastforce
    next
      case Dt_set
      with c11_facts(4) [of p, OF _ at] None assms(1) show ?thesis by (auto simp: unused_def)
    next
      case Dt_notify
      with at have "c11_step 0 p (go_to 0 (Dt_join 0) (p\<lparr>threads_of := wake_all (threads_of p)\<rparr>))"
        by (auto intro: c11_step.intros)
      moreover have "wake_all (threads_of p) \<noteq> []" using l by (simp add: wake_all_def)
      ultimately show ?thesis using dest [of _ "wake_all (threads_of p)"] by fastforce
    next
      case (Dt_join i)
      show ?thesis
      proof (cases "i < length (workers p)")
        case True
        from assms(1) have r: "c11_reach p" by (simp add: unused_def)
        have "0 \<notin> set (workers p)" using assms(1) by (simp add: unused_def)
        with True have w: "workers p ! i \<noteq> 0" by (metis nth_mem)
        from c11_join_progress [OF r _ True, of 0] at Dt_join True None
        have "at p (workers p ! i) Wk_end \<or> (\<exists>p'. c11_step (workers p ! i) p p')" by auto
        then show ?thesis
        proof
          assume "at p (workers p ! i) Wk_end"
          with at Dt_join True have "c11_step 0 p (go_to 0 (Dt_join (Suc i)) p)" by (auto intro: c11_step.intros)
          with dest [of p "threads_of p"] l show ?thesis by fastforce
        next
          assume "\<exists>p'. c11_step (workers p ! i) p p'"
          then obtain p' where "c11_step (workers p ! i) p p'" by blast
          with w show ?thesis by (intro exI [of _ "workers p ! i"] exI [of _ p']) simp
        qed
      next
        case False
        moreover have "place_ok p (Dt_join i)" using c11_facts(3) [of p, OF _ at] Dt_join assms(1) by (auto simp: unused_def)
        ultimately have "i = length (workers p)" by auto
        with at Dt_join have "c11_step 0 p (go_to 0 Dt_done p)" by (auto intro: c11_step.intros)
        with dest [of p "threads_of p"] l show ?thesis by fastforce
      qed
    qed (use 2 assms(2) at in auto)
  qed
qed

lemma test_moves:
  assumes "test_inv s" "tpc s \<noteq> Main_ended"
  shows "\<exists>l s'. test_step l s s'"
proof (cases "tpc s")
  case (Spawn i)
  with assms(1) have "i \<le> 8" by (simp add: test_inv_def)
  then show ?thesis using Spawn async [of s i Launched] spawned [of s] by (cases "i = 8") auto
next
  case (Get i)
  with assms(1) have len: "length (futs s) = 8" "i \<le> 8" by (auto simp: test_inv_def)
  show ?thesis
  proof (cases "i = 8")
    case True
    with Get len got_all [of s] show ?thesis by auto
  next
    case False
    with len have i: "i < length (futs s)" by simp
    show ?thesis
      using foo_starts [OF i] foo_ends [OF i] get [OF Get i] Get by (cases "futs s ! i") blast+
  qed
next
  case Leave
  show ?thesis
  proof (cases "at (tpool s) 0 Dt_done")
    case True
    with Leave leave show ?thesis by blast
  next
    case False
    from assms(1) have "unused (tpool s)" by (simp add: test_inv_def)
    from destructor_moves [OF this False] obtain t p' where
      "c11_step t (tpool s) p'" "t = 0 \<longrightarrow> destroying (threads_of p' ! 0)" by blast
    with Leave destructor [of s p'] pool_thread [of t s p'] show ?thesis by (cases "t = 0") auto
  qed
qed (use assms in simp)

text \<open>C32. The program around the C++11 pool, whatever \<open>std::async\<close> defers and whoever moves: the pool is given no task and
  runs none; each result printed is 42 and is printed after its call has finished; the program is never stuck;
  and when \<open>main\<close> has returned, \<open>foo\<close> has run eight times, eight results were printed, and the destructor has
  waited for all four threads of the pool.\<close>

theorem c11_test_outcome:
  assumes "reach test_main test_step s"
  shows "accepted (tpool s) = [] \<and> executed (tpool s) = []
    \<and> lines_of (Foo_returned 42) s \<le> lines_of Finished_foo s \<and> lines_of Finished_foo s \<le> lines_of Starting_foo s
    \<and> (\<forall>v. v \<noteq> 42 \<longrightarrow> lines_of (Foo_returned v) s = 0)
    \<and> (tpc s \<noteq> Main_ended \<longrightarrow> (\<exists>l s'. test_step l s s'))
    \<and> (tpc s = Main_ended \<longrightarrow> lines_of (Foo_returned 42) s = 8 \<and> lines_of Finished_foo s = 8 \<and> lines_of Starting_foo s = 8
         \<and> list_all (\<lambda>w. at (tpool s) w Wk_end) [1, 2, 3, 4])"
proof -
  have inv: "test_inv s" using assms by (rule test_prog.inv_reach)
  then have u: "unused (tpool s)" by (simp add: test_inv_def)
  then have r: "c11_reach (tpool s)" and a: "accepted (tpool s) = []" and w: "workers (tpool s) = [1, 2, 3, 4]"
    by (auto simp: unused_def)
  from c11_facts(1,2) [OF r] a have ex: "executed (tpool s) = []" by simp
  have rb: "length (filter is_ready fs) \<le> length (filter begun fs)" for fs
  proof (induction fs)
    case (Cons f fs)
    then show ?case by (cases f) auto
  qed simp
  have len: "spawn_ok (tpc s) (length (futs s))" and ready: "\<forall>j<got (tpc s). is_ready (futs s ! j)" using inv by (auto simp: test_inv_def)
  have "got (tpc s) \<le> length (futs s)" using inv by (cases "tpc s") (auto simp: test_inv_def)
  then have "list_all is_ready (take (got (tpc s)) (futs s))" using ready by (auto simp: list_all_length)
  then have "filter is_ready (take (got (tpc s)) (futs s)) = take (got (tpc s)) (futs s)" by (auto simp: list_all_iff intro!: filter_True)
  moreover have "length (filter is_ready (futs s))
      = length (filter is_ready (take (got (tpc s)) (futs s))) + length (filter is_ready (drop (got (tpc s)) (futs s)))"
    by (metis append_take_drop_id filter_append length_append)
  ultimately have g: "got (tpc s) \<le> length (filter is_ready (futs s))" using \<open>got (tpc s) \<le> length (futs s)\<close> by simp
  have end8: "length (filter is_ready (futs s)) = 8 \<and> length (filter begun (futs s)) = 8
      \<and> list_all (\<lambda>w. at (tpool s) w Wk_end) [1, 2, 3, 4]" if e: "tpc s = Main_ended"
  proof -
    have l8: "length (futs s) = 8" using len e by simp
    with g e length_filter_le [of is_ready "futs s"] length_filter_le [of begun "futs s"] rb [of "futs s"]
    have "length (filter is_ready (futs s)) = 8 \<and> length (filter begun (futs s)) = 8" by simp
    moreover have d: "at (tpool s) 0 Dt_done" using inv e by (simp add: test_inv_def)
    have pl: "j < 4 \<Longrightarrow> at (tpool s) ([1, 2, 3, 4] ! j) Wk_end" for j using c11_facts(3) [OF r d] w by simp
    have "list_all (\<lambda>w. at (tpool s) w Wk_end) [1, 2, 3, 4]"
      using pl [of 0] pl [of 1] pl [of 2] pl [of 3] by simp
    ultimately show ?thesis by blast
  qed
  have "lines_of Starting_foo s = length (filter begun (futs s))" "lines_of Finished_foo s = length (filter is_ready (futs s))"
    "lines_of (Foo_returned v) s = (if v = 42 then got (tpc s) else 0)" for v
    using inv by (auto simp: test_inv_def)
  with a ex g rb [of "futs s"] test_moves [OF inv] end8 show ?thesis by auto
qed

theorem c11_test_outcome_witness:
  "\<exists>s. reach test_main test_step s \<and> tout s = [Starting_foo, Finished_foo] \<and> accepted (tpool s) = [] \<and> (\<exists>l s'. test_step l s s')"
proof -
  let ?s = "\<lambda>c fs out. \<lparr>tpc = c, futs = fs, tout = out, tpool = c11_start 1 4\<rparr>"
  have "reach test_main test_step (?s (Spawn 0) [] [])" by (rule reach_init) (simp add: test_main_def)
  moreover have "test_step Main (?s (Spawn 0) [] []) (?s (Spawn 1) [Launched] [])"
    using async [of "?s (Spawn 0) [] []" 0 Launched] by simp
  ultimately have "reach test_main test_step (?s (Spawn 1) [Launched] [])" by (rule reach_step)
  moreover have "test_step (Foo 0) (?s (Spawn 1) [Launched] []) (?s (Spawn 1) [Running] [Starting_foo])"
    using foo_starts [of 0 "?s (Spawn 1) [Launched] []"] by simp
  ultimately have "reach test_main test_step (?s (Spawn 1) [Running] [Starting_foo])" by (rule reach_step)
  moreover have "test_step (Foo 0) (?s (Spawn 1) [Running] [Starting_foo]) (?s (Spawn 1) [Ready 42] [Starting_foo, Finished_foo])"
    using foo_ends [of 0 "?s (Spawn 1) [Running] [Starting_foo]"] by simp
  ultimately have r: "reach test_main test_step (?s (Spawn 1) [Ready 42] [Starting_foo, Finished_foo])" by (rule reach_step)
  from c11_test_outcome [OF r] r show ?thesis by fastforce
qed

end
