(* ===== verification/Listening.thy ===== *)
theory Listening
  imports Poll_Server
begin

text \<open>
  How the servers set up their listening sockets: \<open>createSocket\<close> and \<open>setnoblock\<close> of src/socket/poll/poll.cpp, which look at
  every result, the beginning of \<open>main\<close> in src/socket/epoll/CS_socket/server.cpp, which reports failures and goes on,
  and in src/socket/select/select.cpp, which looks at none.
\<close>

unbundle bit_operations_syntax

section \<open>Sockets before they are connected\<close>

text \<open>
  A socket has options, flags, a port once it is bound, and a backlog once it listens. The results of the calls, with
  \<open>errno\<close>, are inputs; a call that succeeds has its effect. Listening on a socket that is not bound makes
  the system choose a port, \<open>auto_port\<close>.
\<close>

record sock_state =
  reuse :: bool
  status_flags :: int
  port :: "nat option"
  backlog :: "int option"

record net_calls =
  r_socket :: int
  r_setsockopt :: int
  r_bind :: int
  r_listen :: int
  net_errno :: int
  auto_port :: nat

type_synonym net = "int \<Rightarrow> sock_state option"

definition call_ok :: "net_calls \<Rightarrow> bool" where
  "call_ok x \<longleftrightarrow> -1 \<le> r_socket x \<and> r_setsockopt x \<in> {-1, 0} \<and> r_bind x \<in> {-1, 0} \<and> r_listen x \<in> {-1, 0}"

definition fresh_sock :: sock_state where
  "fresh_sock = \<lparr>reuse = False, status_flags = 2, port = None, backlog = None\<rparr>"

definition on_sock :: "int \<Rightarrow> (sock_state \<Rightarrow> sock_state) \<Rightarrow> net \<Rightarrow> net" where
  "on_sock fd f k = k(fd := map_option f (k fd))"

definition do_socket :: "net_calls \<Rightarrow> net \<Rightarrow> net" where
  "do_socket x k = (if r_socket x = -1 then k else k(r_socket x \<mapsto> fresh_sock))"

definition do_setsockopt :: "net_calls \<Rightarrow> int \<Rightarrow> net \<Rightarrow> net" where
  "do_setsockopt x fd k = (if r_setsockopt x = 0 then on_sock fd (reuse_update (\<lambda>_. True)) k else k)"

definition do_bind :: "net_calls \<Rightarrow> int \<Rightarrow> nat \<Rightarrow> net \<Rightarrow> net" where
  "do_bind x fd p k = (if r_bind x = 0 then on_sock fd (port_update (\<lambda>_. Some p)) k else k)"

definition do_listen :: "net_calls \<Rightarrow> int \<Rightarrow> int \<Rightarrow> net \<Rightarrow> net" where
  "do_listen x fd n k =
     (if r_listen x = 0
      then on_sock fd (\<lambda>s. s\<lparr>backlog := Some n, port := Some (case port s of None \<Rightarrow> auto_port x | Some p \<Rightarrow> p)\<rparr>) k else k)"

lemmas net_defs = do_socket_def do_setsockopt_def do_bind_def do_listen_def on_sock_def fresh_sock_def

section \<open>createSocket and setnoblock\<close>

text \<open>A line on the standard error: the call and \<open>errno\<close>. The result is the exit code or the descriptor.\<close>

datatype net_line = Net_error string int | Net_says string

definition createSocket :: "net_calls \<Rightarrow> net \<Rightarrow> net_line list \<times> (int + int) \<times> net" where
  "createSocket x k =
     (let listenfd = r_socket x; k1 = do_socket x k; err = (\<lambda>call. [Net_error call (net_errno x)]) in
      if -1 = listenfd then (err ''socket'', Inl 1, k1)
      else let k2 = do_setsockopt x listenfd k1 in
      if -1 = r_setsockopt x then (err ''setsockopt'', Inl 1, k2)
      else let k3 = do_bind x listenfd 8000 k2 in
      if -1 = r_bind x then (err ''bind'', Inl 1, k3)
      else let k4 = do_listen x listenfd 5 k3 in
      if -1 = r_listen x then (err ''listen'', Inl 1, k4)
      else ([], Inr listenfd, k4))"

text \<open>\<open>fcntl\<close> fails on a descriptor that is not open, and its result -1 is used as flags.\<close>

definition setnoblock :: "int \<Rightarrow> net \<Rightarrow> int \<times> net" where
  "setnoblock fd k =
     (let oldopt = (case k fd of None \<Rightarrow> -1 | Some s \<Rightarrow> status_flags s);
          newopt = oldopt OR 2048 in
      (oldopt, on_sock fd (status_flags_update (\<lambda>_. newopt)) k))"

text \<open>The set-up of the poll server: what \<open>main\<close> does before its loop.\<close>

definition poll_setup :: "net_calls \<Rightarrow> net \<Rightarrow> pollfd list \<Rightarrow> net_line list \<times> (int + pollsrv) \<times> net" where
  "poll_setup x k raw =
     (case createSocket x k of
        (out, Inl c, k') \<Rightarrow> (out, Inl c, k')
      | (out, Inr fd, k') \<Rightarrow> (out, Inr (poll_start fd raw), k'))"

section \<open>The other servers\<close>

definition cs_setup :: "net_calls \<Rightarrow> net \<Rightarrow> net_line list \<times> int \<times> net" where
  "cs_setup x k =
     (let listenfd = r_socket x; k = do_socket x k;
          k = do_setsockopt x listenfd k;
          out = (if r_setsockopt x = 0 then [Net_says ''reuse set''] else []);
          k = do_bind x listenfd 8000 k;
          out = out @ (if r_bind x < 0 then [Net_says ''bind err'', Net_error ''>'' (net_errno x)] else []);
          k = do_listen x listenfd 10 k;
          out = out @ (if r_listen x < 0 then [Net_says ''listren err''] else []) in
      (out, listenfd, k))"

text \<open>select.cpp gives \<open>bind\<close> a length from a variable that has no value (\<open>None\<close>) unless something has set it.\<close>

definition select_setup :: "nat option \<Rightarrow> net_calls \<Rightarrow> net \<Rightarrow> (int \<times> net) outcome" where
  "select_setup client_addr_len x k =
     (let listenfd = r_socket x; k = do_setsockopt x listenfd (do_socket x k) in
      case client_addr_len of
        None \<Rightarrow> Inl Indeterminate
      | Some n \<Rightarrow> Inr (listenfd, do_listen x listenfd 10 (if n = 16 then do_bind x listenfd 8000 k else k)))"

section \<open>What the set-ups guarantee\<close>

lemma createSocket_fails:
  "r_socket x = -1 \<or> r_setsockopt x = -1 \<or> r_bind x = -1 \<or> r_listen x = -1 \<Longrightarrow>
     \<exists>call k'. createSocket x k = ([Net_error call (net_errno x)], Inl 1, k')"
  by (auto simp: createSocket_def Let_def)

text \<open>C34. The poll server starts its loop only with a socket that listens on port 8000: if one of the four calls fails, the
  program ends with code 1 after a line about that call; otherwise the first struct of the array has
  a descriptor that is open, was allowed to reuse the address, is bound to 8000 and listens with
  a backlog of 5, and no other socket has changed.\<close>

theorem poll_setup_listens:
  assumes "call_ok x"
  shows "case poll_setup x k raw of
      (out, Inl c, k') \<Rightarrow> c = 1 \<and> (\<exists>call. out = [Net_error call (net_errno x)])
        \<and> (r_socket x = -1 \<or> r_setsockopt x = -1 \<or> r_bind x = -1 \<or> r_listen x = -1)
    | (out, Inr s, k') \<Rightarrow> out = [] \<and> (raw \<noteq> [] \<longrightarrow> pfd (fds s ! 0) = listenfd s) \<and> 0 \<le> listenfd s \<and> conncount s = 0
        \<and> k' = k(listenfd s \<mapsto> \<lparr>reuse = True, status_flags = 2, port = Some 8000, backlog = Some 5\<rparr>)"
proof (cases "r_socket x = -1 \<or> r_setsockopt x = -1 \<or> r_bind x = -1 \<or> r_listen x = -1")
  case True
  from createSocket_fails [OF this, of k] obtain call k' where "createSocket x k = ([Net_error call (net_errno x)], Inl 1, k')" by blast
  with True show ?thesis by (simp add: poll_setup_def)
next
  case False
  with assms have "0 \<le> r_socket x" "r_setsockopt x = 0" "r_bind x = 0" "r_listen x = 0" by (auto simp: call_ok_def)
  then show ?thesis by (simp add: poll_setup_def createSocket_def Let_def net_defs poll_start_def)
qed

theorem poll_setup_listens_witness:
  "\<exists>s k'. poll_setup \<lparr>r_socket = 3, r_setsockopt = 0, r_bind = 0, r_listen = 0, net_errno = 0, auto_port = 9\<rparr> (\<lambda>_. None) [] = ([], Inr s, k')
     \<and> listenfd s = 3"
proof -
  let ?x = "\<lparr>r_socket = 3, r_setsockopt = 0, r_bind = 0, r_listen = 0, net_errno = 0, auto_port = 9\<rparr>"
  obtain k' where "createSocket ?x (\<lambda>_. None) = ([], Inr 3, k')" by (simp add: createSocket_def Let_def)
  then have "poll_setup ?x (\<lambda>_. None) [] = ([], Inr (poll_start 3 []), k')" by (simp add: poll_setup_def)
  moreover have "listenfd (poll_start 3 []) = 3" by (simp add: poll_start_def)
  ultimately obtain s where s: "poll_setup ?x (\<lambda>_. None) [] = ([], Inr s, k')" "listenfd s = 3" by blast
  have "call_ok ?x" by (simp add: call_ok_def)
  from poll_setup_listens [OF this, where k = "\<lambda>_. None" and raw = "[]"] s show ?thesis by auto
qed

text \<open>When the port is taken the epoll server says so and listens all the same, on a port of the system's choice.\<close>

lemma cs_listens_elsewhere:
  assumes "0 \<le> r_socket x" "r_setsockopt x = 0" "r_bind x = -1" "r_listen x = 0"
  shows "\<exists>out k' s. cs_setup x k = (out, r_socket x, k') \<and> k' (r_socket x) = Some s \<and> port s = Some (auto_port x) \<and> backlog s = Some 10
    \<and> Net_says ''bind err'' \<in> set out"
  using assms by (simp add: cs_setup_def Let_def net_defs)

lemma cs_listens:
  assumes "0 \<le> r_socket x" "r_bind x = 0" "r_listen x = 0"
  shows "\<exists>out k' s. cs_setup x k = (out, r_socket x, k') \<and> k' (r_socket x) = Some s \<and> port s = Some 8000"
  using assms by (cases "r_setsockopt x = 0") (simp_all add: cs_setup_def Let_def net_defs)

lemma select_setup_undefined: "select_setup None x k = Inl Indeterminate"
  by (simp add: select_setup_def Let_def)

lemma setnoblock_sets:
  assumes "k fd = Some s"
  shows "\<exists>s'. snd (setnoblock fd k) fd = Some s' \<and> status_flags s' = status_flags s OR 2048 \<and> fst (setnoblock fd k) = status_flags s"
  using assms by (simp add: setnoblock_def Let_def on_sock_def)

end
