(* ===== verification/Clients.thy ===== *)
theory Clients
  imports Select_Server
begin

text \<open>
  The clients src/socket/select/select_client.cpp and src/socket/epoll/CS_socket/client.cpp, which are alike but for the address: connect,
  send a buffer of 200 bytes that begins with a line, print it, receive into the same buffer and print that as a C
  string. Then what such a client shows when the server of Select_Server answers it.
\<close>

section \<open>The client\<close>

definition ascii_codes :: "string \<Rightarrow> byte list" where
  "ascii_codes = map (\<lambda>c. word_of_nat (of_char c))"

text \<open>The results of \<open>socket\<close>, \<open>connect\<close>, \<open>send\<close> and \<open>recv\<close>, with the bytes that \<open>recv\<close> delivers.\<close>

record client_calls =
  c_socket :: int
  r_connect :: int
  r_send :: int
  r_recv :: int
  recv_data :: "byte list"

text \<open>
  \<open>send\<close>, by the state of the socket it is called on: without a socket it fails (\<open>EBADF\<close>); on one that is not connected
  it raises SIGPIPE; on a connected one it returns how many bytes it took, or fails.
\<close>

datatype sock_state = No_socket | Unconnected | Connected

datatype send_end = Sent_bytes "byte list" | Send_fails | Raises_sigpipe

definition socket_state :: "client_calls \<Rightarrow> sock_state" where
  "socket_state x = (if c_socket x = -1 then No_socket else if r_connect x = 0 then Connected else Unconnected)"

fun sys_send :: "sock_state \<Rightarrow> int \<Rightarrow> byte list \<Rightarrow> send_end" where
  "sys_send No_socket r b = Send_fails"
| "sys_send Unconnected r b = Raises_sigpipe"
| "sys_send Connected r b = (if r < 0 then Send_fails else Sent_bytes (take (nat r) b))"

text \<open>
  What the client does: it sends, writes raw bytes, prints \<open>err\<close> or a string. SIGPIPE, which it does not handle, ends
  it. \<open>%s\<close> needs a zero in the buffer.
\<close>

datatype client_act = Connect_to string nat | Says_err | Sends "byte list" | Writes "byte list" | Prints "byte list"
datatype client_end = Killed_by_pipe | Returned_0

definition greeting :: "byte list" where
  "greeting = ascii_codes ''localtime'' @ [10]"

definition sendbuf0 :: "byte list" where
  "sendbuf0 = greeting @ replicate (200 - length greeting) 0"

definition print_string :: "byte list \<Rightarrow> byte list outcome" where
  "print_string b = (if 0 \<in> set b then Inr (takeWhile (\<lambda>c. c \<noteq> 0) b) else Inl Out_of_bounds)"

definition client_at :: "string \<Rightarrow> client_calls \<Rightarrow> (client_act list \<times> client_end) outcome" where
  "client_at addr x =
     (let acts = [Connect_to addr 8000] @ (if r_connect x \<noteq> 0 then [Says_err] else []);
          sendbuf = sendbuf0;
          res = sys_send (socket_state x) (r_send x) sendbuf in
      if res = Raises_sigpipe then Inr (acts, Killed_by_pipe)
      else
        let acts = acts @ (case res of Sent_bytes b \<Rightarrow> [Sends b] | _ \<Rightarrow> []) @ [Writes sendbuf];
            sendbuf = (if 0 < r_recv x then recv_data x @ drop (nat (r_recv x)) sendbuf else sendbuf) in
        obind (print_string sendbuf) (\<lambda>t. Inr (acts @ [Prints t], Returned_0)))"

definition select_client :: "client_calls \<Rightarrow> (client_act list \<times> client_end) outcome" where
  "select_client x = client_at ''172.16.5.4'' x"

definition epoll_client :: "client_calls \<Rightarrow> (client_act list \<times> client_end) outcome" where
  "epoll_client x = client_at ''172.17.0.1'' x"

section \<open>A client and the select server\<close>

text \<open>The last thing the server has sent on a connection.\<close>

definition answer :: "int \<Rightarrow> selsrv \<Rightarrow> byte list" where
  "answer i s = (case rev (filter (\<lambda>p. fst p = i) (s_sent s)) of [] \<Rightarrow> [] | p # ps \<Rightarrow> snd p)"

text \<open>
  The first read of the server gets the first \<open>n\<close> bytes of what the client sent, and the client receives the
  first \<open>m\<close> bytes of the answer.
\<close>

definition exchange :: "int \<Rightarrow> nat \<Rightarrow> nat \<Rightarrow> selsrv \<Rightarrow> (client_act list \<times> client_end) outcome \<times> selsrv" where
  "exchange i n m s =
     (let s' = snd (read_client i (int n) (take n sendbuf0) s) in
      (select_client \<lparr>c_socket = 3, r_connect = 0, r_send = 200, r_recv = int m, recv_data = take m (answer i s')\<rparr>, s'))"

lemma greeting_eq: "greeting = [108, 111, 99, 97, 108, 116, 105, 109, 101, 10]"
  by (simp add: greeting_def ascii_codes_def)

lemma greeting_facts: "length greeting = 10" "0 \<notin> set greeting" "0 \<notin> set (map toupper greeting)"
  by (simp_all add: greeting_eq toupper_def)

lemma greeting_parts: "0 \<notin> set (map toupper (take m greeting) @ drop m greeting)"
proof -
  have "set (map toupper (take m greeting)) \<subseteq> set (map toupper greeting)" "set (drop m greeting) \<subseteq> set greeting"
    using set_take_subset [of m greeting] set_drop_subset [of m greeting] by auto
  with greeting_facts(2,3) show ?thesis by (metis UnE set_append subsetD)
qed

lemma sendbuf0_split: "sendbuf0 = greeting @ 0 # replicate 189 0"
proof -
  have "replicate 190 (0 :: byte) = 0 # replicate 189 0" using replicate_Suc [of 189 "0 :: byte"] by simp
  then show ?thesis by (simp only: sendbuf0_def greeting_facts) simp
qed

lemma sendbuf0_len: "length sendbuf0 = 200"
  by (simp add: sendbuf0_split greeting_facts)

lemma print_split: "0 \<notin> set xs \<Longrightarrow> print_string (xs @ 0 # ys) = Inr xs"
  by (induction xs) (auto simp: print_string_def)

lemma take_past: "length g = 10 \<Longrightarrow> take (11 + j) (g @ a # r) = g @ a # take j r"
  by simp

lemma take_map_past: "length g = 10 \<Longrightarrow> take (11 + j) (map f g @ a # r) = map f g @ a # take j r"
  by simp

text \<open>The buffer that the client prints, cut at its first zero.\<close>

lemma client_buffer:
  assumes "n \<le> 200" "m \<le> 200" "11 \<le> n \<or> m \<le> n"
  shows "\<exists>ys. take m (map toupper (take n sendbuf0) @ r) @ drop m sendbuf0
    = (map toupper (take m greeting) @ drop m greeting) @ 0 # ys"
proof (cases "m \<le> 10")
  case True
  from assms(3) True have mn: "m \<le> n" by linarith
  have "take m (map toupper (take n sendbuf0) @ r) = map toupper (take m sendbuf0)"
    using mn assms(1) by (simp add: take_map min_def sendbuf0_len)
  moreover have "take m sendbuf0 = take m greeting" "drop m sendbuf0 = drop m greeting @ 0 # replicate 189 0"
    using True by (simp_all add: sendbuf0_split greeting_facts)
  ultimately show ?thesis by simp
next
  case False
  with assms(3) have n: "11 \<le> n" by linarith
  have t0: "toupper 0 = 0" by (simp add: toupper_def)
  obtain k where k: "n = 11 + k" using n le_Suc_ex by blast
  obtain j where j: "m = 11 + j" using False le_Suc_ex [of 11 m] by auto
  have "map toupper (take n sendbuf0) @ r = map toupper greeting @ 0 # (map toupper (take k (replicate 189 0)) @ r)"
    unfolding k sendbuf0_split take_past [OF greeting_facts(1)] using t0 by simp
  then have "take m (map toupper (take n sendbuf0) @ r)
      = map toupper greeting @ 0 # take j (map toupper (take k (replicate 189 0)) @ r)"
    unfolding j by (simp only: take_map_past [OF greeting_facts(1)])
  moreover have "take m greeting = greeting" "drop m greeting = []" using False greeting_facts(1) by simp_all
  ultimately show ?thesis by simp
qed

lemma answer_after_read:
  assumes "0 < n" "n \<le> 200"
  shows "answer i (snd (read_client i (int n) (take n sendbuf0) s)) = map toupper (take n sendbuf0) @ drop n (recvBuf s)"
  using assms by (simp add: answer_def read_client_def Let_def)

lemma print_append: "0 \<notin> set xs \<Longrightarrow> print_string (xs @ ys) = map_sum id (append xs) (print_string ys)"
  by (induction xs) (auto simp: print_string_def)

lemma exchange_prints:
  assumes "0 < n" "n \<le> 200" "m \<le> 200"
  shows "fst (exchange i n m s) = map_sum id (\<lambda>t. ([Connect_to ''172.16.5.4'' 8000, Sends sendbuf0, Writes sendbuf0, Prints t], Returned_0))
    (print_string (take m (map toupper (take n sendbuf0) @ drop n (recvBuf s)) @ drop m sendbuf0))"
proof -
  have "(if 0 < m then take m b @ drop m sendbuf0 else sendbuf0) = take m b @ drop m sendbuf0" for b :: "byte list"
    by simp
  moreover have "take 200 sendbuf0 = sendbuf0" by (simp add: sendbuf0_len)
  moreover have "obind m (\<lambda>x. Inr (f x)) = map_sum id f m" for m and f :: "byte list \<Rightarrow> client_act list \<times> client_end"
    by (cases m) simp_all
  ultimately show ?thesis
    by (simp add: exchange_def select_client_def client_at_def socket_state_def Let_def
        answer_after_read [OF assms(1,2)] del: take_append drop_append)
qed

text \<open>What is printed when the first read did not get the zero behind the line and less was read than is received.\<close>

lemma stale_prints:
  assumes "n \<le> 10" "n < m" "m \<le> 200" "length b = 1024"
  shows "print_string (take m (map toupper (take n sendbuf0) @ drop n b) @ drop m sendbuf0) =
    (let stale = take (m - n) (drop n b) in
     if 0 \<in> set stale then Inr (map toupper (take n greeting) @ takeWhile (\<lambda>c. c \<noteq> 0) stale)
     else if m < 200 then Inr (map toupper (take n greeting) @ stale @ drop m greeting)
     else Inl Out_of_bounds)"
proof -
  let ?st = "take (m - n) (drop n b)"
  have tn: "take n sendbuf0 = take n greeting" using assms(1) by (simp add: sendbuf0_split greeting_facts)
  have u: "0 \<notin> set (map toupper (take n greeting))"
    using greeting_facts(3) set_take_subset [of n "map toupper greeting"] by (auto simp: take_map)
  have "take m (map toupper (take n sendbuf0) @ drop n b) = map toupper (take n greeting) @ ?st"
    using assms by (simp add: tn greeting_facts min_def)
  then have e: "print_string (take m (map toupper (take n sendbuf0) @ drop n b) @ drop m sendbuf0)
      = map_sum id (append (map toupper (take n greeting))) (print_string (?st @ drop m sendbuf0))"
    using print_append [OF u] by simp
  show ?thesis
  proof (cases "0 \<in> set ?st")
    case True
    then have "print_string (?st @ drop m sendbuf0) = Inr (takeWhile (\<lambda>c. c \<noteq> 0) ?st)"
      by (simp add: print_string_def)
    with True e show ?thesis by simp
  next
    case False
    have g: "0 \<notin> set (drop m greeting)" using greeting_facts(2) set_drop_subset [of m greeting] by blast
    show ?thesis
    proof (cases "m < 200")
      case True
      then obtain k where "drop m sendbuf0 = drop m greeting @ 0 # replicate k 0"
      proof (cases "m \<le> 10")
        case True
        then show ?thesis using that by (simp add: sendbuf0_split greeting_facts)
      next
        case f: False
        with True have "drop m sendbuf0 = replicate (Suc (199 - m)) 0"
          by (simp add: sendbuf0_def greeting_facts Suc_diff_le del: replicate_Suc)
        with f that [of "199 - m"] show ?thesis by (simp add: greeting_facts)
      qed
      with print_split [OF g] have "print_string (drop m sendbuf0) = Inr (drop m greeting)" by simp
      with False True e print_append [OF False, of "drop m sendbuf0"] show ?thesis by simp
    next
      case f: False
      then have "drop m sendbuf0 = []" by (simp add: sendbuf0_len)
      then have "print_string (?st @ drop m sendbuf0) = Inl Out_of_bounds" using False by (simp add: print_string_def)
      with False f show ?thesis unfolding e by (simp add: Let_def)
    qed
  qed
qed

section \<open>Properties\<close>

text \<open>C33. A client and the select server, for every length n of the server's first read (of the 200 bytes sent) and every
  length m of what the client receives of the answer. With 11 bytes read, the line and its zero, or no more received
  than were read, the client returns and prints its line with the first m characters in upper case. Otherwise bytes
  that an earlier client left in the server's buffer get through: the client prints the n characters in upper case and then
  the left-over bytes up to a zero, or, if none of them is zero, all of them and what is left of its own line; with
  m = 200 and no zero it prints past the end of its buffer.\<close>

theorem client_prints_upper:
  assumes "0 < n" "n \<le> 200" "m \<le> 200" "length (recvBuf s) = 1024"
  shows "fst (exchange i n m s) =
    map_sum id (\<lambda>t. ([Connect_to ''172.16.5.4'' 8000, Sends sendbuf0, Writes sendbuf0, Prints t], Returned_0))
      (if 11 \<le> n \<or> m \<le> n then Inr (map toupper (take m greeting) @ drop m greeting)
       else let stale = take (m - n) (drop n (recvBuf s)) in
         if 0 \<in> set stale then Inr (map toupper (take n greeting) @ takeWhile (\<lambda>c. c \<noteq> 0) stale)
         else if m < 200 then Inr (map toupper (take n greeting) @ stale @ drop m greeting)
         else Inl Out_of_bounds)"
proof (cases "11 \<le> n \<or> m \<le> n")
  case True
  obtain ys where ys: "take m (map toupper (take n sendbuf0) @ drop n (recvBuf s)) @ drop m sendbuf0
      = (map toupper (take m greeting) @ drop m greeting) @ 0 # ys"
    using client_buffer [OF assms(2,3) True] by blast
  show ?thesis unfolding exchange_prints [OF assms(1-3)] ys print_split [OF greeting_parts] using True by simp
next
  case False
  then show ?thesis unfolding exchange_prints [OF assms(1-3)]
    using stale_prints [of n m "recvBuf s"] assms(3,4) by simp
qed

theorem client_prints_upper_witness:
  "fst (exchange 4 20 200 (sel_start 3 (replicate 1024 7))) = Inr ([Connect_to ''172.16.5.4'' 8000, Sends sendbuf0, Writes sendbuf0,
      Prints (map toupper greeting)], Returned_0)
    \<and> fst (exchange 4 10 200 (sel_start 3 (replicate 1024 7))) = Inl Out_of_bounds"
proof -
  have l: "length (recvBuf (sel_start 3 (replicate 1024 7))) = 1024" by (simp add: sel_start_def)
  have d: "drop 10 (recvBuf (sel_start 3 (replicate 1024 7))) = replicate 1014 7" by (simp add: sel_start_def)
  show ?thesis using client_prints_upper [OF _ _ _ l, of 20 200 4] client_prints_upper [OF _ _ _ l, of 10 200 4]
    by (simp add: greeting_facts d)
qed

text \<open>A short first read lets bytes of an earlier client through: the server reads 10 bytes, the 11th is left over.\<close>

lemma stale_byte_shows:
  "\<exists>t. fst (exchange 4 10 200 (sel_start 3 (replicate 10 0 @ [65, 0] @ replicate 1012 0))) = Inr (t, Returned_0)
     \<and> last t = Prints (map toupper greeting @ [65])"
proof -
  let ?r = "replicate 10 0 @ [65, 0] @ replicate 1012 0 :: byte list"
  have d: "drop 10 ?r = [65, 0] @ replicate 1012 0" by simp
  have "print_string (take 200 (map toupper (take 10 sendbuf0) @ drop 10 ?r) @ drop 200 sendbuf0) = Inr (map toupper greeting @ [65])"
    using stale_prints [of 10 200 ?r] by (simp only: d) (simp add: greeting_facts Let_def)
  then show ?thesis using exchange_prints [of 10 200 4 "sel_start 3 ?r"] by (simp add: sel_start_def)
qed

text \<open>A client that cannot connect ends by the signal of its \<open>send\<close>; one without a socket gets to its end.\<close>

lemma client_not_connected:
  assumes "r_connect x \<noteq> 0"
  shows "c_socket x \<noteq> -1 \<Longrightarrow> select_client x = Inr ([Connect_to ''172.16.5.4'' 8000, Says_err], Killed_by_pipe)"
    and "c_socket x = -1 \<Longrightarrow> r_recv x \<le> 0 \<Longrightarrow> select_client x = Inr ([Connect_to ''172.16.5.4'' 8000, Says_err, Writes sendbuf0, Prints greeting], Returned_0)"
  using assms print_split [OF greeting_facts(2), of "replicate 189 0"]
  by (simp_all add: select_client_def client_at_def socket_state_def Let_def sendbuf0_split [symmetric])

end
