(* ===== verification/Spec2Isabelle.thy ===== *)
theory Spec2Isabelle
  imports Prelude Thread_Pool Pool_System Pool_Proofs Pool_Theorems Pool_Progress Reactor Reactor_Proofs Reactor_Theorems C11_Pool C11_Proofs Server_Pool Server_Thread Server_Methods Server_Reactor Sockets Epoll_Class Epoll_Demos Poll_Server Select_Server Shared_Counter Prod_Cons File_Tools Reaping Kernel Fd_Programs Pipe_Programs Processes Forking Pool_Wakeup Server_Main Small_Programs Pool_Program Shared_Mutex Edge_Server C11_Test Listening Clients
begin

text \<open>
  A verification of the programs of this repository: two thread pools, an epoll reactor, servers around
  \<open>poll\<close>, \<open>select\<close> and \<open>epoll\<close>, and the small programs about threads, locks, files, pipes and processes. The
  programs are C++ on POSIX; each is modelled from its source, and what the operating system decides
  (which thread moves, which waiter a signal wakes, what a call returns) is an input of the model.

  \<^bold>\<open>Conventions.\<close> A fault (null or indeterminate pointer, access out of bounds, division by zero, misuse
  of a mutex, use after free, an exception of \<open>new\<close>) is a value of the datatype \<open>fault\<close> of Prelude, and an
  operation that can have one returns \<open>fault + 'a\<close>. A program with several threads is a step function
  \<open>label \<Rightarrow> state \<Rightarrow> state outcome option\<close>: the label says who moves and what the system chooses, \<open>None\<close> means
  that this step is not possible now (the thread waits, or is elsewhere). \<open>fires\<close> turns it into a
  relation, \<open>reach\<close> is the set of reachable states, \<open>run\<close> executes a schedule. A step goes from one
  point where another thread can interfere to the next; code under a mutex is one step where
  nothing in it is written without that mutex. An \<open>int\<close> of the code is an \<open>int\<close> here where an invariant
  keeps it small, and a \<open>32 word\<close>, \<open>16 word\<close> or \<open>8 word\<close> where bits or wrap-around matter.

  \<^bold>\<open>Prelude.\<close> Faults, arrays behind pointers, mutexes and condition variables; counting and collecting
  over lists of threads; transition systems, and two of them side by side; the interfaces, as locales: \<open>inductive_invariant\<close> (an
  invariant), \<open>refinement\<close> (an invariant and a simulation of an abstract system), \<open>fifo\<close> and
  \<open>bounded_fifo\<close> (what a client of a queue relies on). Each is interpreted on the models below.

  \<^bold>\<open>The thread pool\<close>, src/socket/thread_Pool/main.cpp. Thread_Pool has the structs \<open>threadpool_task_t\<close> and
  \<open>threadpool_t\<close> and the operations under the lock: \<open>threadpool_add\<close> (\<open>add_guard\<close>, \<open>add_put\<close>), the worker
  \<open>threadpool_thread\<close> (\<open>worker_guard\<close>, \<open>worker_woken\<close>, \<open>worker_take\<close>), the manager \<open>adjust_thread\<close>
  (\<open>should_grow\<close>, \<open>adjust_grow\<close>, \<open>should_shrink\<close>, \<open>adjust_shrink\<close>), \<open>threadpool_free\<close>, \<open>threadpool_create\<close> with
  all its error paths, and \<open>main\<close>; the ring buffer is a \<open>bounded_fifo\<close>. Pool_System puts the threads
  together: program counters, the ghost lists of tasks added, taken and finished, and the steps of
  clients, workers, the manager and \<open>threadpool_destory\<close>. Its \<open>threadpool_free\<close> is three steps, since the code deletes and
  nulls the two arrays before it asks for the lock: from the first of them on the struct is no longer \<open>the_pool\<close>
  but \<open>dying\<close>, with its null pointers, and the other threads run on it until it is deleted. Pool_Proofs proves the invariant step by
  step; Pool_Theorems draws the conclusions (exactly once, refinement of an atomic bounded queue, no
  fault, counters, mutual exclusion); where they speak of the struct, of \<open>the_pool\<close>, they hold until it starts to die, and
  where they speak of the threads and the tasks only, for ever. Pool_Progress has what must and what need not happen (the
  lock is given back; a stranded task; a destroy that frees too early or waits for ever; a worker that
  holds the lock while the queue is deleted under it). The bad
  states are reached by explicit schedules that the kernel executes. Pool_Wakeup shows that this takes a
  trimming or a shutdown: in the system without them (\<open>calm_step\<close>) a worker waits only while every
  queued task has another worker on its way to the queue. Pool_Program is the whole program: \<open>main\<close> from the creation,
  which may fault or give a null pointer, adding its 40 tasks beside the running threads, \<open>process\<close> as a step that prints, sleeps and prints; it refines the
  steps of Pool_System, so their invariants give what is printed.

  \<^bold>\<open>The pool as a class\<close>, src/socket/Server/ThreadPoll.cpp. Server_Pool models \<open>ThreadPoolInit\<close>, with the
  capacity that is assigned to itself; Server_Methods the methods \<open>addTask\<close>, \<open>createThread\<close>,
  \<open>createManagerThread\<close> and \<open>is_thread_alive\<close>, proves them equal to the functions of the free-standing
  pool and obtains the running class as a refinement of it. Server_Thread has the free functions of
  src/socket/Server/Thread.cpp, which the same program is linked with (\<open>s_create\<close>, \<open>s_free\<close>, \<open>s_add\<close>, \<open>s_thread\<close>,
  \<open>s_adjust\<close>, \<open>s_destory\<close>), written out from their own text and proved equal to those of the free-standing pool; threads
  that the manager of the class adds run \<open>s_thread\<close>.

  \<^bold>\<open>The C++11 pool\<close>, src/socket/thread_Pool/C11/ThreadPool.h. C11_Pool has the steps as an inductive
  relation, C11_Proofs the invariant and the properties of constructor, \<open>enqueue\<close>, workers and
  destructor. A task is a number; that a worker runs it is an entry in a log. C11_Test is the program of test.cpp, the
  eight calls of \<open>std::async\<close>, each deferred or launched, beside a pool that stays unused.

  \<^bold>\<open>The reactor\<close>, src/socket/epoll/Reactor/main.cpp. Reactor has the table \<open>gevents\<close>, the interest list of
  the epoll instance, to which an addition may fail (the input \<open>io_ctl\<close>; \<open>ctl_failed\<close> are the structs the last addition failed for), \<open>eventset\<close>, \<open>eventadd\<close>, \<open>eventdel\<close>, the three callbacks, the timeout scan and the
  loop of \<open>main\<close>; Reactor_Proofs relates table and interest list; Reactor_Theorems has the properties.
  Server_Reactor has the event functions of src/socket/Server/Reactor.cpp (\<open>sv_eventset\<close> and the others), assignment by
  assignment, with the proof that they do the same.

  \<^bold>\<open>The class Epoll\<close>, src/socket/Server/Reactor.cpp. Epoll_Class has \<open>Recv_task\<close>, which reads a packet
  from a stream cut anyhow (Sockets), \<open>Send_task\<close>, the batch loop of \<open>EventLoop\<close>, which adds tasks
  to the pool of Thread_Pool, \<open>InitListen\<close>, whose listening socket never reaches the member \<open>EventLoop\<close>
  looks at, and \<open>Recv\<close>. Server_Main has the \<open>main\<close> of that file, the reactor loop beside the pool of the
  class: each part is in a state it can reach alone, and the pool stays as it started; and \<open>InitNet\<close> of
  src/socket/Server/TcpNet.cpp.

  \<^bold>\<open>The other servers.\<close> Poll_Server: src/socket/poll/poll.cpp, the array of descriptors that is compacted
  while it is walked. Select_Server: src/socket/select/select.cpp, the watched set that \<open>select\<close>
  overwrites. Epoll_Demos: the loops of src/socket/epoll/pipe/pipe.cpp, non_block/server.cpp and
  CS_socket/server.cpp; the child of pipe.cpp prints past its buffer, which is a fault or shows the bytes that are there,
  a parameter. Edge_Server: the whole \<open>main\<close> of non_block/server.cpp, with the edges of the epoll instance and
  the non-blocking flag as state. Listening: what comes before the loops, \<open>createSocket\<close> and \<open>setnoblock\<close> of poll.cpp and
  the set-up of the select and epoll servers, over a table of sockets. Clients: select_client.cpp and
  CS_socket/client.cpp, with what \<open>send\<close> does on a socket that is missing, not connected or connected, and a client together with the select server.

  \<^bold>\<open>Threads, files, processes.\<close> Shared_Counter: src/lock/mutex.cpp, the counting loops of mutexattr.cpp, and
  rwlock.cpp. Shared_Mutex: mutexattr.cpp from opening the shared file to the destruction of its mutex, with each addition
  a read and a later write, and the attributes that decide whether the child may use the mutex. Prod_Cons:
  src/thread/P_C_Model/Signal_type.cpp with its linked list in an explicit store, its counter an \<open>int\<close> whose overflow is a
  fault, and \<open>free\<close> on what \<open>new\<close> made, which is a fault or (\<open>lax\<close>) works. File_Tools:
  src/bases/mycp.cpp, src/bases/myls.cpp with the descriptors its open directories keep, and
  src/thread/multhread_copy/main.cpp with how much each write takes. Reaping:
  src/process_api/wait.cpp, src/signal/recovery.cpp and src/signal/r2.cpp, children and SIGCHLD.
  Small_Programs: src/thread/max_thread.cpp, src/signal/set.cpp and src/process_api/stat.cpp.

  \<^bold>\<open>Descriptors and pipes.\<close> Kernel models what these programs use of the system: descriptor tables of
  processes, open file descriptions that \<open>dup\<close> and \<open>fork\<close> share, files with offsets, holes and \<open>O_TRUNC\<close>,
  pipes with a capacity and their readers and writers; every call keeps \<open>wf_kernel\<close>. Fd_Programs has the
  programs of one process over it: dup.cpp and dup2.cpp of src/process_api, file_opts.cpp and
  NonblockRead.cpp of src/bases, mmap.cpp and SIGPIPE.cpp of src/IPC, and src/session/Daemon.cpp.
  Pipe_Programs has the ones with two processes, as steps of either: PIPE.cpp, mywc.cpp, fifo_A.cpp and
  fifo_B.cpp of src/IPC; neither pipe program deadlocks and what it shows does not depend on the schedule,
  while the reader of the fifo shows one line or two.

  \<^bold>\<open>Forking.\<close> Processes models a program that forks, prints through the buffer of \<open>stdio\<close> (flushed by a
  line on a terminal, at \<open>exit\<close> otherwise, copied by \<open>fork\<close>, lost in \<open>exec\<close>), executes another program,
  sleeps and calls \<open>setsid\<close>, as steps of any number of processes. The locale \<open>line_weight\<close> there carries
  the proofs: a weight of the lines a process will still print, kept by every step, gives how often each
  line is printed. Forking interprets it for fork.cpp, subprocess.cpp, execl.cpp and execlp.cpp of
  src/process_api, and has an invariant of the groups and sessions of src/session/session.cpp.

  \<^bold>\<open>Bounds and termination.\<close> No model uses fuel. Systems whose schedules are bounded have a measure that every
  step brings down (\<open>mywc\<close>, \<open>max_thread\<close>, \<open>mutexattr\<close>, the edge-triggered server between two arrivals, the handler of \<open>recovery\<close>). Loops over an array or a size are functions with a
  measure (\<open>grow_loop\<close>, \<open>find_free\<close>, \<open>recv_loop\<close>, \<open>drain\<close>, \<open>fill\<close>); the two loops that may not end, the copy
  loop of mycp and the polling loop of wait.cpp, are partial functions whose value \<open>None\<close> means that
  they do not. Sizes (1024 events, 4096 bytes, 100 descriptors) are those of the code. No run of mutexattr.cpp after its fork is
  longer than 115 steps. The copy by
  threads is about sources below \<open>2 ^ 31\<close> bytes, the range of its \<open>int\<close>.

  \<^bold>\<open>What is relied on.\<close> The documented behaviour of the system, as conditions on labels or as named
  hypotheses: \<open>malloc_ok\<close> (a block has the size asked for), \<open>io_ok\<close>, \<open>wait_ok\<close> and \<open>send_ok\<close> (a call returns
  at most what fits, \<open>accept\<close> a descriptor that is not open), \<open>sock_ok\<close> (a stream delivers non-empty
  pieces); condition variables may wake spuriously; SIGCHLD is discarded when neither blocked nor
  handled, and pending signals coalesce. \<open>pthread_create\<close>, \<open>pipe\<close> and \<open>fork\<close> succeed where the code does not look (\<open>PIPE_begin\<close> has what PIPE.cpp does when they do not); a
  child ends by itself or by a signal of 1 to 126; a mutex that is held is not destroyed (\<open>EBUSY\<close>). The programs
  that are executed, \<open>ls\<close> and \<open>wc\<close>, are parameters: what \<open>ls\<close> writes is any list of bytes in pieces that
  fit a pipe, \<open>wc -l\<close> counts newlines. A terminal delivers a line per read.

  \<^bold>\<open>Not modelled.\<close> src/thread/pthread.cpp does nothing, src/bases/test.cpp is a comment, and some files are empty.
  \<open>Accept_task\<close>, \<open>AddEvent\<close> and \<open>Buffer_Deal\<close> of the class Epoll have no body; the helpers \<open>senddata\<close> and \<open>recvdata\<close> of
  ThreadPoll.cpp are single system calls. The set-up of the reactor and of the edge-triggered server is calls whose
  results nobody looks at: the models begin with the descriptors. Timing (\<open>sleep\<close>, the second of \<open>epoll_wait\<close>) is not modelled beyond the order of
  steps, nor \<open>umask\<close>, nor a source that multhread_copy cannot open or map, nor a cycle of links under myls, nor the formatting of what programs print, except where the output is the point. Weak
  memory is not modelled: fields read without a lock are read in some interleaving.
\<close>

end
